(* ===== verification/NL_Prelude.thy ===== *)
theory NL_Prelude
  imports Main "HOL-Library.Word" "HOL-Library.Signed_Division"
begin

text \<open>
  Shared vocabulary of the newLISP development: the error numbers of
  \<^verbatim>\<open>newlisp.h\<close> as a datatype, the C integer operations that differ from the
  mathematical ones (truncating division, 64-bit wrap-around), and the generic list lemmas
  the component theories rewrite with.
\<close>

section \<open>Named collections\<close>

named_theorems digit_simps \<open>value equations of digit lists\<close>
named_theorems c_arith \<open>C integer division and remainder on the operands that occur\<close>

section \<open>Errors\<close>

text \<open>The error numbers of \<^verbatim>\<open>newlisp.h\<close>, in their order. The constructor
  \<open>C_UNDEFINED\<close> is no error number: it marks the executions whose outcome C leaves
  open: the quotient of the least \<^verbatim>\<open>INT64\<close> and -1, which the processor answers with a trap, reads and
  writes outside a buffer, and writes through a null pointer.\<close>

datatype nl_error =
    ERR_NOT_ENOUGH_MEMORY | ERR_OUT_OF_ENV_STACK | ERR_OUT_OF_CALL_STACK
  | ERR_ACCESSING_FILE | ERR_EXPRESSION | ERR_MISSING_PAR
  | ERR_STRING_TOO_LONG | ERR_MISSING_ARGUMENT | ERR_NUMBER_OR_STRING_EXPECTED
  | ERR_NUMBER_EXPECTED | ERR_STRING_EXPECTED | ERR_SYMBOL_EXPECTED
  | ERR_CONTEXT_EXPECTED | ERR_SYMBOL_OR_CONTEXT_EXPECTED | ERR_LIST_EXPECTED
  | ERR_LIST_OR_ARRAY_EXPECTED | ERR_LIST_OR_SYMBOL_EXPECTED | ERR_LIST_OR_STRING_EXPECTED
  | ERR_LIST_OR_NUMBER_EXPECTED | ERR_ARRAY_EXPECTED | ERR_ARRAY_LIST_OR_STRING_EXPECTED
  | ERR_LAMBDA_EXPECTED | ERR_MACRO_EXPECTED | ERR_INVALID_FUNCTION
  | ERR_INVALID_LAMBDA | ERR_INVALID_MACRO | ERR_INVALID_LET
  | ERR_SAVING_FILE | ERR_MATH | ERR_NOT_MATRIX
  | ERR_WRONG_DIMENSIONS | ERR_SINGULAR | ERR_INVALID_OPTION
  | ERR_THROW_WO_CATCH | ERR_IMPORT_LIB_NOT_FOUND | ERR_IMPORT_FUNC_NOT_FOUND
  | ERR_SYMBOL_PROTECTED | ERR_NUMBER_OUT_OF_RANGE | ERR_REGEX
  | ERR_TEXT_END_TAG | ERR_NUM_ARGS | ERR_FORMAT_STRING
  | ERR_FORMAT_DATA_TYPE | ERR_INVALID_PARAMETER | ERR_INVALID_PARAMETER_0
  | ERR_INVALID_PARAMETER_NAN | ERR_INVALID_UTF8 | ERR_ILLEGAL_TYPE
  | ERR_NOT_IN_MAIN | ERR_NOT_CURRENT_CONTEXT | ERR_TARGET_NO_MAIN
  | ERR_LIST_INDEX_INVALID | ERR_ARRAY_INDEX_OUTOF_BOUNDS | ERR_STRING_INDEX_INVALID
  | ERR_NESTING_TOO_DEEP | ERR_LIST_REFERENCE_CHANGED | ERR_SYNTAX_WRONG
  | ERR_USER_ERROR | ERR_USER_RESET | ERR_SIGINT
  | ERR_NOT_REENTRANT | ERR_CANNOT_PROTECT_LOCAL | ERR_IS_NOT_REFERENCED
  | ERR_LIST_EMPTY | ERR_IO_ERROR | ERR_WORKING_DIR
  | ERR_INVALID_PID | ERR_CANNOT_OPEN_SOCKETPAIR | ERR_CANNOT_FORK_PROCESS
  | ERR_NO_SOCKET | ERR_FFI_PREP_FAILED | ERR_FFI_INVALID_TYPE
  | ERR_FFI_STRUCT_EXPECTED | ERR_BIGINT_NOT_ALLOWED | ERR_CANNOT_CONVERT
  | ERR_CANNOT_CONVERT_NULL
  | C_UNDEFINED

type_synonym 'a result = "nl_error + 'a"

section \<open>C integers\<close>

text \<open>C's division and remainder truncate towards zero: \<^const>\<open>signed_divide\<close> and
  \<^const>\<open>signed_modulo\<close> on \<open>int\<close>. On the non-negative operands of the digit
  loops they are \<open>div\<close> and \<open>mod\<close>.\<close>

lemma sdiv_nonneg [c_arith]: "0 \<le> a \<Longrightarrow> 0 < b \<Longrightarrow> (a::int) sdiv b = a div b"
  by (cases "a = 0") (simp_all add: signed_divide_int_def)

lemma smod_nonneg [c_arith]: "0 \<le> a \<Longrightarrow> 0 < b \<Longrightarrow> (a::int) smod b = a mod b"
  by (cases "a = 0") (simp_all add: signed_modulo_int_def)

lemma div_less_if_less_mult: "(a::int) < b * c \<Longrightarrow> 0 < b \<Longrightarrow> a div b < c"
proof (rule ccontr)
  assume "a < b * c" "0 < b" "\<not> a div b < c"
  then have "b * c \<le> b * (a div b)" by (intro mult_left_mono) auto
  also have "\<dots> \<le> a" using mult_div_mod_eq [of b a] pos_mod_sign [OF \<open>0 < b\<close>, of a] by linarith
  finally show False using \<open>a < b * c\<close> by simp
qed

text \<open>The value an \<^verbatim>\<open>INT64\<close> holds after a computation, two's complement.\<close>

definition wrap64 :: "int \<Rightarrow> int" where
  "wrap64 n = signed_take_bit 63 n"

definition int64 :: "int \<Rightarrow> bool" where
  "int64 n \<longleftrightarrow> - (2 ^ 63) \<le> n \<and> n < 2 ^ 63"

lemma wrap64_id [simp]: "int64 n \<Longrightarrow> wrap64 n = n"
  by (simp add: int64_def wrap64_def signed_take_bit_int_eq_self)

lemma int64_wrap64 [simp, intro]: "int64 (wrap64 n)"
  using signed_take_bit_int_greater_eq_minus_exp [of 63 n] signed_take_bit_int_less_exp [of 63 n]
  by (simp add: int64_def wrap64_def)

section \<open>Lists\<close>

lemma dropWhile_Nil_iff: "dropWhile P xs = [] \<longleftrightarrow> (\<forall>x\<in>set xs. P x)"
  by (induction xs) auto

lemma hd_dropWhile_not: "dropWhile P xs \<noteq> [] \<Longrightarrow> \<not> P (hd (dropWhile P xs))"
  by (induction xs) auto

lemma set_dropWhile_subset: "set (dropWhile P xs) \<subseteq> set xs"
  by (induction xs) auto

section \<open>Bytes\<close>

text \<open>Strings are lists of characters; \<open>byte\<close> is the value of an
  \<^verbatim>\<open>unsigned char\<close>.\<close>

definition byte :: "char \<Rightarrow> int" where
  "byte c = of_char c"

lemma byte_eq_iff [simp]: "byte c = byte d \<longleftrightarrow> c = d"
  by (simp add: byte_def)

lemma byte_range: "0 \<le> byte c" "byte c < 256"
proof -
  have "byte c = int (of_char c)" by (cases c) (simp add: byte_def of_char_def)
  then show "0 \<le> byte c" "byte c < 256" using nat_of_char_less_256 [of c] by linarith+
qed

lemma byte_pos: "c \<noteq> CHR 0x00 \<Longrightarrow> 0 < byte c"
  using byte_eq_iff [of c "CHR 0x00"] byte_range(1) [of c] by (simp add: byte_def)

text \<open>The value as a signed \<^verbatim>\<open>char\<close>, and the part of a buffer a C string function
  sees: up to the first NUL.\<close>

definition sbyte :: "char \<Rightarrow> int" where
  "sbyte c = (if byte c < 128 then byte c else byte c - 256)"

definition cstr :: "string \<Rightarrow> string" where
  "cstr s = takeWhile (\<lambda>c. c \<noteq> CHR 0x00) s"

section \<open>Comparisons\<close>

text \<open>What sorting and searching rely on: on the values satisfying \<open>ok\<close> the comparison
  returns, changes its sign when the operands are exchanged, and is transitive.\<close>

locale total_comparison =
  fixes ok :: "'a \<Rightarrow> bool" and cmp :: "'a \<Rightarrow> 'a \<Rightarrow> int result"
  assumes cmp_returns: "ok x \<Longrightarrow> ok y \<Longrightarrow> \<exists>c. cmp x y = Inr c"
    and cmp_swap: "ok x \<Longrightarrow> ok y \<Longrightarrow> cmp x y = Inr c \<Longrightarrow> cmp y x = Inr (- c)"
    and cmp_trans: "ok x \<Longrightarrow> ok y \<Longrightarrow> ok z \<Longrightarrow> cmp x y = Inr c \<Longrightarrow> c \<le> 0 \<Longrightarrow>
      cmp y z = Inr d \<Longrightarrow> d \<le> 0 \<Longrightarrow> \<exists>e. cmp x z = Inr e \<and> e \<le> 0"
begin

definition le :: "'a \<Rightarrow> 'a \<Rightarrow> bool" where
  "le x y \<longleftrightarrow> (\<exists>c. cmp x y = Inr c \<and> c \<le> 0)"

lemma le_total: "ok x \<Longrightarrow> ok y \<Longrightarrow> le x y \<or> le y x"
  using cmp_returns [of x y] cmp_swap [of x y] unfolding le_def by force

lemma le_trans: "ok x \<Longrightarrow> ok y \<Longrightarrow> ok z \<Longrightarrow> le x y \<Longrightarrow> le y z \<Longrightarrow> le x z"
  unfolding le_def using cmp_trans by blast

lemma not_le: "ok x \<Longrightarrow> ok y \<Longrightarrow> \<not> le x y \<longleftrightarrow> (\<exists>c. cmp x y = Inr c \<and> c > 0)"
  using cmp_returns [of x y] unfolding le_def by force

lemma cmp_refl: "ok x \<Longrightarrow> cmp x x = Inr 0"
  using cmp_returns [of x x] cmp_swap [of x x] by force

end

section \<open>Integer arithmetic\<close>

text \<open>What the operators rely on of a representation of the integers: the operations keep
  the representation well formed and compute on the values.\<close>

locale integer_ops =
  fixes ok :: "'a \<Rightarrow> bool" and val :: "'a \<Rightarrow> int"
    and add sub mul :: "'a \<Rightarrow> 'a \<Rightarrow> 'a" and cmp :: "'a \<Rightarrow> 'a \<Rightarrow> int"
  assumes add_law: "ok x \<Longrightarrow> ok y \<Longrightarrow> val (add x y) = val x + val y \<and> ok (add x y)"
    and sub_law: "ok x \<Longrightarrow> ok y \<Longrightarrow> val (sub x y) = val x - val y \<and> ok (sub x y)"
    and mul_law: "ok x \<Longrightarrow> ok y \<Longrightarrow> val (mul x y) = val x * val y \<and> ok (mul x y)"
    and cmp_law: "ok x \<Longrightarrow> ok y \<Longrightarrow> cmp x y = sgn (val x - val y)"
begin

lemma fold_add: "ok x \<Longrightarrow> list_all ok ys \<Longrightarrow>
   val (foldl add x ys) = val x + sum_list (map val ys) \<and> ok (foldl add x ys)"
  by (induction ys arbitrary: x) (simp_all add: add_law)

lemma fold_sub: "ok x \<Longrightarrow> list_all ok ys \<Longrightarrow>
   val (foldl sub x ys) = val x - sum_list (map val ys) \<and> ok (foldl sub x ys)"
  by (induction ys arbitrary: x) (simp_all add: sub_law)

lemma fold_mul: "ok x \<Longrightarrow> list_all ok ys \<Longrightarrow>
   val (foldl mul x ys) = val x * prod_list (map val ys) \<and> ok (foldl mul x ys)"
  by (induction ys arbitrary: x) (simp_all add: mul_law)

lemma add_comm: "ok x \<Longrightarrow> ok y \<Longrightarrow> cmp (add x y) (add y x) = 0"
  by (simp add: add_law cmp_law)

lemma cmp_eq: "ok x \<Longrightarrow> ok y \<Longrightarrow> cmp x y = 0 \<longleftrightarrow> val x = val y"
  by (simp add: cmp_law sgn_if)

lemma sub_add_cancel: "ok x \<Longrightarrow> ok y \<Longrightarrow> cmp (sub (add x y) y) x = 0"
  by (simp add: add_law sub_law cmp_law)

lemma mul_distrib: "ok x \<Longrightarrow> ok y \<Longrightarrow> ok z \<Longrightarrow> cmp (mul x (add y z)) (add (mul x y) (mul x z)) = 0"
  by (simp add: add_law mul_law cmp_law distrib_left)

end

text \<open>Division truncates and reports a zero divisor; \<open>divm x y m\<close> is the remainder when
  \<open>m\<close> holds.\<close>

locale integer_division = integer_ops +
  fixes divm :: "'a \<Rightarrow> 'a \<Rightarrow> bool \<Rightarrow> 'a result option"
  assumes div_law: "ok x \<Longrightarrow> ok y \<Longrightarrow> val y \<noteq> 0 \<Longrightarrow>
      \<exists>q. divm x y False = Some (Inr q) \<and> val q = val x sdiv val y \<and> ok q"
    and mod_law: "ok x \<Longrightarrow> ok y \<Longrightarrow> val y \<noteq> 0 \<Longrightarrow>
      \<exists>r. divm x y True = Some (Inr r) \<and> val r = val x smod val y \<and> ok r"
    and zero_law: "ok x \<Longrightarrow> ok y \<Longrightarrow> val y = 0 \<Longrightarrow> divm x y m = Some (Inl ERR_MATH)"
begin

lemma div_mod_inverse:
  assumes "ok x" "ok y" "val y \<noteq> 0"
  shows "\<exists>q r. divm x y False = Some (Inr q) \<and> divm x y True = Some (Inr r) \<and>
    cmp (add (mul q y) r) x = 0 \<and> \<bar>val r\<bar> < \<bar>val y\<bar>"
proof -
  obtain q r where q: "divm x y False = Some (Inr q)" "val q = val x sdiv val y" "ok q"
    and r: "divm x y True = Some (Inr r)" "val r = val x smod val y" "ok r"
    using div_law [OF assms] mod_law [OF assms] by blast
  have "val x sdiv val y * val y + val x smod val y = val x" 
    by (rule sdiv_mult_smod_eq)
  moreover have "\<bar>val x smod val y\<bar> < \<bar>val y\<bar>" using assms(3) by (simp add: signed_modulo_int_def abs_mult)
  ultimately show ?thesis using q r assms by (simp add: add_law mul_law cmp_law)
qed

end

end
