(* ===== verification/NL_Bigint.thy ===== *)
theory NL_Bigint
  imports NL_Prelude
begin

text \<open>
  The big integers of \<^verbatim>\<open>nl-math.c\<close>: sign and base-\<open>10^9\<close> digits, high to low.
  A C big integer is an \<^verbatim>\<open>int *\<close> whose slot 0 holds the sign (1 or -1) and whose
  slots 1 to n hold the digits, with n passed beside the pointer; here it is a record of the
  sign and the list of the n digits. A loop that runs from slot n down to slot 1 is a
  recursion on the reversed digit list.
\<close>

section \<open>Representation\<close>

definition BIGINT_BASE :: int where
  "BIGINT_BASE = 1000000000"

definition BIGINT_BASE2 :: int where
  "BIGINT_BASE2 = 1000000000000000000"

record bigint =
  bsign :: int
  bdigits :: "int list"

text \<open>The value of a digit list, least significant digit first (\<open>lval\<close>) and most
  significant first (\<open>dval\<close>).\<close>

fun lval :: "int list \<Rightarrow> int" where
  "lval [] = 0"
| "lval (d # ds) = d + BIGINT_BASE * lval ds"

definition dval :: "int list \<Rightarrow> int" where
  "dval ds = lval (rev ds)"

definition bval :: "bigint \<Rightarrow> int" where
  "bval b = bsign b * dval (bdigits b)"

definition wf_digits :: "int list \<Rightarrow> bool" where
  "wf_digits ds \<longleftrightarrow> (\<forall>d\<in>set ds. 0 \<le> d \<and> d < BIGINT_BASE)"

text \<open>The invariant of a big integer cell: a sign, at least one digit, digits in range, no
  leading zero unless the number is the single digit 0.\<close>

definition wf_mag :: "int list \<Rightarrow> bool" where
  "wf_mag ds \<longleftrightarrow> ds \<noteq> [] \<and> wf_digits ds \<and> (length ds = 1 \<or> hd ds \<noteq> 0)"

definition wf_bigint :: "bigint \<Rightarrow> bool" where
  "wf_bigint b \<longleftrightarrow> (bsign b = 1 \<or> bsign b = -1) \<and> wf_mag (bdigits b)"

section \<open>Comparison\<close>

fun cmp_digits :: "int list \<Rightarrow> int list \<Rightarrow> int" where
  "cmp_digits (x # xs) (y # ys) =
     (if x > y then 1 else if x < y then -1 else cmp_digits xs ys)"
| "cmp_digits _ _ = 0"

definition cmpAbsBigint :: "int list \<Rightarrow> int list \<Rightarrow> int" where
  "cmpAbsBigint x y =
     (let cmp = int (length x) - int (length y)
      in if cmp = 0 then cmp_digits x y else if cmp > 0 then 1 else -1)"

definition cmpBigint :: "bigint \<Rightarrow> bigint \<Rightarrow> int" where
  "cmpBigint x y =
     (if length (bdigits x) = 1 \<and> length (bdigits y) = 1 \<and>
         bdigits x ! 0 = 0 \<and> bdigits y ! 0 = 0 then 0
      else if bsign x > bsign y then 1
      else if bsign x < bsign y then -1
      else cmpAbsBigint (bdigits x) (bdigits y) * bsign x)"

section \<open>Value lemmas\<close>

lemma lval_append [digit_simps]:
  "lval (xs @ ys) = lval xs + BIGINT_BASE ^ length xs * lval ys"
  by (induction xs) (auto simp: algebra_simps)

lemma dval_Nil [simp]: "dval [] = 0"
  by (simp add: dval_def)

lemma dval_Cons [digit_simps]: "dval (d # ds) = d * BIGINT_BASE ^ length ds + dval ds"
  by (simp add: dval_def lval_append)

lemma dval_single [simp]: "dval [d] = d"
  by (simp add: dval_def)

lemma dval_append [digit_simps]:
  "dval (xs @ ys) = dval xs * BIGINT_BASE ^ length ys + dval ys"
  by (simp add: dval_def lval_append)

lemma dval_snoc: "dval (xs @ [d]) = dval xs * BIGINT_BASE + d"
  by (simp add: dval_append)

lemma base_pos [simp]: "0 < BIGINT_BASE" "0 \<le> BIGINT_BASE" "BIGINT_BASE \<noteq> 0" "\<not> BIGINT_BASE < 0"
  by (simp_all add: BIGINT_BASE_def)

lemma wf_digits_simps [simp]:
  "wf_digits []"
  "wf_digits (d # ds) \<longleftrightarrow> 0 \<le> d \<and> d < BIGINT_BASE \<and> wf_digits ds"
  "wf_digits (xs @ ys) \<longleftrightarrow> wf_digits xs \<and> wf_digits ys"
  "wf_digits (rev xs) \<longleftrightarrow> wf_digits xs"
  by (auto simp: wf_digits_def)

lemma lval_bounds: "wf_digits ds \<Longrightarrow> 0 \<le> lval ds \<and> lval ds < BIGINT_BASE ^ length ds"
proof (induction ds)
  case Nil
  then show ?case by simp
next
  case (Cons d ds)
  then have b: "0 \<le> lval ds" "lval ds + 1 \<le> BIGINT_BASE ^ length ds" and d: "0 \<le> d" "d < BIGINT_BASE"
    by auto
  from b(2) have "BIGINT_BASE * (lval ds + 1) \<le> BIGINT_BASE * BIGINT_BASE ^ length ds"
    by (rule mult_left_mono) simp
  with d b show ?case by (simp add: algebra_simps)
qed

lemma dval_bounds: "wf_digits ds \<Longrightarrow> 0 \<le> dval ds \<and> dval ds < BIGINT_BASE ^ length ds"
  using lval_bounds [of "rev ds"] by (simp add: dval_def)

lemma dval_ge_lead: "wf_digits ds \<Longrightarrow> ds \<noteq> [] \<Longrightarrow> hd ds * BIGINT_BASE ^ (length ds - 1) \<le> dval ds"
  by (cases ds) (auto simp: dval_Cons dval_bounds)

section \<open>Addition and subtraction\<close>

text \<open>The digit loops. The longer operand comes first; both come reversed (low digit
  first). The result is built from the low digit up, so the accumulator ends high to low.\<close>

fun add_loop :: "int list \<Rightarrow> int list \<Rightarrow> int \<Rightarrow> int list \<Rightarrow> int \<times> int list" where
  "add_loop (x # xs) (y # ys) carry acc =
     (let digit = x + y + carry
      in add_loop xs ys (digit sdiv BIGINT_BASE) (digit smod BIGINT_BASE # acc))"
| "add_loop (x # xs) [] carry acc =
     (let digit = x + carry
      in add_loop xs [] (digit sdiv BIGINT_BASE) (digit smod BIGINT_BASE # acc))"
| "add_loop [] _ carry acc = (carry, acc)"

fun sub_loop :: "int list \<Rightarrow> int list \<Rightarrow> int \<Rightarrow> int list \<Rightarrow> int list" where
  "sub_loop (x # xs) ys carry acc =
     (let digit = (case ys of y # _ \<Rightarrow> x - y - carry | [] \<Rightarrow> x - carry)
      in if digit < 0
         then sub_loop xs (tl ys) 1 ((digit + BIGINT_BASE) smod BIGINT_BASE # acc)
         else sub_loop xs (tl ys) 0 (digit smod BIGINT_BASE # acc))"
| "sub_loop [] ys carry acc = acc"

text \<open>Removing leading zeros; one digit stays.\<close>

definition trim_zeros :: "int list \<Rightarrow> int list" where
  "trim_zeros ds =
     (let r = dropWhile (\<lambda>d. d = 0) ds in if r = [] then take 1 ds else r)"

text \<open>The two functions call each other once, after the sign of the second operand has
  been overwritten with that of the first (the C code restores it before it returns).\<close>

function addBigint :: "bigint \<Rightarrow> bigint \<Rightarrow> bigint"
  and subBigint :: "bigint \<Rightarrow> bigint \<Rightarrow> bigint" where
  "addBigint x0 y0 =
     (let (x, y) = (if length (bdigits x0) < length (bdigits y0) then (y0, x0) else (x0, y0))
      in if bsign x0 \<noteq> bsign y0 then subBigint x (y\<lparr>bsign := bsign x\<rparr>)
         else (let (carry, ds) = add_loop (rev (bdigits x)) (rev (bdigits y)) 0 []
               in \<lparr>bsign = bsign x, bdigits = (if carry = 0 then ds else carry # ds)\<rparr>))"
| "subBigint x y =
     (if bsign x \<noteq> bsign y then addBigint x (y\<lparr>bsign := bsign x\<rparr>)
      else if cmpAbsBigint (bdigits x) (bdigits y) \<ge> 1
      then \<lparr>bsign = bsign x,
            bdigits = trim_zeros (sub_loop (rev (bdigits x)) (rev (bdigits y)) 0 [])\<rparr>
      else \<lparr>bsign = bsign x * -1,
            bdigits = trim_zeros (sub_loop (rev (bdigits y)) (rev (bdigits x)) 0 [])\<rparr>)"
  by pat_completeness auto
termination
  by (relation "measure (\<lambda>s. case s of Inl (x, y) \<Rightarrow> if bsign x = bsign y then 0 else 1
                                    | Inr (x, y) \<Rightarrow> if bsign x = bsign y then 0 else (1::nat))")
    (auto split: if_splits)

declare addBigint.simps [simp del] subBigint.simps [simp del]

section \<open>Multiplication\<close>

text \<open>The inner loop adds \<open>y * x\<close> onto the slice of the product that starts at the
  multiplier digit's place; the slices are low digit first.\<close>

fun mul_row :: "int list \<Rightarrow> int list \<Rightarrow> int \<Rightarrow> int \<Rightarrow> int list" where
  "mul_row (p # ps) (x # xs) y carry =
     (let digit = p + y * x + carry
      in digit smod BIGINT_BASE # mul_row ps xs y (digit sdiv BIGINT_BASE))"
| "mul_row (p # ps) [] y carry = (p + carry) smod BIGINT_BASE # ps"
| "mul_row [] _ y carry = []"

fun mul_rows :: "int list \<Rightarrow> int list \<Rightarrow> int list \<Rightarrow> int list" where
  "mul_rows ps xs [] = ps"
| "mul_rows ps xs (y # ys) =
     (case mul_row ps xs y 0 of
        [] \<Rightarrow> []
      | q # qs \<Rightarrow> q # mul_rows qs xs ys)"

definition mulBigint :: "bigint \<Rightarrow> bigint \<Rightarrow> bigint" where
  "mulBigint x y =
     (let p0 = replicate (length (bdigits x) + length (bdigits y)) 0;
          p = mul_rows p0 (rev (bdigits x)) (rev (bdigits y))
      in \<lparr>bsign = bsign x * bsign y, bdigits = trim_zeros (rev p)\<rparr>)"

section \<open>Correctness of comparison, addition, subtraction and multiplication\<close>

lemma cmp_digits_correct: "length xs = length ys \<Longrightarrow> wf_digits xs \<Longrightarrow> wf_digits ys \<Longrightarrow>
  cmp_digits xs ys = sgn (dval xs - dval ys)"
proof (induction xs ys rule: cmp_digits.induct)
  case (1 x xs y ys)
  have bx: "0 \<le> dval xs" "dval xs < BIGINT_BASE ^ length ys"
    and by': "0 \<le> dval ys" "dval ys < BIGINT_BASE ^ length ys"
    using 1 dval_bounds [of xs] dval_bounds [of ys] by auto
  have *: "a > b \<Longrightarrow> a * B + u > b * B + v" if "0 \<le> u" "v < B" "0\<le>v" "u<B" for a b u v B :: int
  proof -
    assume "a > b"
    then have "(b + 1) * B \<le> a * B" using that by (intro mult_right_mono) auto
    then show ?thesis using that by (simp add: algebra_simps)
  qed
  show ?case
    using 1 bx by' *[of "dval xs" "dval ys" _ y x] *[of "dval ys" "dval xs" _ x y]
    by (auto simp: dval_Cons)
qed auto

lemma mag_mono: assumes "wf_mag x" "wf_mag y" "length x < length y" shows "dval x < dval y"
proof -
  have y: "hd y \<ge> 1" "wf_digits y" "y \<noteq> []" using assms by (cases y; auto simp: wf_mag_def)+
  have "dval x < BIGINT_BASE ^ length x" using assms dval_bounds by (simp add: wf_mag_def)
  also have "\<dots> \<le> BIGINT_BASE ^ (length y - 1)"
    using assms by (intro power_increasing) (auto simp: BIGINT_BASE_def)
  also have "\<dots> \<le> hd y * BIGINT_BASE ^ (length y - 1)" using y by simp
  also have "\<dots> \<le> dval y" using y by (intro dval_ge_lead)
  finally show ?thesis .
qed
lemma cmpAbsBigint_correct: assumes "wf_mag x" "wf_mag y" shows "cmpAbsBigint x y = sgn (dval x - dval y)"
proof (cases "length x = length y")
  case True
  then show ?thesis using assms by (simp add: cmpAbsBigint_def wf_mag_def cmp_digits_correct)
next
  case False
  then show ?thesis using assms mag_mono [of x y] mag_mono [of y x]
    by (cases "length x < length y") (auto simp: cmpAbsBigint_def)
qed

lemma carry_step:
  fixes d :: int
  shows "dval (d mod BIGINT_BASE # acc) + BIGINT_BASE ^ Suc (length acc) * (v + d div BIGINT_BASE) =
         dval acc + BIGINT_BASE ^ length acc * (d + BIGINT_BASE * v)"
proof -
  have "dval (d mod BIGINT_BASE # acc) + BIGINT_BASE ^ Suc (length acc) * (v + d div BIGINT_BASE) =
        dval acc + BIGINT_BASE ^ length acc *
          ((d mod BIGINT_BASE + BIGINT_BASE * (d div BIGINT_BASE)) + BIGINT_BASE * v)"
    by (simp only: dval_Cons power_Suc algebra_simps)
  then show ?thesis by (simp only: mod_mult_div_eq)
qed

lemma add_loop_val:
  assumes "wf_digits xs" "wf_digits ys" "length ys \<le> length xs" "carry = 0 \<or> carry = 1" "wf_digits acc"
    and "add_loop xs ys carry acc = (c, ds)"
  shows "dval ds + c * BIGINT_BASE ^ length ds =
          dval acc + BIGINT_BASE ^ length acc * (lval xs + lval ys + carry) \<and>
         (c = 0 \<or> c = 1) \<and> wf_digits ds \<and> length ds = length acc + length xs"
  using assms
proof (induction xs ys carry acc rule: add_loop.induct)
  case (1 x xs y ys carry acc)
  let ?d = "x + y + carry"
  have d: "0 \<le> ?d" "?d < 2 * BIGINT_BASE" using 1 by auto
  then have q: "?d div BIGINT_BASE = 0 \<or> ?d div BIGINT_BASE = 1" by (auto simp: BIGINT_BASE_def)
  from 1 d q have "dval ds + c * BIGINT_BASE ^ length ds =
      dval (?d mod BIGINT_BASE # acc) + BIGINT_BASE ^ Suc (length acc) * (lval xs + lval ys + ?d div BIGINT_BASE) \<and>
     (c = 0 \<or> c = 1) \<and> wf_digits ds \<and> length ds = Suc (length acc) + length xs"
    by (auto simp: c_arith Let_def)
  then show ?case by (simp only: carry_step) (auto simp: algebra_simps)
next
  case (2 x xs carry acc)
  let ?d = "x + carry"
  have d: "0 \<le> ?d" "?d < 2 * BIGINT_BASE" using 2 by auto
  then have q: "?d div BIGINT_BASE = 0 \<or> ?d div BIGINT_BASE = 1" by (auto simp: BIGINT_BASE_def)
  from 2 d q have "dval ds + c * BIGINT_BASE ^ length ds =
      dval (?d mod BIGINT_BASE # acc) + BIGINT_BASE ^ Suc (length acc) * (lval xs + ?d div BIGINT_BASE) \<and>
     (c = 0 \<or> c = 1) \<and> wf_digits ds \<and> length ds = Suc (length acc) + length xs"
    by (auto simp: c_arith Let_def)
  then show ?case by (simp only: carry_step) (auto simp: algebra_simps)
next
  case 3
  then show ?case by (auto simp: algebra_simps)
qed

lemma sub_loop_val:
  assumes "wf_digits xs" "wf_digits ys" "length ys \<le> length xs" "carry = 0 \<or> carry = 1" "wf_digits acc"
    "lval ys + carry \<le> lval xs"
  shows "dval (sub_loop xs ys carry acc) =
          dval acc + BIGINT_BASE ^ length acc * (lval xs - lval ys - carry) \<and>
         wf_digits (sub_loop xs ys carry acc) \<and> length (sub_loop xs ys carry acc) = length acc + length xs"
  using assms
proof (induction xs ys carry acc rule: sub_loop.induct)
  case (1 x xs ys carry acc)
  define y where "y = (case ys of [] \<Rightarrow> 0 | y # _ \<Rightarrow> y)"
  have y: "0 \<le> y" "y < BIGINT_BASE" "lval ys = y + BIGINT_BASE * lval (tl ys)" "wf_digits (tl ys)" 
     "length (tl ys) \<le> length xs"
    using 1 by (cases ys; simp add: y_def)+
  let ?d = "x - y - carry"
  have dd: "(case ys of y # _ \<Rightarrow> x - y - carry | [] \<Rightarrow> x - carry) = ?d" by (cases ys) (auto simp: y_def)
  have x: "0 \<le> x" "x < BIGINT_BASE" "wf_digits xs" using 1 by auto
  have dB: "?d < BIGINT_BASE" "- BIGINT_BASE \<le> ?d" using x y 1 by auto
  have le: "lval (tl ys) * BIGINT_BASE - lval xs * BIGINT_BASE \<le> ?d" using 1(8) y by (simp add: algebra_simps)
  show ?case
  proof (cases "?d < 0")
    case True
    have "(lval (tl ys) - lval xs) * BIGINT_BASE < 0"
      using le True unfolding left_diff_distrib by linarith
    then have "lval (tl ys) - lval xs < 0" by (simp add: mult_less_0_iff)
    then have l: "lval (tl ys) + 1 \<le> lval xs" by simp
    have m: "(?d + BIGINT_BASE) smod BIGINT_BASE = ?d + BIGINT_BASE"
      using True dB by (simp add: smod_nonneg mod_pos_pos_trivial del: mod_add_self2)
    have eq: "sub_loop (x # xs) ys carry acc = sub_loop xs (tl ys) 1 ((?d + BIGINT_BASE) # acc)"
      using True m by (simp add: Let_def dd)
    have "dval (sub_loop xs (tl ys) 1 ((?d + BIGINT_BASE) # acc)) =
        dval ((?d + BIGINT_BASE) # acc) + BIGINT_BASE ^ Suc (length acc) * (lval xs - lval (tl ys) - 1) \<and>
      wf_digits (sub_loop xs (tl ys) 1 ((?d + BIGINT_BASE) # acc)) \<and>
      length (sub_loop xs (tl ys) 1 ((?d + BIGINT_BASE) # acc)) = Suc (length acc) + length xs"
      using 1(1)[OF dd[symmetric] True] 1(7) True x y dB l by (simp only: m) simp
    then show ?thesis unfolding eq by (simp add: y(3) dval_Cons algebra_simps)
  next
    case False
    have "(lval (tl ys) - lval xs) * BIGINT_BASE < BIGINT_BASE"
      using le dB unfolding left_diff_distrib by linarith
    then have "lval (tl ys) - lval xs < 1" using mult_less_cancel_right_pos [of BIGINT_BASE "lval (tl ys) - lval xs" 1] by simp
    then have l: "lval (tl ys) \<le> lval xs" by simp
    have m: "?d smod BIGINT_BASE = ?d" using False dB by (simp add: c_arith)
    have eq: "sub_loop (x # xs) ys carry acc = sub_loop xs (tl ys) 0 (?d # acc)"
      using False m by (simp add: Let_def dd)
    have "dval (sub_loop xs (tl ys) 0 (?d # acc)) =
        dval (?d # acc) + BIGINT_BASE ^ Suc (length acc) * (lval xs - lval (tl ys) - 0) \<and>
      wf_digits (sub_loop xs (tl ys) 0 (?d # acc)) \<and>
      length (sub_loop xs (tl ys) 0 (?d # acc)) = Suc (length acc) + length xs"
      using 1(2)[OF dd[symmetric] False] 1(7) False x y dB l by (simp only: m) simp
    then show ?thesis unfolding eq by (simp add: y(3) dval_Cons algebra_simps)
  qed
next
  case 2
  then show ?case by (auto simp: algebra_simps)
qed

lemma dval_dropWhile0: "dval (dropWhile (\<lambda>d. d = 0) ds) = dval ds"
  by (induction ds) (auto simp: dval_Cons)

lemma trim_zeros_val [simp]: "ds \<noteq> [] \<Longrightarrow> dval (trim_zeros ds) = dval ds"
proof (cases "dropWhile (\<lambda>d. d = 0) ds = []")
  case True
  assume "ds \<noteq> []"
  then obtain e es where ds: "ds = e # es" by (cases ds) auto
  have "dval ds = 0" using dval_dropWhile0 [of ds] by (simp only: True dval_Nil)
  moreover from True ds have "e = 0" by (auto split: if_splits)
  ultimately show ?thesis using True ds by (simp add: trim_zeros_def)
next
  case False
  then show ?thesis by (simp only: trim_zeros_def Let_def dval_dropWhile0 if_False)
qed

lemma trim_zeros_wf: "ds \<noteq> [] \<Longrightarrow> wf_digits ds \<Longrightarrow> wf_mag (trim_zeros ds)"
  using set_dropWhile_subset [of "\<lambda>d. d = 0" ds] hd_dropWhile_not [of "\<lambda>d. d = 0" ds]
  by (cases ds) (auto simp: trim_zeros_def wf_mag_def wf_digits_def Let_def)

lemma wf_bigintD: "wf_bigint b \<Longrightarrow> wf_digits (bdigits b)" "wf_bigint b \<Longrightarrow> bdigits b \<noteq> []"
  "wf_bigint b \<Longrightarrow> wf_mag (bdigits b)" "wf_bigint b \<Longrightarrow> bsign b = 1 \<or> bsign b = -1"
  by (auto simp: wf_bigint_def wf_mag_def)

lemma wf_bigint_flip: "wf_bigint b \<Longrightarrow> s = 1 \<or> s = -1 \<Longrightarrow> wf_bigint (b\<lparr>bsign := s\<rparr>)"
  by (auto simp: wf_bigint_def)

lemma sub_abs:
  assumes "wf_mag x" "wf_mag y" "dval y \<le> dval x"
  shows "dval (trim_zeros (sub_loop (rev x) (rev y) 0 [])) = dval x - dval y \<and>
         wf_mag (trim_zeros (sub_loop (rev x) (rev y) 0 []))"
proof -
  have len: "length y \<le> length x" using mag_mono [of x y] assms by fastforce
  have "dval (sub_loop (rev x) (rev y) 0 []) = dval x - dval y \<and>
      wf_digits (sub_loop (rev x) (rev y) 0 []) \<and> length (sub_loop (rev x) (rev y) 0 []) = length x"
    using sub_loop_val [of "rev x" "rev y" 0 "[]"] assms len by (simp add: wf_mag_def dval_def)
  moreover have "sub_loop (rev x) (rev y) 0 [] \<noteq> []"
    using calculation assms by (auto simp: wf_mag_def)
  ultimately show ?thesis by (simp add: trim_zeros_wf)
qed

lemma subBigint_same:
  assumes "wf_bigint x" "wf_bigint y" "bsign x = bsign y"
  shows "bval (subBigint x y) = bval x - bval y \<and> wf_bigint (subBigint x y)"
proof (cases "dval (bdigits y) < dval (bdigits x)")
  case True
  then show ?thesis using assms sub_abs [of "bdigits x" "bdigits y"]
    by (auto simp: subBigint.simps cmpAbsBigint_correct wf_bigint_def bval_def)
next
  case False
  then have "\<not> sgn (dval (bdigits x) - dval (bdigits y)) \<ge> 1" by (auto simp: sgn_if)
  with False show ?thesis using assms sub_abs [of "bdigits y" "bdigits x"]
    by (auto simp: subBigint.simps cmpAbsBigint_correct wf_bigint_def bval_def)
qed

lemma add_same:
  assumes "wf_mag x" "wf_mag y" "length y \<le> length x" "add_loop (rev x) (rev y) 0 [] = (c, ds)"
  shows "dval (if c = 0 then ds else c # ds) = dval x + dval y \<and> wf_mag (if c = 0 then ds else c # ds)"
proof -
  have v: "dval ds + c * BIGINT_BASE ^ length ds = dval x + dval y" "c = 0 \<or> c = 1" "wf_digits ds" "length ds = length x"
    using add_loop_val [of "rev x" "rev y" 0 "[]" c ds] assms by (auto simp: wf_mag_def dval_def)
  have "c = 0 \<Longrightarrow> length ds \<noteq> 1 \<Longrightarrow> hd ds \<noteq> 0"
  proof
    assume c: "c = 0" "length ds \<noteq> 1" "hd ds = 0"
    then obtain es where ds: "ds = 0 # es" using v assms by (cases ds) (auto simp: wf_mag_def)
    have "hd x * BIGINT_BASE ^ (length x - 1) \<le> dval x" using assms by (intro dval_ge_lead) (auto simp: wf_mag_def)
    moreover have "hd x \<ge> 1" using assms c v by (cases x) (auto simp: wf_mag_def)
    ultimately have "BIGINT_BASE ^ (length x - 1) \<le> dval x"
      using mult_right_mono [of 1 "hd x" "BIGINT_BASE ^ (length x - 1)"]
      by (metis base_pos(2) mult_1 order_trans zero_le_power)
    moreover have "dval ds < BIGINT_BASE ^ (length x - 1)" using dval_bounds [of es] v ds by (auto simp: dval_Cons simp flip: v(4))
    moreover have "0 \<le> dval y" using assms dval_bounds [of y] by (auto simp: wf_mag_def)
    ultimately show False using v c by simp
  qed
  then show ?thesis using v assms by (auto simp: wf_mag_def dval_Cons BIGINT_BASE_def)
qed

lemma addBigint_same:
  assumes "wf_bigint x" "wf_bigint y" "bsign x = bsign y"
  shows "bval (addBigint x y) = bval x + bval y \<and> wf_bigint (addBigint x y)"
proof (cases "length (bdigits x) < length (bdigits y)")
  case True
  obtain c ds where l: "add_loop (rev (bdigits y)) (rev (bdigits x)) 0 [] = (c, ds)" by fastforce
  show ?thesis using True l add_same [of "bdigits y" "bdigits x" c ds] assms
    by (auto simp: addBigint.simps wf_bigint_def bval_def algebra_simps split del: if_split)
next
  case False
  obtain c ds where l: "add_loop (rev (bdigits x)) (rev (bdigits y)) 0 [] = (c, ds)" by fastforce
  show ?thesis using False l add_same [of "bdigits x" "bdigits y" c ds] assms
    by (auto simp: addBigint.simps wf_bigint_def bval_def algebra_simps split del: if_split)
qed

lemma addBigint_correct:
  assumes "wf_bigint x" "wf_bigint y"
  shows "bval (addBigint x y) = bval x + bval y \<and> wf_bigint (addBigint x y)"
proof (cases "bsign x = bsign y")
  case False
  have s: "bsign y = - bsign x" using False assms by (auto simp: wf_bigint_def)
  have fx: "wf_bigint (y\<lparr>bsign := bsign x\<rparr>)" and fy: "wf_bigint (x\<lparr>bsign := bsign y\<rparr>)"
    using assms by (auto simp: wf_bigint_def)
  show ?thesis using False s subBigint_same [OF assms(1) fx] subBigint_same [OF assms(2) fy]
    by (simp add: addBigint.simps bval_def)
qed (use assms addBigint_same in blast)

lemma subBigint_correct:
  assumes "wf_bigint x" "wf_bigint y"
  shows "bval (subBigint x y) = bval x - bval y \<and> wf_bigint (subBigint x y)"
proof (cases "bsign x = bsign y")
  case False
  have s: "bsign y = - bsign x" using False assms by (auto simp: wf_bigint_def)
  have fx: "wf_bigint (y\<lparr>bsign := bsign x\<rparr>)"
    using assms by (auto simp: wf_bigint_def)
  have "subBigint x y = addBigint x (y\<lparr>bsign := bsign x\<rparr>)" using False by (simp add: subBigint.simps)
  then show ?thesis using s addBigint_same [OF assms(1) fx]
    by (simp add: bval_def)
qed (use assms subBigint_same in blast)

lemma dval_zero_iff: "wf_mag d \<Longrightarrow> dval d = 0 \<longleftrightarrow> length d = 1 \<and> d ! 0 = 0"
proof (cases "length d = 1")
  case True
  then show ?thesis by (cases d) auto
next
  case False
  assume d: "wf_mag d"
  then have "hd d > 0" using False by (cases d) (auto simp: wf_mag_def)
  then have "0 < hd d * BIGINT_BASE ^ (length d - 1)" by simp
  then show ?thesis using dval_ge_lead [of d] d False by (auto simp: wf_mag_def)
qed

lemma cmpBigint_correct:
  assumes "wf_bigint x" "wf_bigint y"
  shows "cmpBigint x y = sgn (bval x - bval y)"
proof -
  let ?a = "dval (bdigits x)" and ?b = "dval (bdigits y)"
  have nn: "0 \<le> ?a" "0 \<le> ?b" using assms dval_bounds by (auto simp: wf_bigintD)
  have eq: "cmpBigint x y = (if ?a = 0 \<and> ?b = 0 then 0 else if bsign x > bsign y then 1
      else if bsign x < bsign y then -1 else sgn (?a - ?b) * bsign x)"
    using assms by (auto simp: cmpBigint_def wf_bigintD dval_zero_iff cmpAbsBigint_correct)
  consider "bsign x = 1" "bsign y = 1" | "bsign x = 1" "bsign y = -1"
    | "bsign x = -1" "bsign y = 1" | "bsign x = -1" "bsign y = -1"
    using assms by (auto simp: wf_bigint_def)
  then show ?thesis using nn by cases (auto simp: eq bval_def sgn_if)
qed

lemma mul_digit_bounds:
  assumes "0 \<le> p" "p < BIGINT_BASE" "0 \<le> x" "x < BIGINT_BASE" "0 \<le> y" "y < BIGINT_BASE" "0 \<le> c" "c < BIGINT_BASE"
  shows "0 \<le> p + y * x + c" "(p + y * x + c) div BIGINT_BASE < BIGINT_BASE"
proof -
  show "0 \<le> p + y * x + c" using assms by simp
  have "y * x \<le> (BIGINT_BASE - 1) * (BIGINT_BASE - 1)" using assms by (intro mult_mono) auto
  then have "p + y * x + c < BIGINT_BASE * BIGINT_BASE" using assms by (simp add: algebra_simps)
  then show "(p + y * x + c) div BIGINT_BASE < BIGINT_BASE" by (rule div_less_if_less_mult) simp
qed

lemma mul_row_val:
  assumes "wf_digits ps" "wf_digits xs" "0 \<le> y" "y < BIGINT_BASE" "0 \<le> c" "c < BIGINT_BASE"
    "length xs < length ps" "ps ! length xs = 0"
  shows "lval (mul_row ps xs y c) = lval ps + y * lval xs + c \<and> wf_digits (mul_row ps xs y c) \<and>
         length (mul_row ps xs y c) = length ps \<and> drop (Suc (length xs)) (mul_row ps xs y c) = drop (Suc (length xs)) ps"
  using assms
proof (induction ps xs y c rule: mul_row.induct)
  case (1 p ps x xs y c)
  let ?d = "p + y * x + c"
  have b: "0 \<le> ?d" "?d div BIGINT_BASE < BIGINT_BASE"
    using mul_digit_bounds [of p x y c] 1 by auto
  then have "0 \<le> ?d div BIGINT_BASE" by (simp add: pos_imp_zdiv_nonneg_iff)
  note b = b this
  from 1 b have IH: "lval (mul_row ps xs y (?d div BIGINT_BASE)) = lval ps + y * lval xs + ?d div BIGINT_BASE \<and> 
      wf_digits (mul_row ps xs y (?d div BIGINT_BASE)) \<and>
      length (mul_row ps xs y (?d div BIGINT_BASE)) = length ps \<and>
      drop (Suc (length xs)) (mul_row ps xs y (?d div BIGINT_BASE)) = drop (Suc (length xs)) ps"
    by (auto simp: c_arith)
  have e: "?d mod BIGINT_BASE + BIGINT_BASE * (?d div BIGINT_BASE) = ?d" by simp
  have "lval (mul_row (p # ps) (x # xs) y c) =
      ?d mod BIGINT_BASE + BIGINT_BASE * (?d div BIGINT_BASE) + BIGINT_BASE * (lval ps + y * lval xs)"
    using IH b by (simp add: c_arith Let_def distrib_left)
  also have "\<dots> = lval (p # ps) + y * lval (x # xs) + c" by (simp only: e) (simp add: algebra_simps)
  finally show ?case using IH b by (simp add: c_arith Let_def)
next
  case (2 p ps y c)
  then show ?case by (auto simp: c_arith)
qed auto

lemma mul_rows_val:
  assumes "wf_digits ps" "wf_digits xs" "wf_digits ys" "length ps = length xs + length ys"
     "\<forall>p\<in>set (drop (length xs) ps). p = 0"
  shows "lval (mul_rows ps xs ys) = lval ps + lval xs * lval ys \<and> wf_digits (mul_rows ps xs ys) \<and>
         length (mul_rows ps xs ys) = length ps"
  using assms
proof (induction ps xs ys rule: mul_rows.induct)
  case (2 ps xs y ys)
  have "length xs < length ps" using 2 by simp
  then have "ps ! length xs \<in> set (drop (length xs) ps)" 
    by (metis Cons_nth_drop_Suc list.set_intros(1))
  then have z: "ps ! length xs = 0" using 2 by auto
  have r: "lval (mul_row ps xs y 0) = lval ps + y * lval xs" "wf_digits (mul_row ps xs y 0)"
    "length (mul_row ps xs y 0) = length ps" "drop (Suc (length xs)) (mul_row ps xs y 0) = drop (Suc (length xs)) ps"
    using mul_row_val [of ps xs y 0] 2 z by auto
  then obtain q qs where q: "mul_row ps xs y 0 = q # qs" using 2 by (cases "mul_row ps xs y 0") auto
  have "set (drop (length xs) qs) \<subseteq> set (drop (length xs) ps)"
    using r(4) q by (simp add: set_drop_subset_set_drop)
  then have "lval (mul_rows qs xs ys) = lval qs + lval xs * lval ys \<and> wf_digits (mul_rows qs xs ys) \<and>
         length (mul_rows qs xs ys) = length qs"
    using 2 q r by (intro "2.IH") auto
  then show ?case using q r 2 by (auto simp: algebra_simps)
qed auto

lemma mulBigint_correct:
  assumes "wf_bigint x" "wf_bigint y"
  shows "bval (mulBigint x y) = bval x * bval y \<and> wf_bigint (mulBigint x y)"
proof -
  let ?x = "bdigits x" and ?y = "bdigits y"
  let ?p = "mul_rows (replicate (length ?x + length ?y) 0) (rev ?x) (rev ?y)"
  have z: "lval (replicate n 0) = 0" "wf_digits (replicate n 0)" for n by (induction n) auto
  have p: "lval ?p = dval ?x * dval ?y" "wf_digits ?p" "length ?p = length ?x + length ?y"
    using mul_rows_val [of "replicate (length ?x + length ?y) 0" "rev ?x" "rev ?y"] assms z
    by (auto simp: wf_bigintD dval_def)
  then have ne: "rev ?p \<noteq> []" using assms by (auto simp: wf_bigintD)
  then have "dval (trim_zeros (rev ?p)) = dval ?x * dval ?y" "wf_mag (trim_zeros (rev ?p))"
    using p(1) trim_zeros_wf [OF ne] p(2) by (simp_all add: dval_def [of "rev ?p"])
  then show ?thesis using assms by (auto simp: mulBigint_def Let_def bval_def wf_bigint_def)
qed

interpretation bigs: integer_ops wf_bigint bval addBigint subBigint mulBigint cmpBigint
  by unfold_locales (simp_all add: addBigint_correct subBigint_correct mulBigint_correct cmpBigint_correct)

section \<open>The ring of big integers\<close>

text \<open>(C10) Addition, subtraction and multiplication of well-formed big integers are exact
  and give well-formed results: digits below the base, no leading zero, sign 1 or -1. The
  comparison returns the sign of the difference.\<close>

theorem bigint_ring:
  assumes "wf_bigint x" "wf_bigint y"
  shows "bval (addBigint x y) = bval x + bval y \<and> wf_bigint (addBigint x y) \<and>
    bval (subBigint x y) = bval x - bval y \<and> wf_bigint (subBigint x y) \<and>
    bval (mulBigint x y) = bval x * bval y \<and> wf_bigint (mulBigint x y) \<and>
    cmpBigint x y = sgn (bval x - bval y)"
  using bigs.add_law [OF assms] bigs.sub_law [OF assms] bigs.mul_law [OF assms] bigs.cmp_law [OF assms]
  by blast

theorem bigint_ring_witness:
  "bval (addBigint \<lparr>bsign = 1, bdigits = [1, 0]\<rparr> \<lparr>bsign = -1, bdigits = [999999999]\<rparr>) = 1 \<and>
   bval (mulBigint \<lparr>bsign = 1, bdigits = [1, 0]\<rparr> \<lparr>bsign = -1, bdigits = [999999999]\<rparr>) = -999999999000000000 \<and>
   cmpBigint \<lparr>bsign = 1, bdigits = [1, 0]\<rparr> \<lparr>bsign = -1, bdigits = [999999999]\<rparr> = 1"
  using bigint_ring [of "\<lparr>bsign = 1, bdigits = [1, 0]\<rparr>" "\<lparr>bsign = -1, bdigits = [999999999]\<rparr>"]
  by (simp add: wf_bigint_def wf_mag_def bval_def dval_def BIGINT_BASE_def)

end
