(* ===== verification/NL_BigDiv.thy ===== *)
theory NL_BigDiv
  imports NL_Bigint Complex_Main
begin

text \<open>
  Division and remainder of big integers (\<^verbatim>\<open>divModBigint\<close> of
  \<^verbatim>\<open>nl-math.c\<close>): schoolbook long division whose quotient digits are guessed from the
  leading digits in double arithmetic and corrected downwards by comparing products. The
  rounding of doubles is the parameter \<open>fl\<close>; the theorems hold for every rounding that has
  the properties of IEEE 754 collected in \<open>ieee_double\<close>. A result \<open>None\<close> would mean that
  the correction loop does not return.
\<close>

section \<open>Division\<close>

text \<open>Double arithmetic enters through the rounding \<open>fl\<close> that follows every operation;
  what the code relies on is IEEE 754's round-to-nearest.\<close>

definition ieee_double :: "(rat \<Rightarrow> rat) \<Rightarrow> bool" where
  "ieee_double fl \<longleftrightarrow>
     (\<forall>a b. a \<le> b \<longrightarrow> fl a \<le> fl b) \<and>
     (\<forall>(m::int) (k::nat). \<bar>m\<bar> \<le> 2 ^ 53 \<and> k \<le> 100 \<longrightarrow> fl (of_int (m * 2 ^ k)) = of_int (m * 2 ^ k)) \<and>
     (\<forall>a. 1 \<le> \<bar>a\<bar> \<and> \<bar>a\<bar> \<le> 2 ^ 100 \<longrightarrow> \<bar>fl a - a\<bar> \<le> \<bar>a\<bar> / 2 ^ 53)"

fun abs_float_loop :: "(rat \<Rightarrow> rat) \<Rightarrow> rat \<Rightarrow> int list \<Rightarrow> rat" where
  "abs_float_loop fl v [] = v"
| "abs_float_loop fl v (d # ds) =
     abs_float_loop fl (fl (fl (v * of_int BIGINT_BASE) + of_int d)) ds"

definition bigintToAbsFloat :: "(rat \<Rightarrow> rat) \<Rightarrow> int list \<Rightarrow> nat \<Rightarrow> rat" where
  "bigintToAbsFloat fl num n =
     (case num of [] \<Rightarrow> 0 | d # ds \<Rightarrow> abs_float_loop fl (of_int d) (take (n - 1) ds))"

fun product_loop :: "int list \<Rightarrow> int \<Rightarrow> int \<Rightarrow> int list \<Rightarrow> int \<times> int list" where
  "product_loop (y # ys) q carry acc =
     (let digit = y * q + carry
      in if digit \<ge> BIGINT_BASE
         then product_loop ys q (digit sdiv BIGINT_BASE) (digit smod BIGINT_BASE # acc)
         else product_loop ys q 0 (digit # acc))"
| "product_loop [] q carry acc = (carry, acc)"

definition div_product :: "int list \<Rightarrow> int \<Rightarrow> int list" where
  "div_product y q =
     (let (carry, p) = product_loop (rev y) q 0 [] in if carry \<noteq> 0 then carry # p else p)"

partial_function (option) div_estimate ::
  "int list \<Rightarrow> int list \<Rightarrow> int \<Rightarrow> (int \<times> int list) option" where
  "div_estimate r y q =
     (let p = div_product y q
      in if cmpAbsBigint r p < 0 then div_estimate r y (q - 1) else Some (q, p))"

definition div_step ::
  "(rat \<Rightarrow> rat) \<Rightarrow> int list \<Rightarrow> rat \<Rightarrow> bool \<Rightarrow> int list \<times> int list \<Rightarrow> int \<Rightarrow>
     (int list \<times> int list) option" where
  "div_step fl y yFloat unfinished s xi =
     (let r = fst s @ [xi]; q = snd s
      in if q = [] \<and> cmpAbsBigint r y < 0 then Some (r, q)
         else
           let n = (if length y > 2 then length r + 2 - length y else length r);
               rFloat = bigintToAbsFloat fl r n
           in case (if yFloat > rFloat then Some (0, r)
                    else map_option (\<lambda>(qd, p). (qd, sub_loop (rev r) (rev p) 0 []))
                           (div_estimate r y
                             (if yFloat = rFloat then 1 else \<lfloor>fl (fl (rFloat / yFloat) + 1)\<rfloor>))) of
                None \<Rightarrow> None
              | Some (qd, r1) \<Rightarrow>
                  let r2 = (if hd r1 = 0 then trim_zeros r1 else r1)
                  in Some (if hd r2 = 0 \<and> unfinished then [] else r2, q @ [qd]))"

fun div_loop ::
  "(rat \<Rightarrow> rat) \<Rightarrow> int list \<Rightarrow> rat \<Rightarrow> int list \<times> int list \<Rightarrow> int list \<Rightarrow>
     (int list \<times> int list) option" where
  "div_loop fl y yFloat s [] = Some s"
| "div_loop fl y yFloat s (x # xs) =
     (case div_step fl y yFloat (xs \<noteq> []) s x of
        None \<Rightarrow> None
      | Some s' \<Rightarrow> div_loop fl y yFloat s' xs)"

definition divModBigint ::
  "(rat \<Rightarrow> rat) \<Rightarrow> bigint \<Rightarrow> bigint \<Rightarrow> bool \<Rightarrow> (bigint result) option" where
  "divModBigint fl x y rmndr =
     (if hd (bdigits y) = 0 \<and> length (bdigits y) = 1 then Some (Inl ERR_MATH)
      else if cmpAbsBigint (bdigits x) (bdigits y) < 0
      then Some (Inr (if rmndr then x else \<lparr>bsign = 1, bdigits = [0]\<rparr>))
      else
        let ny = length (bdigits y);
            yFloat = bigintToAbsFloat fl (bdigits y) (if ny > 2 then 2 else ny)
        in case div_loop fl (bdigits y) yFloat ([], []) (bdigits x) of
             None \<Rightarrow> None
           | Some (r, q) \<Rightarrow>
               Some (Inr (if rmndr then \<lparr>bsign = bsign x, bdigits = r\<rparr>
                          else \<lparr>bsign = bsign x * bsign y, bdigits = q\<rparr>)))"


lemma lead_digit_less:
  fixes a b u v B :: int
  assumes "0 \<le> u" "u < B" "0 \<le> v" "v < B" "b > a"
  shows "b * B + u > a * B + v"
proof -
  have "(a + 1) * B \<le> b * B" using assms by (intro mult_right_mono) auto
  then show ?thesis using assms by (simp add: algebra_simps)
qed

lemma cmp_digits_lead:
  assumes "length xs = length ys" "wf_digits (tl xs)" "wf_digits (tl ys)"
  shows "cmp_digits xs ys = sgn (dval xs - dval ys)"
proof (cases xs)
  case (Cons x xs')
  then obtain y ys' where ys: "ys = y # ys'" using assms by (cases ys) auto
  have l: "length xs' = length ys'" using assms Cons ys by simp
  have b: "0 \<le> dval xs'" "dval xs' < BIGINT_BASE ^ length ys'" "0 \<le> dval ys'" "dval ys' < BIGINT_BASE ^ length ys'"
    using assms Cons ys dval_bounds [of xs'] dval_bounds [of ys'] by auto
  have e: "cmp_digits xs' ys' = sgn (dval xs' - dval ys')"
    using assms Cons ys l by (intro cmp_digits_correct) auto
  show ?thesis using lead_digit_less [OF b(1,2,3,4), of y x] lead_digit_less [OF b(3,4,1,2), of x y] e Cons ys l
    by (auto simp: dval_Cons)
qed (use assms in auto)

lemma product_loop_val:
  assumes "wf_digits ys" "0 \<le> q" "0 \<le> carry" "carry \<le> q" "wf_digits acc"
    and "product_loop ys q carry acc = (c, ds)"
  shows "dval ds + c * BIGINT_BASE ^ length ds =
          dval acc + BIGINT_BASE ^ length acc * (lval ys * q + carry) \<and>
         0 \<le> c \<and> wf_digits ds \<and> length ds = length acc + length ys"
  using assms
proof (induction ys q carry acc rule: product_loop.induct)
  case (1 y ys q carry acc)
  let ?d = "y * q + carry"
  have "y * q \<le> (BIGINT_BASE - 1) * q" using 1 by (intro mult_right_mono) auto
  then have "?d \<le> BIGINT_BASE * q" using 1 by (simp add: algebra_simps)
  then have "?d div BIGINT_BASE \<le> BIGINT_BASE * q div BIGINT_BASE" by (intro zdiv_mono1) auto
  then have q: "?d div BIGINT_BASE \<le> q" by simp
  have d: "0 \<le> ?d" using 1 by auto
  then have d0: "0 \<le> ?d div BIGINT_BASE" by (simp add: pos_imp_zdiv_nonneg_iff)
  have small: "?d < BIGINT_BASE \<Longrightarrow> ?d div BIGINT_BASE = 0 \<and> ?d mod BIGINT_BASE = ?d" using d by auto
  have "dval ds + c * BIGINT_BASE ^ length ds =
      dval (?d mod BIGINT_BASE # acc) + BIGINT_BASE ^ Suc (length acc) * (lval ys * q + ?d div BIGINT_BASE) \<and>
     0 \<le> c \<and> wf_digits ds \<and> length ds = Suc (length acc) + length ys"
  proof (cases "?d \<ge> BIGINT_BASE")
    case True
    then show ?thesis using "1.IH"(1) "1.prems" q d d0 by (auto simp: c_arith Let_def)
  next
    case False
    then show ?thesis using "1.IH"(2) "1.prems" q d d0 small by (auto simp: c_arith Let_def)
  qed
  then show ?case by (simp only: carry_step) (auto simp: algebra_simps)
next
  case 2
  then show ?case by (auto simp: algebra_simps)
qed

lemma div_product_val:
  assumes "wf_digits y" "0 \<le> q"
  obtains c p where "div_product y q = (if c \<noteq> 0 then c # p else p)" "0 \<le> c" "wf_digits p" "length p = length y"
    "dval (div_product y q) = q * dval y"
proof -
  obtain c p where cp: "product_loop (rev y) q 0 [] = (c, p)" by fastforce
  have v: "dval p + c * BIGINT_BASE ^ length p = dval y * q \<and> 0 \<le> c \<and> wf_digits p \<and> length p = length y"
    using product_loop_val [OF _ _ _ _ _ cp] assms by (auto simp: dval_def)
  show ?thesis
    by (rule that [of c p]) (use v cp in \<open>auto simp: div_product_def dval_Cons mult.commute add.commute\<close>)
qed

lemma div_product_cmp:
  assumes r: "wf_mag r" and y: "wf_mag y" and len: "length r = length y \<or> length r = Suc (length y)" and q: "0 \<le> q"
  shows "cmpAbsBigint r (div_product y q) = sgn (dval r - q * dval y)"
    "q * dval y \<le> dval r \<Longrightarrow> wf_digits (div_product y q) \<and> length (div_product y q) \<le> length r"
proof -
  obtain c p where p: "div_product y q = (if c \<noteq> 0 then c # p else p)" "0 \<le> c" "wf_digits p" "length p = length y"
    "dval (div_product y q) = q * dval y" using div_product_val [of y q] y q by (auto simp: wf_mag_def)
  let ?P = "BIGINT_BASE ^ length y"
  have P: "?P > 0" by simp
  have rb: "0 \<le> dval r" "dval r < BIGINT_BASE ^ length r" using r dval_bounds by (auto simp: wf_mag_def)
  have pb: "0 \<le> dval p" "dval p < ?P" using p dval_bounds [of p] by auto
  have hi: "c \<noteq> 0 \<Longrightarrow> c * ?P \<le> q * dval y" using p pb by (simp add: dval_Cons)
  have hi1: "c \<noteq> 0 \<Longrightarrow> ?P \<le> q * dval y"
  proof -
    assume c: "c \<noteq> 0"
    then have "1 * ?P \<le> c * ?P" using p(2) by (intro mult_right_mono) auto
    with hi [OF c] show ?thesis by (simp only: mult_1)
  qed
  have lo: "length r = Suc (length y) \<Longrightarrow> ?P \<le> dval r"
  proof -
    assume l: "length r = Suc (length y)"
    then have h: "hd r \<ge> 1" using r y by (cases r) (auto simp: wf_mag_def)
    then have "1 * ?P \<le> hd r * ?P" by (intro mult_right_mono) auto
    also have "\<dots> \<le> dval r" using dval_ge_lead [of r] r l by (auto simp: wf_mag_def)
    finally show ?thesis by simp
  qed
  show "cmpAbsBigint r (div_product y q) = sgn (dval r - q * dval y)"
  proof (cases "length r = length (div_product y q)")
    case True
    have "wf_digits (tl (div_product y q))" "wf_digits (tl r)"
      using p(1,3) r by (cases p; cases r; auto simp: wf_mag_def)+
    then show ?thesis using True p(5) cmp_digits_lead [of r "div_product y q"]
      by (simp add: cmpAbsBigint_def)
  next
    case False
    then show ?thesis using len p lo hi1 rb pb by (auto simp: cmpAbsBigint_def split: if_splits)
  qed
  assume le: "q * dval y \<le> dval r"
  have cB: "c < BIGINT_BASE" if "c \<noteq> 0"
  proof -
    have "c * ?P < BIGINT_BASE ^ length r" using hi that le rb by linarith
    also have "\<dots> \<le> BIGINT_BASE * ?P" using len power_increasing [of "length r" "Suc (length y)" BIGINT_BASE] 
      by (auto simp: BIGINT_BASE_def)
    finally show ?thesis using P mult_less_cancel_right_pos by blast
  qed
  have "c \<noteq> 0 \<Longrightarrow> length r = Suc (length y)" using hi1 le rb len by fastforce
  then show "wf_digits (div_product y q) \<and> length (div_product y q) \<le> length r"
    using p cB len by auto
qed

lemma div_estimate_returns:
  assumes "wf_mag r" "wf_mag y" "length r = length y \<or> length r = Suc (length y)" "0 < dval y"
    "dval r div dval y \<le> q"
  shows "\<exists>p. div_estimate r y q = Some (dval r div dval y, p) \<and> dval p = (dval r div dval y) * dval y \<and>
     wf_digits p \<and> length p \<le> length r"
  using assms(5)
proof (induction "nat (q - dval r div dval y)" arbitrary: q)
  case 0
  let ?t = "dval r div dval y"
  have t: "0 \<le> ?t" "?t * dval y \<le> dval r"
    using assms dval_bounds [of r] by (auto simp: wf_mag_def pos_imp_zdiv_nonneg_iff simp flip: minus_mod_eq_div_mult)
  have v: "dval (div_product y ?t) = ?t * dval y"
    using div_product_val [of y ?t] assms t by (metis wf_mag_def)
  have q: "q = ?t" using 0 by simp
  have "\<not> cmpAbsBigint r (div_product y ?t) < 0"
    unfolding div_product_cmp(1) [OF assms(1-3) t(1)] using t(2) by (simp add: sgn_if)
  then have "div_estimate r y q = Some (?t, div_product y ?t)"
    unfolding q by (subst div_estimate.simps) (simp add: Let_def)
  then show ?case using v div_product_cmp(2) [OF assms(1-3) t(1) t(2)] by blast
next
  case (Suc n)
  let ?t = "dval r div dval y"
  have t: "0 \<le> ?t" using assms dval_bounds [of r] by (auto simp: wf_mag_def pos_imp_zdiv_nonneg_iff)
  have q: "?t + 1 \<le> q" "0 \<le> q" using Suc t by auto
  have "dval r < (?t + 1) * dval y" using assms(4) 
    by (metis add.commute mult.commute mult_div_mod_eq pos_mod_bound distrib_left mult.right_neutral add_strict_right_mono)
  also have "\<dots> \<le> q * dval y" using q assms by (intro mult_right_mono) auto
  finally have "cmpAbsBigint r (div_product y q) < 0" using div_product_cmp(1) [OF assms(1-3) q(2)] by simp
  then have "div_estimate r y q = div_estimate r y (q - 1)" by (subst div_estimate.simps) (simp add: Let_def)
  then show ?case using Suc(1) [of "q - 1"] Suc(2) q by simp
qed

section \<open>The estimate is never too small\<close>

definition roundoff :: rat where "roundoff = 1 / 2 ^ 53"

lemma ieee_mono: "ieee_double fl \<Longrightarrow> a \<le> b \<Longrightarrow> fl a \<le> fl b"
  by (simp add: ieee_double_def)

lemma ieee_exact: "ieee_double fl \<Longrightarrow> \<bar>m\<bar> \<le> 2 ^ 53 \<Longrightarrow> k \<le> 100 \<Longrightarrow> fl (of_int (m * 2 ^ k)) = of_int (m * 2 ^ k)"
  unfolding ieee_double_def by blast

lemma ieee_int: "ieee_double fl \<Longrightarrow> \<bar>m\<bar> \<le> 2 ^ 53 \<Longrightarrow> fl (of_int m) = of_int m"
  using ieee_exact [of fl m 0] by simp

lemma ieee_err: assumes "ieee_double fl" "1 \<le> a" "a \<le> 2 ^ 100"
  shows "a * (1 - roundoff) \<le> fl a" "fl a \<le> a * (1 + roundoff)" "1 \<le> fl a"
proof -
  have "1 \<le> \<bar>a\<bar> \<and> \<bar>a\<bar> \<le> 2 ^ 100" using assms(2,3) by simp
  then have "\<bar>fl a - a\<bar> \<le> \<bar>a\<bar> / 2 ^ 53" using assms(1) unfolding ieee_double_def by blast
  then have "\<bar>fl a - a\<bar> \<le> a * roundoff" using assms by (simp add: roundoff_def)
  then show "a * (1 - roundoff) \<le> fl a" "fl a \<le> a * (1 + roundoff)" by (auto simp: algebra_simps abs_le_iff)
  show "1 \<le> fl a" using ieee_mono [OF assms(1,2)] ieee_int [OF assms(1), of 1] by simp
qed

text \<open>Two digits: the product with the base is exact, so the value is rounded once.\<close>
lemma float_lead_exact:
  assumes "ieee_double fl" "0 \<le> d" "d < BIGINT_BASE"
  shows "fl (of_int d * of_int BIGINT_BASE) = of_int (d * BIGINT_BASE)"
proof -
  have "fl (of_int ((d * 1953125) * 2 ^ 9)) = of_int ((d * 1953125) * 2 ^ 9)"
    using assms by (intro ieee_exact) (auto simp: BIGINT_BASE_def)
  then show ?thesis by (simp add: BIGINT_BASE_def mult.commute)
qed

lemma float_base:
  assumes "ieee_double fl" 
  shows "fl (of_int BIGINT_BASE) = of_int BIGINT_BASE" "fl (of_int (BIGINT_BASE ^ 2)) = of_int (BIGINT_BASE ^ 2)"
  using ieee_int [OF assms, of BIGINT_BASE] ieee_exact [OF assms, of "3814697265625" 18]
  by (simp_all add: BIGINT_BASE_def)

lemma float_one: "bigintToAbsFloat fl (d # ds) n = of_int d" if "n \<le> 1"
  using that by (simp add: bigintToAbsFloat_def)

lemma float_two:
  assumes "ieee_double fl" "0 \<le> d" "d < BIGINT_BASE"
  shows "bigintToAbsFloat fl (d # e # ds) 2 = fl (of_int (dval [d, e]))"
  using float_lead_exact [OF assms] by (simp add: bigintToAbsFloat_def numeral_2_eq_2 dval_Cons)

lemma float_three:
  assumes "ieee_double fl" "0 \<le> d" "d < BIGINT_BASE"
  shows "bigintToAbsFloat fl (d # e # f # ds) 3 = fl (fl (fl (of_int (dval [d, e])) * of_int BIGINT_BASE) + of_int f)"
  using float_lead_exact [OF assms] by (simp add: bigintToAbsFloat_def numeral_3_eq_3 dval_Cons)

text \<open>The error of the leading part: at most three roundings.\<close>
lemma float_three_err:
  fixes ds :: "int list"
  assumes fl: "ieee_double fl" and d: "0 < d" "wf_digits [d, e, f]"
  defines "v \<equiv> bigintToAbsFloat fl (d # e # f # ds) 3"
  shows "of_int (dval [d, e, f]) * (1 - roundoff) ^ 3 \<le> v" "of_int (BIGINT_BASE ^ 2) \<le> v" "v \<le> 2 ^ 99"
proof -
  let ?w = "fl (of_int (dval [d, e]))" and ?B = "of_int BIGINT_BASE :: rat"
  have B: "?B = 1000000000" by (simp add: BIGINT_BASE_def)
  have "1 * BIGINT_BASE \<le> d * BIGINT_BASE" using d by (intro mult_right_mono) auto
  moreover have e: "dval [d, e] = d * BIGINT_BASE + e" "0 \<le> e" using d by (simp_all add: dval_Cons)
  ultimately have dv: "dval [d, e] \<ge> BIGINT_BASE" by linarith
  have dv2: "dval [d, e] < BIGINT_BASE ^ 2"
    using d(2) dval_bounds [of "[d, e]"] by (simp add: power2_eq_square)
  note dv = dv dv2
  have "(of_int (dval [d, e]) :: rat) \<le> of_int (BIGINT_BASE ^ 2)" using dv by (simp only: of_int_le_iff)
  then have hi: "of_int (dval [d, e]) \<le> (10 ^ 18 :: rat)" by (simp add: BIGINT_BASE_def)
  have w1: "of_int (dval [d, e]) * (1 - roundoff) \<le> ?w" "?w \<le> of_int (dval [d, e]) * (1 + roundoff)"
    using ieee_err [OF fl, of "of_int (dval [d, e])"] dv hi by (auto simp: BIGINT_BASE_def)
  have wB: "?B \<le> ?w" using ieee_mono [OF fl, of ?B "of_int (dval [d, e])"] float_base [OF fl] dv by simp
  have u1: "roundoff \<le> 1" "0 \<le> roundoff" by (simp_all add: roundoff_def)
  have whi: "?w \<le> 2 * 10 ^ 18" using w1(2) mult_mono [OF hi, of "1 + roundoff" 2] u1 by simp
  let ?x = "fl (?w * ?B)"
  have x1: "?w * ?B * (1 - roundoff) \<le> ?x" "?x \<le> ?w * ?B * (1 + roundoff)"
    using ieee_err [OF fl, of "?w * ?B"] wB whi by (auto simp: B)
  have wBB: "?B * ?B \<le> ?w * ?B" using wB by (intro mult_right_mono) (auto simp: B)
  then have xB: "of_int (BIGINT_BASE ^ 2) \<le> ?x"
    using ieee_mono [OF fl, of "?B * ?B" "?w * ?B"] float_base(2) [OF fl] by (simp add: power2_eq_square)
  have "?w * ?B * (1 + roundoff) \<le> 2 * 10 ^ 27 * 2"
    by (rule mult_mono) (use whi wB u1 in \<open>auto simp: B\<close>)
  with x1(2) have xhi: "?x \<le> 4 * 10 ^ 27" by simp
  have f: "0 \<le> (of_int f :: rat)" "(of_int f :: rat) \<le> 10 ^ 9" using d by (auto simp: BIGINT_BASE_def)
  have veq: "v = fl (?x + of_int f)" using float_three [OF fl, of d e f ds] d by (simp add: v_def)
  have x1': "1 \<le> ?x + of_int f" using xB f by (simp add: BIGINT_BASE_def)
  have v1: "(?x + of_int f) * (1 - roundoff) \<le> v" "v \<le> (?x + of_int f) * (1 + roundoff)"
    unfolding veq using x1' xhi f by (auto intro!: ieee_err [OF fl])
  show "of_int (BIGINT_BASE ^ 2) \<le> v" 
    unfolding veq using ieee_mono [OF fl, of "of_int (BIGINT_BASE ^ 2)" "?x + of_int f"] float_base(2) [OF fl] xB f by simp
  have "(?x + of_int f) * (1 + roundoff) \<le> 5 * 10 ^ 27 * 2"
    by (rule mult_mono) (use xhi f u1 x1' in auto)
  with v1(2) show "v \<le> 2 ^ 99" by simp
  have "of_int (dval [d, e, f]) * (1 - roundoff) ^ 3 =
      ((of_int (dval [d, e]) * (1 - roundoff) * ?B) * (1 - roundoff) + of_int f * (1 - roundoff)^2) * (1 - roundoff)"
    by (simp add: dval_Cons power2_eq_square power3_eq_cube algebra_simps)
  also have "\<dots> \<le> (?w * ?B * (1 - roundoff) + of_int f) * (1 - roundoff)"
  proof -
    have "of_int (dval [d, e]) * (1 - roundoff) * ?B \<le> ?w * ?B" using w1 by (intro mult_right_mono) (auto simp: B)
    then have "(of_int (dval [d, e]) * (1 - roundoff) * ?B) * (1 - roundoff) \<le> ?w * ?B * (1 - roundoff)" 
      using u1 by (intro mult_right_mono) auto
    moreover have "of_int f * (1 - roundoff)^2 \<le> of_int f * 1" using u1 f by (intro mult_left_mono power_le_one) auto
    ultimately show ?thesis using u1 by (intro mult_right_mono) auto
  qed
  also have "\<dots> \<le> (?x + of_int f) * (1 - roundoff)" using x1 u1 by (intro mult_right_mono) auto
  also have "\<dots> \<le> v" by (rule v1)
  finally show "of_int (dval [d, e, f]) * (1 - roundoff) ^ 3 \<le> v" .
qed

lemma take_dval: "length ds = n + k \<Longrightarrow> dval ds = dval (take n ds) * BIGINT_BASE ^ k + dval (drop n ds)"
  using dval_append [of "take n ds" "drop n ds"] by simp

lemma wf_take_drop: "wf_digits ds \<Longrightarrow> wf_digits (take n ds)" "wf_digits ds \<Longrightarrow> wf_digits (drop n ds)"
  by (auto simp: wf_digits_def dest: in_set_takeD in_set_dropD)

text \<open>Quotients of leading parts bound the quotient.\<close>
lemma lead_quotient:
  fixes r y R Y P :: int
  assumes "r = R * P + r'" "0 \<le> r'" "r' < P" "y = Y * P + y'" "0 \<le> y'" "y' < P" "0 < P" "0 \<le> t" "t * y \<le> r"
  shows "t * Y \<le> R"
proof -
  have "t * Y * P \<le> t * y" using assms by (simp add: algebra_simps)
  also have "\<dots> < (R + 1) * P" using assms by (simp add: algebra_simps)
  finally have "t * Y < R + 1" using assms mult_less_cancel_right_pos by blast
  then show ?thesis by simp
qed

lemma float_le_two:
  assumes "ieee_double fl" "wf_digits ds" "length ds = 1 \<or> length ds = 2"
  shows "bigintToAbsFloat fl (ds @ rest) (length ds) = fl (of_int (dval ds))"
proof (cases "length ds = 1")
  case True
  then obtain d where d: "ds = [d]" by (cases ds) auto
  then have "fl (of_int d) = of_int d" using assms by (intro ieee_int) (auto simp: BIGINT_BASE_def)
  then show ?thesis using d by (simp add: bigintToAbsFloat_def)
next
  case False
  then obtain d e where d: "ds = [d, e]" using assms by (cases ds; cases "tl ds") auto
  show ?thesis using assms d float_two [of fl d e rest] by (simp add: numeral_2_eq_2)
qed

lemma roundoff_bounds: "0 < roundoff" "roundoff \<le> 1 / 10 ^ 15" "roundoff < 1"
  by (simp_all add: roundoff_def)

lemma float_lead_lower:
  fixes rest :: "int list"
  assumes fl: "ieee_double fl" and ds: "wf_digits ds" "hd ds \<noteq> 0" "length ds \<in> {1, 2, 3}"
  defines "v \<equiv> bigintToAbsFloat fl (ds @ rest) (length ds)"
  shows "of_int (dval ds) * (1 - roundoff) ^ 3 \<le> v" "1 \<le> v" "v \<le> 2 ^ 99"
     "of_int (BIGINT_BASE ^ (length ds - 1)) \<le> v"
proof -
  have hd1: "hd ds \<ge> 1" using ds by (cases ds) auto
  have u: "0 < roundoff" "roundoff < 1" using roundoff_bounds by auto
  have P1: "1 \<le> (of_int (BIGINT_BASE ^ (length ds - 1)) :: rat)"
    by (simp add: one_le_power BIGINT_BASE_def)
  have lead: "BIGINT_BASE ^ (length ds - 1) \<le> dval ds"
  proof -
    have "1 * BIGINT_BASE ^ (length ds - 1) \<le> hd ds * BIGINT_BASE ^ (length ds - 1)"
      using hd1 by (intro mult_right_mono) auto
    also have "\<dots> \<le> dval ds" using ds by (intro dval_ge_lead) auto
    finally show ?thesis by simp
  qed
  have all: "of_int (dval ds) * (1 - roundoff) ^ 3 \<le> v \<and> v \<le> 2 ^ 99 \<and> of_int (BIGINT_BASE ^ (length ds - 1)) \<le> v"
  proof (cases "length ds = 3")
    case True
    then obtain d e f where d: "ds = [d, e, f]" by (cases ds; cases "tl ds"; cases "tl (tl ds)") auto
    then show ?thesis using float_three_err [OF fl, of d e f rest] ds by (simp add: v_def numeral_3_eq_3 numeral_2_eq_2)
  next
    case False
    then have v: "v = fl (of_int (dval ds))" using float_le_two [OF fl ds(1), of rest] ds(3) by (auto simp: v_def)
    have "dval ds < BIGINT_BASE ^ 2"
      using dval_bounds [OF ds(1)] power_increasing [of "length ds" 2 BIGINT_BASE] ds(3) False by (auto simp: BIGINT_BASE_def)
    then have "(of_int (dval ds) :: rat) \<le> of_int (BIGINT_BASE ^ 2)" by (simp only: of_int_le_iff)
    then have hi: "(of_int (dval ds) :: rat) \<le> 10 ^ 18" by (simp add: BIGINT_BASE_def)
    have D1: "1 \<le> (of_int (dval ds) :: rat)" using lead P1 by (meson of_int_le_iff order_trans)
    have e: "of_int (dval ds) * (1 - roundoff) \<le> v" "v \<le> of_int (dval ds) * (1 + roundoff)"
      unfolding v using hi by (auto intro!: ieee_err [OF fl D1])
    have "of_int (dval ds) * (1 - roundoff) ^ 3 \<le> of_int (dval ds) * (1 - roundoff)"
      using D1 u power_decreasing [of 1 3 "1 - roundoff"] by (intro mult_left_mono) auto
    moreover have "of_int (dval ds) * (1 + roundoff) \<le> 10 ^ 18 * 2"
      by (rule mult_mono) (use hi D1 u in auto)
    moreover have "fl (of_int (BIGINT_BASE ^ (length ds - 1))) = of_int (BIGINT_BASE ^ (length ds - 1))"
      using ds(3) False float_base(1) [OF fl] ieee_int [OF fl, of 1] by auto
    then have "of_int (BIGINT_BASE ^ (length ds - 1)) \<le> v" using lead ieee_mono [OF fl] unfolding v
      by (metis of_int_le_iff)
    ultimately show ?thesis using e by auto
  qed
  show "of_int (dval ds) * (1 - roundoff) ^ 3 \<le> v" "v \<le> 2 ^ 99" "of_int (BIGINT_BASE ^ (length ds - 1)) \<le> v"
    using all by auto
  then show "1 \<le> v" using P1 by (blast intro: order_trans)
qed

lemma estimate_ge:
  fixes R Y t :: int
  assumes fl: "ieee_double fl" and t: "0 \<le> t" "t \<le> BIGINT_BASE" "t * Y \<le> R" and Y: "0 < Y"
    and rF: "of_int R * (1 - roundoff) ^ 3 \<le> rF" "rF \<le> 2 ^ 99" and yF: "1 \<le> yF" "yF \<le> of_int Y * (1 + roundoff)"
    and le: "yF \<le> rF"
  shows "t \<le> \<lfloor>fl (fl (rF / yF) + 1)\<rfloor>" "yF = rF \<Longrightarrow> t \<le> 1"
proof -
  note ro = roundoff_bounds
  let ?a = "1 - roundoff"
  have a: "0 < ?a" "?a \<le> 1" using ro by auto
  have "of_int t * of_int Y * ?a ^ 3 \<le> of_int R * ?a ^ 3"
    using t(3) a by (intro mult_right_mono) (auto simp flip: of_int_mult)
  with rF have k: "of_int t * of_int Y * ?a ^ 3 \<le> rF" by linarith
  have Yp: "0 < (of_int Y :: rat)" using Y by simp
  have b: "(1 + roundoff) * ?a \<le> 1" using ro by (simp add: algebra_simps)
  have "of_int t * ?a ^ 4 * yF \<le> of_int t * ?a ^ 4 * (of_int Y * (1 + roundoff))"
    using yF t a by (intro mult_left_mono) auto
  also have "\<dots> = (of_int t * of_int Y * ?a ^ 3) * ((1 + roundoff) * ?a)"
    by (simp add: power_eq_if algebra_simps)
  also have "\<dots> \<le> (of_int t * of_int Y * ?a ^ 3) * 1"
    using b t Yp a by (intro mult_left_mono) auto
  also have "\<dots> \<le> rF" using k by simp
  finally have q: "of_int t * ?a ^ 4 \<le> rF / yF" using yF by (simp add: pos_le_divide_eq)
  have q1: "1 \<le> rF / yF" using le yF by (simp add: pos_le_divide_eq)
  have "rF / yF \<le> rF" using yF q1 divide_left_mono [of 1 yF rF] le by auto
  then have q2: "rF / yF \<le> 2 ^ 100" using rF by simp
  have "of_int t * ?a ^ 4 * ?a \<le> rF / yF * ?a" using q a by (intro mult_right_mono) auto
  also have "\<dots> \<le> fl (rF / yF)" by (rule ieee_err(1) [OF fl q1 q2])
  finally have f: "of_int t * ?a ^ 5 \<le> fl (rF / yF)" by (simp add: power_eq_if algebra_simps)
  have "1 - 5 * roundoff \<le> ?a ^ 5" using Bernoulli_inequality [of "- roundoff" 5] ro by simp
  then have "of_int t * (1 - 5 * roundoff) \<le> of_int t * ?a ^ 5" using t by (intro mult_left_mono) auto
  moreover have "of_int t * roundoff \<le> of_int BIGINT_BASE * (1 / 10 ^ 15)"
    using t ro by (intro mult_mono) auto
  then have "of_int t * roundoff \<le> 1 / 10" by (simp add: BIGINT_BASE_def)
  ultimately have g: "of_int t - 1 \<le> fl (rF / yF)" using f by (simp add: algebra_simps)
  have "fl (of_int t) = of_int t" using t by (intro ieee_int [OF fl]) (simp add: BIGINT_BASE_def)
  then have "of_int t \<le> fl (fl (rF / yF) + 1)" using ieee_mono [OF fl, of "of_int t" "fl (rF / yF) + 1"] g by simp
  then show "t \<le> \<lfloor>fl (fl (rF / yF) + 1)\<rfloor>" by (simp add: le_floor_iff)
  assume eq: "yF = rF"
  have "of_int t * ?a ^ 3 * of_int Y \<le> (1 + roundoff) * of_int Y" using k yF eq by (simp add: algebra_simps)
  then have l: "of_int t * ?a ^ 3 \<le> 1 + roundoff" using Yp by simp
  have "1 - 3 * roundoff \<le> ?a ^ 3" using Bernoulli_inequality [of "- roundoff" 3] ro by simp
  show "t \<le> 1"
  proof (rule ccontr)
    assume "\<not> t \<le> 1"
    then have "2 \<le> (of_int t :: rat)" by simp
    then have "2 * ?a ^ 3 \<le> of_int t * ?a ^ 3" using a by (intro mult_right_mono) auto
    moreover have "roundoff \<le> 1 / 10" using ro(2) by simp
    ultimately show False using l \<open>1 - 3 * roundoff \<le> ?a ^ 3\<close> by linarith
  qed
qed

text \<open>The leading digits the floating point comparison looks at: all but \<open>k\<close>.\<close>

definition lead :: "nat \<Rightarrow> int list \<Rightarrow> int list" where
  "lead k ds = take (length ds - k) ds"

lemma lead_split:
  assumes "wf_digits ds" "k < length ds"
  obtains lo where "ds = lead k ds @ lo" "dval ds = dval (lead k ds) * BIGINT_BASE ^ k + dval lo"
    "0 \<le> dval lo" "dval lo < BIGINT_BASE ^ k" "wf_digits (lead k ds)" "hd (lead k ds) = hd ds"
    "length (lead k ds) = length ds - k"
proof
  let ?lo = "drop (length ds - k) ds"
  show "ds = lead k ds @ ?lo" by (simp add: lead_def)
  show "dval ds = dval (lead k ds) * BIGINT_BASE ^ k + dval ?lo"
    using assms dval_append [of "take (length ds - k) ds" ?lo] by (simp add: lead_def)
  show "0 \<le> dval ?lo" "dval ?lo < BIGINT_BASE ^ k" "wf_digits (lead k ds)"
    using assms dval_bounds [of ?lo] by (auto simp: wf_take_drop lead_def)
  show "hd (lead k ds) = hd ds" "length (lead k ds) = length ds - k"
    using assms by (auto simp: lead_def hd_conv_nth)
qed

lemma wf_mag_pos_hd: "wf_mag ds \<Longrightarrow> 0 < dval ds \<or> length ds \<noteq> 1 \<Longrightarrow> 1 \<le> hd ds"
  by (cases ds; cases "length ds = 1") (auto simp: wf_mag_def)

lemma lead_power_le: "wf_digits ds \<Longrightarrow> ds \<noteq> [] \<Longrightarrow> 1 \<le> hd ds \<Longrightarrow> BIGINT_BASE ^ (length ds - 1) \<le> dval ds"
  using dval_ge_lead [of ds] mult_right_mono [of 1 "hd ds" "BIGINT_BASE ^ (length ds - 1)"]
  by (simp only: mult_1) (metis base_pos(2) order_trans zero_le_power)

lemma wf_mag_length_le:
  assumes r: "wf_mag r" and y: "wf_digits y" and rB: "dval r < BIGINT_BASE * dval y"
  shows "length r \<le> Suc (length y)"
proof (rule ccontr)
  assume c: "\<not> ?thesis"
  then have "BIGINT_BASE ^ (length r - 1) \<le> dval r"
    using r wf_mag_pos_hd [of r] by (intro lead_power_le) (auto simp: wf_mag_def)
  moreover have "BIGINT_BASE ^ Suc (length y) \<le> BIGINT_BASE ^ (length r - 1)"
    using c by (intro power_increasing) (auto simp: BIGINT_BASE_def)
  moreover have "BIGINT_BASE * dval y \<le> BIGINT_BASE * BIGINT_BASE ^ length y"
    using dval_bounds [OF y] by (intro mult_left_mono) auto
  ultimately show False using rB by simp
qed

text \<open>The divisor's floating point value: its one or two leading digits, rounded once.\<close>

lemma divisor_float:
  assumes fl: "ieee_double fl" and y: "wf_mag y" "0 < dval y"
  defines "k \<equiv> length y - 2"
    and "yF \<equiv> bigintToAbsFloat fl y (if length y > 2 then 2 else length y)"
  shows "yF = fl (of_int (dval (lead k y)))" "1 \<le> yF" "0 < dval (lead k y)"
    "yF \<le> of_int (dval (lead k y)) * (1 + roundoff)"
    "of_int (BIGINT_BASE ^ (length y - k - 1)) \<le> yF" "yF \<le> of_int (BIGINT_BASE ^ (length y - k))"
    "k < length y" "length y - k = 1 \<or> length y - k = 2"
proof -
  have y1: "1 \<le> hd y" "wf_digits y" "y \<noteq> []" using y wf_mag_pos_hd [of y] by (auto simp: wf_mag_def)
  have "0 < length y" using y1 by simp
  then show kl: "k < length y" "length y - k = 1 \<or> length y - k = 2" unfolding k_def by arith+
  have n: "(if length y > 2 then 2 else length y) = length y - k" unfolding k_def by auto
  obtain lo where s: "y = lead k y @ lo" "wf_digits (lead k y)" "hd (lead k y) = hd y" "length (lead k y) = length y - k"
    using lead_split [OF y1(2) kl(1)] by metis
  have ne: "lead k y \<noteq> []" using s(4) kl by auto
  show yF: "yF = fl (of_int (dval (lead k y)))"
    using float_le_two [OF fl s(2), of lo] kl s unfolding yF_def n by metis
  have lo: "BIGINT_BASE ^ (length y - k - 1) \<le> dval (lead k y)" and hi: "dval (lead k y) < BIGINT_BASE ^ (length y - k)"
    using lead_power_le [OF s(2) ne] y1 s dval_bounds [OF s(2)] by auto
  show pos: "0 < dval (lead k y)" by (rule less_le_trans [OF zero_less_power lo]) simp
  show "1 \<le> yF" using ieee_mono [OF fl, of 1 "of_int (dval (lead k y))"] pos ieee_int [OF fl, of 1] by (simp add: yF)
  have ex: "fl (of_int (BIGINT_BASE ^ i)) = of_int (BIGINT_BASE ^ i)" if "i \<le> 2" for i
    using that float_base [OF fl] ieee_int [OF fl, of 1] by (auto simp: le_Suc_eq numeral_2_eq_2)
  show "of_int (BIGINT_BASE ^ (length y - k - 1)) \<le> yF" "yF \<le> of_int (BIGINT_BASE ^ (length y - k))"
    using ieee_mono [OF fl, of "of_int (BIGINT_BASE ^ (length y - k - 1))" "of_int (dval (lead k y))"]
      ieee_mono [OF fl, of "of_int (dval (lead k y))" "of_int (BIGINT_BASE ^ (length y - k))"]
      lo hi kl ex [of "length y - k - 1"] ex [of "length y - k"] by (auto simp only: yF of_int_le_iff)
  have "BIGINT_BASE ^ (length y - k) \<le> BIGINT_BASE ^ 2" using kl by (intro power_increasing) (auto simp: BIGINT_BASE_def)
  then have "dval (lead k y) \<le> BIGINT_BASE ^ 2" using hi by linarith
  then have "(of_int (dval (lead k y)) :: rat) \<le> of_int (BIGINT_BASE ^ 2)" by (simp only: of_int_le_iff)
  then show "yF \<le> of_int (dval (lead k y)) * (1 + roundoff)"
    unfolding yF using pos by (intro ieee_err(2) [OF fl]) (auto simp: BIGINT_BASE_def)
qed

lemma remainder_float_short:
  assumes fl: "ieee_double fl" and r: "wf_mag r" and y: "wf_mag y" "0 < dval y" and l: "length r < length y"
  shows "bigintToAbsFloat fl y (if length y > 2 then 2 else length y) >
         bigintToAbsFloat fl r (if length y > 2 then length r + 2 - length y else length r)"
proof -
  obtain d ds where rd: "r = d # ds" "d < BIGINT_BASE" using r by (cases r) (auto simp: wf_mag_def)
  then have "length y - (length y - 2) - 1 = 1" using l by auto
  then have "of_int BIGINT_BASE \<le> bigintToAbsFloat fl y (if length y > 2 then 2 else length y)"
    using divisor_float(5) [OF fl y] by simp
  moreover have "(if length y > 2 then length r + 2 - length y else length r) \<le> 1"
    using l by (cases "length y > 2") auto
  then have "bigintToAbsFloat fl r (if length y > 2 then length r + 2 - length y else length r) = of_int d"
    unfolding rd(1) by (rule float_one)
  moreover have "of_int d < (of_int BIGINT_BASE :: rat)" using rd(2) by (simp only: of_int_less_iff)
  ultimately show ?thesis by linarith
qed

lemma remainder_float:
  assumes r: "wf_mag r" and y: "wf_mag y" and l: "length r = length y \<or> length r = Suc (length y)"
  defines "k \<equiv> length y - 2"
  shows "bigintToAbsFloat fl r (if length y > 2 then length r + 2 - length y else length r) =
         bigintToAbsFloat fl (lead k r @ drop (length r - k) r) (length (lead k r))"
    "k < length r"
proof -
  have "0 < length y" using y by (auto simp: wf_mag_def)
  then show "k < length r" using l unfolding k_def by auto
  then have "length (lead k r) = length r - k" by (simp add: lead_def)
  moreover have "(if length y > 2 then length r + 2 - length y else length r) = length r - k" 
    using l unfolding k_def by auto
  ultimately show "bigintToAbsFloat fl r (if length y > 2 then length r + 2 - length y else length r) =
         bigintToAbsFloat fl (lead k r @ drop (length r - k) r) (length (lead k r))"
    by (simp add: lead_def)
qed

text \<open>What the comparison of the two floating point values decides.\<close>

lemma div_float_less:
  assumes fl: "ieee_double fl" and r: "wf_mag r" and y: "wf_mag y" "0 < dval y"
    and l: "length r = length y \<or> length r = Suc (length y)"
    and c: "bigintToAbsFloat fl y (if length y > 2 then 2 else length y) >
      bigintToAbsFloat fl r (if length y > 2 then length r + 2 - length y else length r)"
  shows "dval r < dval y"
proof -
  define k where "k = length y - 2"
  note yF = divisor_float [OF fl y, folded k_def] 
    and rF = remainder_float(1) [OF r y(1) l, of fl, folded k_def] remainder_float(2) [OF r y(1) l, folded k_def]
  obtain lr where r': "dval r = dval (lead k r) * BIGINT_BASE ^ k + dval lr"
    "0 \<le> dval lr" "dval lr < BIGINT_BASE ^ k" "wf_digits (lead k r)" "hd (lead k r) = hd r" "length (lead k r) = length r - k"
    using lead_split [of r k] r rF(2) by (metis wf_mag_def)
  obtain ly where y': "dval y = dval (lead k y) * BIGINT_BASE ^ k + dval ly" "0 \<le> dval ly" "dval ly < BIGINT_BASE ^ k"
    using lead_split [of y k] y yF(7) by (metis wf_mag_def)
  show ?thesis
  proof (cases "length r = length y")
    case True
    then have "length (lead k r) = 1 \<or> length (lead k r) = 2" using r'(6) yF(8) by simp
    then have "fl (of_int (dval (lead k r))) < fl (of_int (dval (lead k y)))"
      using c float_le_two [OF fl r'(4)] unfolding rF(1) yF(1) by metis
    then have "dval (lead k r) < dval (lead k y)"
      using ieee_mono [OF fl, of "of_int (dval (lead k y))" "of_int (dval (lead k r))"] by (auto simp: not_le [symmetric])
    then have "(dval (lead k r) + 1) * BIGINT_BASE ^ k \<le> dval (lead k y) * BIGINT_BASE ^ k"
      by (intro mult_right_mono) auto
    then show ?thesis using r' y' by (simp add: algebra_simps)
  next
    case False
    then have l1: "length r = Suc (length y)" using l by simp
    then have "length r \<noteq> 1" using yF(7) by (cases y) auto
    then have "hd (lead k r) \<noteq> 0" using wf_mag_pos_hd [OF r] r'(5) by simp
    moreover have "length (lead k r) = 2 \<or> length (lead k r) = 3" "length (lead k r) - 1 = length y - k"
      using r'(6) l1 yF(7,8) by auto
    ultimately have "of_int (BIGINT_BASE ^ (length y - k)) \<le>
        bigintToAbsFloat fl (lead k r @ drop (length r - k) r) (length (lead k r))"
      using float_lead_lower(4) [OF fl r'(4), of "drop (length r - k) r"] by auto
    then show ?thesis using c yF(6) unfolding rF(1) by linarith
  qed
qed

lemma div_float_estimate:
  fixes fl r y
  defines "yF \<equiv> bigintToAbsFloat fl y (if length y > 2 then 2 else length y)"
    and "rF \<equiv> bigintToAbsFloat fl r (if length y > 2 then length r + 2 - length y else length r)"
  assumes fl: "ieee_double fl" and r: "wf_mag r" and y: "wf_mag y" "0 < dval y"
    and l: "length r = length y \<or> length r = Suc (length y)" and rB: "dval r < BIGINT_BASE * dval y" and c: "yF \<le> rF"
  shows "dval r div dval y \<le> (if yF = rF then 1 else \<lfloor>fl (fl (rF / yF) + 1)\<rfloor>)"
proof -
  define k where "k = length y - 2"
  note yFs = divisor_float [OF fl y, folded k_def yF_def] 
    and rFs = remainder_float(1) [OF r y(1) l, of fl, folded k_def rF_def] remainder_float(2) [OF r y(1) l, folded k_def]
  obtain lr where r': "dval r = dval (lead k r) * BIGINT_BASE ^ k + dval lr" "0 \<le> dval lr" "dval lr < BIGINT_BASE ^ k"
     and r2: "wf_digits (lead k r)" "hd (lead k r) = hd r" "length (lead k r) = length r - k"
    using lead_split [of r k] r rFs(2) by (metis wf_mag_def)
  obtain ly where y': "dval y = dval (lead k y) * BIGINT_BASE ^ k + dval ly" "0 \<le> dval ly" "dval ly < BIGINT_BASE ^ k"
    using lead_split [of y k] y yFs(7) by (metis wf_mag_def)
  let ?t = "dval r div dval y"
  have t: "0 \<le> ?t" "?t * dval y \<le> dval r" using y r dval_bounds [of r]
    by (auto simp: wf_mag_def pos_imp_zdiv_nonneg_iff simp flip: minus_mod_eq_div_mult)
  have tB: "?t < BIGINT_BASE" using rB y by (intro div_less_if_less_mult) (auto simp: mult.commute)
  have tY: "?t * dval (lead k y) \<le> dval (lead k r)" by (rule lead_quotient [OF r' y' _ t]) simp
  have "hd r \<noteq> 0"
  proof
    assume h: "hd r = 0"
    then obtain ds where ds: "r = [0]" using r by (cases r) (auto simp: wf_mag_def)
    then have "rF = 0" by (simp add: rF_def bigintToAbsFloat_def)
    then show False using c yFs(2) by simp
  qed
  moreover have "length (lead k r) \<in> {1, 2, 3}" using r2(3) l yFs(7,8) by auto
  ultimately have "of_int (dval (lead k r)) * (1 - roundoff) ^ 3 \<le> rF" "rF \<le> 2 ^ 99"
    using float_lead_lower(1,3) [OF fl r2(1), of "drop (length r - k) r"] r2(2) rFs(1) by auto
  from estimate_ge [OF fl t(1) _ tY yFs(3) this yFs(2,4) c] tB show ?thesis by auto
qed

section \<open>Correctness\<close>

text \<open>Between two steps: the remainder so far and the quotient digits so far.\<close>

definition div_inv :: "int list \<Rightarrow> int list \<times> int list \<Rightarrow> bool" where
  "div_inv y s \<longleftrightarrow> wf_digits (fst s) \<and> dval (fst s) < dval y \<and>
     wf_digits (snd s) \<and> (snd s \<noteq> [] \<longrightarrow> hd (snd s) \<noteq> 0)"

lemma snoc_wf_mag:
  "wf_digits r \<Longrightarrow> r = [] \<or> hd r \<noteq> 0 \<Longrightarrow> 0 \<le> d \<Longrightarrow> d < BIGINT_BASE \<Longrightarrow> wf_mag (r @ [d])"
  by (cases r) (auto simp: wf_mag_def)

lemma snoc_less:
  "dval r < dval y \<Longrightarrow> d < BIGINT_BASE \<Longrightarrow> dval (r @ [d]) < BIGINT_BASE * dval y"
  using mult_left_mono [of "dval r + 1" "dval y" BIGINT_BASE] by (simp add: dval_snoc algebra_simps)

text \<open>One quotient digit: the digit found is the true one and the new remainder is reduced.\<close>

lemma div_digit:
  fixes fl r y
  defines "yF \<equiv> bigintToAbsFloat fl y (if length y > 2 then 2 else length y)"
    and "rF \<equiv> bigintToAbsFloat fl r (if length y > 2 then length r + 2 - length y else length r)"
  assumes fl: "ieee_double fl" and r: "wf_mag r" and y: "wf_mag y" "0 < dval y"
    and rB: "dval r < BIGINT_BASE * dval y"
  shows "\<exists>r1. (if yF > rF then Some (0, r)
      else map_option (\<lambda>(qd, p). (qd, sub_loop (rev r) (rev p) 0 []))
             (div_estimate r y (if yF = rF then 1 else \<lfloor>fl (fl (rF / yF) + 1)\<rfloor>)))
        = Some (dval r div dval y, r1) \<and>
     dval r1 = dval r mod dval y \<and> wf_digits r1 \<and> r1 \<noteq> []"
proof (cases "length r < length y")
  case True
  then have "dval r < dval y" "yF > rF" "r \<noteq> []" "0 \<le> dval r"
    using mag_mono [OF r y(1)] remainder_float_short [OF fl r y True] r dval_bounds [of r]
    by (auto simp: yF_def rF_def wf_mag_def)
  then show ?thesis using r by (auto simp: wf_mag_def)
next
  case False
  have "length r \<le> Suc (length y)"
    using wf_mag_length_le [OF r _ rB] y by (simp add: wf_mag_def)
  with False have l: "length r = length y \<or> length r = Suc (length y)" by arith
  have rw: "wf_digits r" "r \<noteq> []" "0 \<le> dval r" using r dval_bounds by (auto simp: wf_mag_def)
  show ?thesis
  proof (cases "yF > rF")
    case True
    then have "dval r < dval y" using div_float_less [OF fl r y l] by (simp add: yF_def rF_def)
    then show ?thesis using rw True by auto
  next
    case False
    then have "dval r div dval y \<le> (if yF = rF then 1 else \<lfloor>fl (fl (rF / yF) + 1)\<rfloor>)"
      unfolding yF_def rF_def by (intro div_float_estimate fl r y l rB) simp
    from div_estimate_returns [OF r y(1) l y(2) this] obtain p where
      p: "div_estimate r y (if yF = rF then 1 else \<lfloor>fl (fl (rF / yF) + 1)\<rfloor>) = Some (dval r div dval y, p)"
        "dval p = (dval r div dval y) * dval y" "wf_digits p" "length p \<le> length r" by blast
    have "dval p \<le> dval r" using p(2) y by (simp flip: minus_mod_eq_div_mult)
    then have v: "dval (sub_loop (rev r) (rev p) 0 []) = dval r - dval p" "wf_digits (sub_loop (rev r) (rev p) 0 [])"
      "length (sub_loop (rev r) (rev p) 0 []) = length r"
      using sub_loop_val [of "rev r" "rev p" 0 "[]"] p rw by (auto simp: dval_def)
    then have "sub_loop (rev r) (rev p) 0 [] \<noteq> []" using rw by auto
    then show ?thesis using False p v by (auto simp: minus_div_mult_eq_mod)
  qed
qed

lemma trim_if: "ds \<noteq> [] \<Longrightarrow> wf_digits ds \<Longrightarrow>
  wf_mag (if hd ds = 0 then trim_zeros ds else ds) \<and> dval (if hd ds = 0 then trim_zeros ds else ds) = dval ds"
  by (simp add: trim_zeros_wf) (auto simp: wf_mag_def)

lemma div_step_correct:
  assumes fl: "ieee_double fl" and y: "wf_mag y" "0 < dval y" and inv: "div_inv y s"
    and r0: "fst s = [] \<or> hd (fst s) \<noteq> 0" and xi: "0 \<le> xi" "xi < BIGINT_BASE" and st: "snd s = [] \<longrightarrow> fst s \<noteq> [] \<or> xi \<noteq> 0"
  shows "\<exists>s'. div_step fl y (bigintToAbsFloat fl y (if length y > 2 then 2 else length y)) unfinished s xi = Some s' \<and>
     div_inv y s' \<and> dval (snd s') * dval y + dval (fst s') = (dval (snd s) * dval y + dval (fst s)) * BIGINT_BASE + xi \<and>
     (unfinished \<longrightarrow> fst s' = [] \<or> hd (fst s') \<noteq> 0) \<and> (\<not> unfinished \<longrightarrow> wf_mag (fst s')) \<and>
     (snd s' = [] \<longrightarrow> fst s' \<noteq> [])"
proof -
  let ?r = "fst s @ [xi]"
  have r: "wf_mag ?r" and rB: "dval ?r < BIGINT_BASE * dval y"
    using snoc_wf_mag [OF _ r0 xi] snoc_less xi inv by (auto simp: div_inv_def)
  show ?thesis
  proof (cases "snd s = [] \<and> cmpAbsBigint ?r y < 0")
    case True
    then have "dval ?r < dval y" using cmpAbsBigint_correct [OF r y(1)] by (simp add: sgn_if split: if_splits)
    moreover have "hd ?r \<noteq> 0" using st r0 True by (cases "fst s") auto
    ultimately show ?thesis using True r inv
      by (auto simp: div_step_def div_inv_def dval_snoc wf_mag_def)
  next
    case False
    let ?t = "dval ?r div dval y"
    obtain r1 where r1: "(let rF = bigintToAbsFloat fl ?r (if length y > 2 then length ?r + 2 - length y else length ?r);
          yF = bigintToAbsFloat fl y (if length y > 2 then 2 else length y) in
        if yF > rF then Some (0, ?r)
        else map_option (\<lambda>(qd, p). (qd, sub_loop (rev ?r) (rev p) 0 []))
             (div_estimate ?r y (if yF = rF then 1 else \<lfloor>fl (fl (rF / yF) + 1)\<rfloor>))) = Some (?t, r1)"
      "dval r1 = dval ?r mod dval y" "wf_digits r1" "r1 \<noteq> []"
      using div_digit [OF fl r y rB] unfolding Let_def by blast
    define r2 where "r2 = (if hd r1 = 0 then trim_zeros r1 else r1)"
    have r2: "wf_mag r2" "dval r2 = dval ?r mod dval y" using trim_if [OF r1(4,3)] r1(2) by (auto simp: r2_def)
    have eq: "div_step fl y (bigintToAbsFloat fl y (if length y > 2 then 2 else length y)) unfinished s xi =
        Some (if hd r2 = 0 \<and> unfinished then [] else r2, snd s @ [?t])"
      using False r1(1) unfolding div_step_def Let_def r2_def by simp
    have t: "0 \<le> ?t" "?t < BIGINT_BASE"
      using r rB y dval_bounds [of ?r] div_less_if_less_mult [of "dval ?r" "dval y" BIGINT_BASE]
      by (auto simp: wf_mag_def pos_imp_zdiv_nonneg_iff mult.commute)
    have t1: "?t \<noteq> 0" if "snd s = []"
    proof -
      from that False have "dval y \<le> dval ?r"
        using cmpAbsBigint_correct [OF r y(1)] by (auto simp: sgn_if split: if_splits)
      then have "0 < ?t" using y(2) by (simp add: pos_imp_zdiv_pos_iff)
      then show ?thesis by simp
    qed
    have z: "hd r2 = 0 \<Longrightarrow> dval r2 = 0" using r2(1) by (cases r2) (auto simp: wf_mag_def)
    have "?t * dval y + dval ?r mod dval y = dval ?r" by simp
    then have "(dval (snd s) * BIGINT_BASE + ?t) * dval y + dval r2 = (dval (snd s) * dval y + dval (fst s)) * BIGINT_BASE + xi"
      unfolding r2(2) by (simp only: dval_snoc distrib_right) (simp add: algebra_simps)
    moreover have "div_inv y (if hd r2 = 0 \<and> unfinished then [] else r2, snd s @ [?t])"
      using inv r2 y t t1 by (cases "snd s") (auto simp: div_inv_def wf_mag_def)
    ultimately show ?thesis using eq r2 z by (auto simp: dval_snoc)
  qed
qed

lemma div_loop_correct:
  assumes fl: "ieee_double fl" and y: "wf_mag y" "0 < dval y"
    and "div_inv y s" "fst s = [] \<or> hd (fst s) \<noteq> 0" "wf_digits xs" "xs \<noteq> []"
    "snd s = [] \<longrightarrow> fst s \<noteq> [] \<or> hd xs \<noteq> 0"
  shows "\<exists>s'. div_loop fl y (bigintToAbsFloat fl y (if length y > 2 then 2 else length y)) s xs = Some s' \<and>
     div_inv y s' \<and> wf_mag (fst s') \<and>
     dval (snd s') * dval y + dval (fst s') = (dval (snd s) * dval y + dval (fst s)) * BIGINT_BASE ^ length xs + dval xs"
  using assms(4-)
proof (induction xs arbitrary: s)
  case (Cons x xs)
  obtain s1 where s1: "div_step fl y (bigintToAbsFloat fl y (if length y > 2 then 2 else length y)) (xs \<noteq> []) s x = Some s1"
     "div_inv y s1" "dval (snd s1) * dval y + dval (fst s1) = (dval (snd s) * dval y + dval (fst s)) * BIGINT_BASE + x"
     "xs \<noteq> [] \<longrightarrow> fst s1 = [] \<or> hd (fst s1) \<noteq> 0" "xs = [] \<longrightarrow> wf_mag (fst s1)" "snd s1 = [] \<longrightarrow> fst s1 \<noteq> []"
    using div_step_correct [OF fl y Cons.prems(1,2), of x "xs \<noteq> []"] Cons.prems by auto
  show ?case
  proof (cases "xs = []")
    case True
    then show ?thesis using s1 by (auto simp: dval_Cons)
  next
    case False
    obtain s2 where s2: "div_loop fl y (bigintToAbsFloat fl y (if length y > 2 then 2 else length y)) s1 xs = Some s2"
      "div_inv y s2" "wf_mag (fst s2)"
      "dval (snd s2) * dval y + dval (fst s2) = (dval (snd s1) * dval y + dval (fst s1)) * BIGINT_BASE ^ length xs + dval xs"
      using Cons.IH [of s1] Cons.prems s1 False by auto
    have "dval (snd s2) * dval y + dval (fst s2) =
        (dval (snd s) * dval y + dval (fst s)) * BIGINT_BASE ^ length (x # xs) + dval (x # xs)"
      unfolding s2(4) s1(3) by (simp add: dval_Cons algebra_simps)
    then show ?thesis using s1(1) s2 by auto
  qed
qed simp

lemma sgn_mult_div:
  fixes a b s t :: int
  assumes "0 \<le> a" "0 < b" "s = 1 \<or> s = -1" "t = 1 \<or> t = -1"
  shows "(s * a) sdiv (t * b) = s * t * (a div b)" "(s * a) smod (t * b) = s * (a mod b)"
proof -
  show d: "(s * a) sdiv (t * b) = s * t * (a div b)"
    using assms by (cases "a = 0") (auto simp: signed_divide_int_def sgn_mult abs_mult)
  show "(s * a) smod (t * b) = s * (a mod b)"
    using assms by (cases "a = 0") (auto simp: signed_modulo_int_def sgn_mult abs_mult)
qed

theorem divModBigint_correct:
  assumes fl: "ieee_double fl" and x: "wf_bigint x" and y: "wf_bigint y" and nz: "bval y \<noteq> 0"
  shows "\<exists>q r. divModBigint fl x y False = Some (Inr q) \<and> divModBigint fl x y True = Some (Inr r) \<and>
     bval q = bval x sdiv bval y \<and> bval r = bval x smod bval y \<and> wf_bigint q \<and> wf_bigint r"
proof -
  let ?x = "bdigits x" and ?y = "bdigits y"
  have w: "wf_mag ?x" "wf_mag ?y" "0 \<le> dval ?x" "0 \<le> dval ?y" "bsign x = 1 \<or> bsign x = -1" "bsign y = 1 \<or> bsign y = -1"
    using x y dval_bounds [of ?x] dval_bounds [of ?y] by (auto simp: wf_bigint_def wf_mag_def)
  then have y0: "0 < dval ?y" using nz by (auto simp: bval_def)
  then have nzd: "\<not> (hd ?y = 0 \<and> length ?y = 1)" using dval_zero_iff [OF w(2)] w(2) by (cases ?y) (auto simp: wf_mag_def)
  have sd: "bval x sdiv bval y = bsign x * bsign y * (dval ?x div dval ?y)" "bval x smod bval y = bsign x * (dval ?x mod dval ?y)"
    unfolding bval_def using sgn_mult_div [OF w(3) y0 w(5,6)] by auto
  show ?thesis
  proof (cases "dval ?x < dval ?y")
    case True
    then have "cmpAbsBigint ?x ?y < 0" using cmpAbsBigint_correct [OF w(1,2)] by simp
    then show ?thesis using True nzd w x y sd by (auto simp: divModBigint_def bval_def wf_bigint_def wf_mag_def)
  next
    case False
    then have c: "\<not> cmpAbsBigint ?x ?y < 0" using cmpAbsBigint_correct [OF w(1,2)] by (simp add: sgn_if)
    have "hd ?x \<noteq> 0" "?x \<noteq> []" using wf_mag_pos_hd [OF w(1)] False y0 w(1) by (auto simp: wf_mag_def)
    moreover have "div_inv ?y ([], [])" using y0 by (simp add: div_inv_def)
    ultimately obtain r q where rq:
      "div_loop fl ?y (bigintToAbsFloat fl ?y (if length ?y > 2 then 2 else length ?y)) ([], []) ?x = Some (r, q)"
      "div_inv ?y (r, q)" "wf_mag r" "dval q * dval ?y + dval r = dval ?x"
      using div_loop_correct [OF fl w(2) y0, of "([], [])" ?x] w(1) by (auto simp: wf_mag_def)
    have "0 \<le> dval r" "dval r < dval ?y" using rq dval_bounds [of r] by (auto simp: div_inv_def wf_mag_def)
    then have dm: "dval ?x div dval ?y = dval q" "dval ?x mod dval ?y = dval r"
      using rq(4) y0 by (auto simp: div_pos_pos_trivial simp flip: rq(4))
    have "q \<noteq> []" using False rq by (auto simp: div_inv_def)
    then have "wf_mag q" using rq by (auto simp: div_inv_def wf_mag_def)
    then show ?thesis using c nzd rq w sd dm
      by (auto simp: divModBigint_def Let_def bval_def wf_bigint_def split: if_splits)
  qed
qed

end
