(* ===== verification/NL_BigConv.thy ===== *)
theory NL_BigConv
  imports NL_BigDiv
begin

text \<open>
  Conversions of big integers (\<^verbatim>\<open>nl-math.c\<close>): from and to decimal strings
  (\<^verbatim>\<open>strToBigint\<close>, \<^verbatim>\<open>bigintToDigits\<close>, \<^verbatim>\<open>lengthBigint\<close>) and from and to 64-bit
  integers (\<^verbatim>\<open>intToBigint\<close>, \<^verbatim>\<open>bigintToInt64\<close>). Strings are character lists;
  the digit buffer is a list of the bytes written to it, without the terminating zero.
\<close>

section \<open>Strings to big integers\<close>

definition chunk_value :: "string \<Rightarrow> int" where
  "chunk_value cs = foldl (\<lambda>a c. 10 * a + (of_char c - 48)) 0 cs"

fun str_loop :: "nat \<Rightarrow> nat \<Rightarrow> string \<Rightarrow> int list" where
  "str_loop 0 cnt ptr = []"
| "str_loop (Suc i) cnt ptr = chunk_value (take cnt ptr) # str_loop i 9 (drop cnt ptr)"

fun skip_zeros :: "string \<Rightarrow> string" where
  "skip_zeros (c # d # cs) = (if c = CHR ''0'' then skip_zeros (d # cs) else c # d # cs)"
| "skip_zeros cs = cs"

definition strToBigint :: "string \<Rightarrow> nat \<Rightarrow> bigint" where
  "strToBigint str len =
     (let len1 = (if str ! (len - 1) = CHR ''L'' then len - 1 else len);
          s0 = take len1 str;
          signed = (s0 \<noteq> [] \<and> (hd s0 = CHR ''-'' \<or> hd s0 = CHR ''+''));
          sign = (if signed \<and> hd s0 = CHR ''-'' then -1 else 1);
          s1 = skip_zeros (if signed then tl s0 else s0);
          len2 = length s1;
          n = len2 div 9 + 1;
          cnt = len2 mod 9
      in \<lparr>bsign = sign,
          bdigits = (if cnt \<noteq> 0 then str_loop n cnt s1 else str_loop (n - 1) 9 s1)\<rparr>)"

section \<open>Big integers to strings\<close>

function scan_lead :: "int \<Rightarrow> int \<Rightarrow> nat \<Rightarrow> (int \<times> nat) option" where
  "scan_lead bigdigit basediv cnt =
     (if basediv \<le> 0 then None
      else if bigdigit sdiv basediv = 0 then scan_lead bigdigit (basediv sdiv 10) (Suc cnt)
      else Some (basediv, cnt))"
  by pat_completeness auto
termination
  by (relation "measure (\<lambda>(_, b, _). nat b)") (auto simp: sdiv_nonneg)

fun emit_digits :: "nat \<Rightarrow> int \<Rightarrow> int \<Rightarrow> int \<Rightarrow> int list" where
  "emit_digits 0 bigdigit basediv offset = []"
| "emit_digits (Suc j) bigdigit basediv offset =
     (let q = bigdigit sdiv basediv
      in (q + offset) # emit_digits j (bigdigit - q * basediv) (basediv sdiv 10) offset)"

fun emit_rest :: "int list \<Rightarrow> int \<Rightarrow> int list" where
  "emit_rest [] offset = []"
| "emit_rest (d # ds) offset =
     emit_digits 9 d (BIGINT_BASE sdiv 10) offset @ emit_rest ds offset"

definition bigintToDigits :: "bigint \<Rightarrow> int \<Rightarrow> (int list) option" where
  "bigintToDigits b offset =
     (if length (bdigits b) = 1 \<and> hd (bdigits b) = 0
      then Some (if offset = 0 then [49, 0] else [48])
      else
        case scan_lead (hd (bdigits b)) (BIGINT_BASE sdiv 10) 0 of
          None \<Rightarrow> None
        | Some (basediv, cnt) \<Rightarrow>
            Some ((if offset \<noteq> 0 then (if bsign b = -1 then [45] else []) else [bsign b])
                  @ emit_digits (9 - cnt) (hd (bdigits b)) basediv offset
                  @ emit_rest (tl (bdigits b)) offset))"

definition lengthBigint :: "int list \<Rightarrow> int option" where
  "lengthBigint num =
     (if hd num = 0 then Some 1
      else map_option (\<lambda>(_, cnt). 9 * (int (length num) - 1) + 9 - int cnt)
             (scan_lead (hd num) (BIGINT_BASE sdiv 10) 0))"

section \<open>64-bit integers\<close>

definition intToBigint :: "int \<Rightarrow> bigint" where
  "intToBigint num0 =
     (let num = (if num0 < 0 then wrap64 (- num0) else num0);
          (d1, num1) = (if num > BIGINT_BASE2
                        then ([num sdiv BIGINT_BASE2], num - (num sdiv BIGINT_BASE2) * BIGINT_BASE2)
                        else ([], num));
          (d2, num2) = (if num1 > BIGINT_BASE
                        then ([num1 sdiv BIGINT_BASE], num1 - (num1 sdiv BIGINT_BASE) * BIGINT_BASE)
                        else ([], num1))
      in \<lparr>bsign = (if num0 < 0 then -1 else 1), bdigits = d1 @ d2 @ [signed_take_bit 31 num2]\<rparr>)"

definition bigintToInt64 :: "bigint \<Rightarrow> int result" where
  "bigintToInt64 b =
     (let maxInt = \<lparr>bsign = 1, bdigits = [9, 223372036, 854775807]\<rparr>;
          minInt = \<lparr>bsign = -1, bdigits = [9, 223372036, 854775808]\<rparr>
      in if cmpBigint b maxInt = 1 \<or> cmpBigint b minInt = -1 then Inl ERR_NUMBER_OUT_OF_RANGE
         else Inr (wrap64 (foldl (\<lambda>n d. wrap64 (n * BIGINT_BASE + d)) (hd (bdigits b)) (tl (bdigits b))
                           * bsign b)))"

section \<open>Reading and printing\<close>

declare scan_lead.simps [simp del]

definition is_digit :: "char \<Rightarrow> bool" where
  "is_digit c \<longleftrightarrow> 48 \<le> (of_char c :: int) \<and> (of_char c :: int) \<le> 57"

lemma chunk_value_snoc: "chunk_value (cs @ [c]) = 10 * chunk_value cs + (of_char c - 48)"
  by (simp add: chunk_value_def)

lemma chunk_value_append: "chunk_value (xs @ ys) = chunk_value xs * 10 ^ length ys + chunk_value ys"
proof (induction ys rule: rev_induct)
  case Nil
  then show ?case by (simp add: chunk_value_def)
next
  case (snoc y ys)
  have "chunk_value (xs @ ys @ [y]) = 10 * chunk_value (xs @ ys) + (of_char y - 48)"
    using chunk_value_snoc [of "xs @ ys" y] by simp
  then show ?case using snoc by (simp add: chunk_value_snoc algebra_simps)
qed

lemma chunk_value_Nil [simp]: "chunk_value [] = 0"
  by (simp add: chunk_value_def)

lemma chunk_value_Cons: "chunk_value (c # cs) = (of_char c - 48) * 10 ^ length cs + chunk_value cs"
  using chunk_value_append [of "[c]" cs] by (simp add: chunk_value_def)

lemma chunk_value_bounds:
  "\<forall>c\<in>set cs. is_digit c \<Longrightarrow> 0 \<le> chunk_value cs \<and> chunk_value cs < 10 ^ length cs"
proof (induction cs rule: rev_induct)
  case (snoc c cs)
  then have "0 \<le> chunk_value cs" "chunk_value cs + 1 \<le> 10 ^ length cs" "48 \<le> (of_char c :: int)" "(of_char c :: int) \<le> 57"
    by (auto simp: is_digit_def)
  then show ?case by (simp add: chunk_value_snoc)
qed simp

lemma str_loop_val:
  assumes "length s = cnt + 9 * i" "0 < cnt" "cnt \<le> 9" "\<forall>c\<in>set s. is_digit c"
  shows "dval (str_loop (Suc i) cnt s) = chunk_value s \<and> wf_digits (str_loop (Suc i) cnt s) \<and>
         length (str_loop (Suc i) cnt s) = Suc i"
  using assms
proof (induction i arbitrary: cnt s)
  case 0
  then show ?case using chunk_value_bounds [of s] power_increasing [of cnt 9 "10::int"]
    by (simp add: BIGINT_BASE_def)
next
  case (Suc i)
  let ?h = "take cnt s" and ?t = "drop cnt s"
  have IH: "dval (str_loop (Suc i) 9 ?t) = chunk_value ?t" "wf_digits (str_loop (Suc i) 9 ?t)"
    "length (str_loop (Suc i) 9 ?t) = Suc i"
    using Suc.IH [of ?t 9] Suc.prems by (auto dest: in_set_dropD)
  have "\<forall>c\<in>set ?h. is_digit c" using Suc.prems by (auto dest: in_set_takeD)
  then have h: "0 \<le> chunk_value ?h" "chunk_value ?h < BIGINT_BASE"
    using chunk_value_bounds [of ?h] power_increasing [of cnt 9 "10::int"] Suc.prems
    by (auto simp: BIGINT_BASE_def)
  have "chunk_value s = chunk_value ?h * 10 ^ length ?t + chunk_value ?t"
    using chunk_value_append [of ?h ?t] by simp
  moreover have "(10::int) ^ length ?t = BIGINT_BASE ^ Suc i"
    using Suc.prems by (simp add: BIGINT_BASE_def power_mult power_add)
  ultimately show ?case using IH h str_loop.simps(2) [of "Suc i" cnt s]
    by (simp add: dval_Cons del: str_loop.simps)
qed

lemma str_loop_hd:
  assumes "length s = cnt + 9 * i" "0 < cnt" "cnt \<le> 9" "\<forall>c\<in>set s. is_digit c" "hd s \<noteq> CHR ''0''"
  shows "hd (str_loop (Suc i) cnt s) \<noteq> 0"
proof -
  obtain c cs where c: "take cnt s = c # cs" "hd s = c" using assms by (cases s; cases cnt) auto
  have ds: "\<forall>c\<in>set (take cnt s). is_digit c" using assms by (auto dest: in_set_takeD)
  have "(of_char c :: int) \<noteq> 48" 
  proof
    assume "(of_char c :: int) = 48"
    then have "(of_char c :: int) = of_char (CHR ''0'')" by simp
    then have "c = CHR ''0''" by (simp only: of_char_eq_iff)
    then show False using assms(5) c(2) by simp
  qed
  then have "0 < (of_char c - 48 :: int)" using ds c by (auto simp: is_digit_def)
  then have "0 < (of_char c - 48) * (10::int) ^ length cs" by simp
  moreover have "0 \<le> chunk_value cs" using chunk_value_bounds [of cs] ds c by auto
  ultimately show ?thesis using c by (simp add: chunk_value_Cons)
qed

lemma skip_zeros_props:
  "cs \<noteq> [] \<Longrightarrow> \<forall>c\<in>set cs. is_digit c \<Longrightarrow>
   chunk_value (skip_zeros cs) = chunk_value cs \<and> skip_zeros cs \<noteq> [] \<and> (\<forall>c\<in>set (skip_zeros cs). is_digit c) \<and>
   (length (skip_zeros cs) = 1 \<or> hd (skip_zeros cs) \<noteq> CHR ''0'')"
  by (induction cs rule: skip_zeros.induct) (auto simp: chunk_value_Cons)

lemma digit_run:
  assumes "s \<noteq> []" "\<forall>c\<in>set s. is_digit c" "length s = 1 \<or> hd s \<noteq> CHR ''0''"
  defines "ds \<equiv> (if length s mod 9 \<noteq> 0 then str_loop (length s div 9 + 1) (length s mod 9) s
                 else str_loop (length s div 9) 9 s)"
  shows "dval ds = chunk_value s \<and> wf_mag ds"
proof -
  define cnt where "cnt = (if length s mod 9 \<noteq> 0 then length s mod 9 else 9)"
  define i where "i = (if length s mod 9 \<noteq> 0 then length s div 9 else length s div 9 - 1)"
  have q: "length s mod 9 = 0 \<Longrightarrow> 0 < length s div 9" using assms(1) by (cases "length s div 9") auto
  have ds: "ds = str_loop (Suc i) cnt s" using q by (simp add: ds_def cnt_def i_def del: str_loop.simps)
  have len: "length s = cnt + 9 * i" "0 < cnt" "cnt \<le> 9"
    using q mod_mult_div_eq [of "length s" 9] by (auto simp: cnt_def i_def)
  have v: "dval ds = chunk_value s" "wf_digits ds" "length ds = Suc i"
    using str_loop_val [OF len assms(2)] by (auto simp: ds)
  have "length ds = 1 \<or> hd ds \<noteq> 0"
  proof (cases "length s = 1")
    case True
    then have "i = 0" using len by auto
    then show ?thesis using v by simp
  next
    case False
    then show ?thesis using str_loop_hd [OF len assms(2)] assms(3) by (simp add: ds)
  qed
  then show ?thesis using v by (auto simp: wf_mag_def)
qed

lemma strToBigint_split:
  assumes "sg = [] \<or> sg = ''-'' \<or> sg = ''+''" "ds \<noteq> []" "\<forall>c\<in>set ds. is_digit c" "suf = [] \<or> suf = ''L''"
  shows "bval (strToBigint (sg @ ds @ suf) (length (sg @ ds @ suf))) = (if sg = ''-'' then -1 else 1) * chunk_value ds \<and>
     wf_bigint (strToBigint (sg @ ds @ suf) (length (sg @ ds @ suf)))"
proof -
  let ?str = "sg @ ds @ suf"
  have "is_digit (last ds)" "is_digit (hd ds)" using assms by auto
  then have nd: "last ds \<noteq> CHR ''L''" "hd ds \<noteq> CHR ''-''" "hd ds \<noteq> CHR ''+''" by (auto simp: is_digit_def)
  have "?str ! (length ?str - 1) = last ?str" using assms(2) by (simp add: last_conv_nth)
  also have "\<dots> = (if suf = [] then last ds else CHR ''L'')" using assms by auto
  finally have s0: "take (if ?str ! (length ?str - 1) = CHR ''L'' then length ?str - 1 else length ?str) ?str = sg @ ds"
    using nd assms(4) by auto
  define s where "s = skip_zeros ds"
  have s: "chunk_value s = chunk_value ds" "s \<noteq> []" "\<forall>c\<in>set s. is_digit c" "length s = 1 \<or> hd s \<noteq> CHR ''0''"
    using skip_zeros_props [OF assms(2,3)] by (auto simp: s_def)
  have sk: "(if sg @ ds \<noteq> [] \<and> (hd (sg @ ds) = CHR ''-'' \<or> hd (sg @ ds) = CHR ''+'') then tl (sg @ ds) else sg @ ds) = ds"
    using assms nd by auto
  have sgn: "(sg @ ds \<noteq> [] \<and> (hd (sg @ ds) = CHR ''-'' \<or> hd (sg @ ds) = CHR ''+'')) \<and> hd (sg @ ds) = CHR ''-'' \<longleftrightarrow> sg = ''-''"
    using assms nd by auto
  have "strToBigint ?str (length ?str) = \<lparr>bsign = (if sg = ''-'' then -1 else 1),
      bdigits = (if length s mod 9 \<noteq> 0 then str_loop (length s div 9 + 1) (length s mod 9) s
                 else str_loop (length s div 9) 9 s)\<rparr>"
    unfolding strToBigint_def Let_def s0 sk sgn s_def [symmetric] by simp
  then show ?thesis using digit_run [OF s(2,3,4)] s(1) by (simp add: bval_def wf_bigint_def)
qed

abbreviation chars :: "int list \<Rightarrow> string" where
  "chars ds \<equiv> map char_of ds"

lemma of_char_char_of_int: "0 \<le> x \<Longrightarrow> x < 256 \<Longrightarrow> (of_char (char_of (x::int)) :: int) = x"
  by simp

lemma emit_digits_val:
  assumes "0 \<le> d" "d < 10 ^ j" 
  shows "chunk_value (chars (emit_digits j d (10 ^ j div 10) 48)) = d \<and>
         (\<forall>c\<in>set (chars (emit_digits j d (10 ^ j div 10) 48)). is_digit c) \<and> length (emit_digits j d (10 ^ j div 10) 48) = j"
  using assms
proof (induction j arbitrary: d)
  case (Suc j)
  let ?q = "d div 10 ^ j"
  have q: "0 \<le> ?q" "?q < 10" using Suc.prems div_less_if_less_mult [of d "10 ^ j" 10]
    by (auto simp: pos_imp_zdiv_nonneg_iff mult.commute)
  have r: "d - ?q * 10 ^ j = d mod 10 ^ j" by (simp add: minus_div_mult_eq_mod)
  have c: "(of_char (char_of (?q + 48)) :: int) = ?q + 48" using q by (intro of_char_char_of_int) auto
  have e: "emit_digits (Suc j) d (10 ^ Suc j div 10) 48 = (?q + 48) # emit_digits j (d mod 10 ^ j) (10 ^ j div 10) 48"
    using Suc.prems r by (simp add: Let_def sdiv_nonneg)
  show ?case using Suc.IH [of "d mod 10 ^ j"] q c mult_div_mod_eq [of "10 ^ j" d]
    unfolding e by (simp add: chunk_value_Cons is_digit_def mult.commute)
qed simp

lemma emit_rest_val:
  assumes "wf_digits ds"
  shows "chunk_value (chars (emit_rest ds 48)) = dval ds \<and> (\<forall>c\<in>set (chars (emit_rest ds 48)). is_digit c) \<and>
         length (emit_rest ds 48) = 9 * length ds"
  using assms
proof (induction ds)
  case (Cons d ds)
  have "BIGINT_BASE sdiv 10 = 10 ^ 9 div 10" by (simp add: BIGINT_BASE_def sdiv_nonneg)
  moreover have "(10::int) ^ (9 * length ds) = BIGINT_BASE ^ length ds" by (simp add: BIGINT_BASE_def power_mult)
  ultimately show ?case using Cons emit_digits_val [of d 9]
    by (auto simp: chunk_value_append dval_Cons BIGINT_BASE_def)
qed simp

lemma scan_lead_val:
  assumes "0 < d" "d < 10 ^ Suc j" "j + cnt = 8"
  shows "\<exists>i c. scan_lead d (10 ^ j) cnt = Some (10 ^ i, c) \<and> 10 ^ i \<le> d \<and> d < 10 ^ Suc i \<and> i + c = 8"
  using assms
proof (induction j arbitrary: cnt)
  case 0
  then show ?case by (intro exI [of _ 0] exI [of _ 8]) (simp add: scan_lead.simps sdiv_nonneg)
next
  case (Suc j)
  show ?case
  proof (cases "d < 10 ^ Suc j")
    case True
    then have "scan_lead d (10 ^ Suc j) cnt = scan_lead d (10 ^ j) (Suc cnt)"
      using Suc.prems by (subst scan_lead.simps) (simp add: sdiv_nonneg div_pos_pos_trivial)
    then show ?thesis using Suc.IH [of "Suc cnt"] Suc.prems True by simp
  next
    case False
    then have "0 < d div 10 ^ Suc j" by (simp add: pos_imp_zdiv_pos_iff)
    then have "scan_lead d (10 ^ Suc j) cnt = Some (10 ^ Suc j, cnt)"
      using Suc.prems by (subst scan_lead.simps) (simp add: sdiv_nonneg)
    then show ?thesis using False Suc.prems by (intro exI [of _ "Suc j"] exI [of _ cnt]) simp
  qed
qed

lemma wf_mag_unique: "wf_mag x \<Longrightarrow> wf_mag y \<Longrightarrow> dval x = dval y \<Longrightarrow> x = y"
proof -
  assume w: "wf_mag x" "wf_mag y" "dval x = dval y"
  then have l: "length x = length y" using mag_mono [of x y] mag_mono [of y x] by (cases "length x" "length y" rule: linorder_cases) auto
  have "cmp_digits xs ys = 0 \<Longrightarrow> length xs = length ys \<Longrightarrow> xs = ys" for xs ys
    by (induction xs ys rule: cmp_digits.induct) (auto split: if_splits)
  then show ?thesis using cmpAbsBigint_correct [OF w(1,2)] w(3) l by (simp add: cmpAbsBigint_def)
qed

lemma bigint_eqI:
  assumes "wf_bigint x" "wf_bigint y" "bval x = bval y" "bval y \<noteq> 0"
  shows "x = y"
proof -
  have "0 \<le> dval (bdigits x)" "0 \<le> dval (bdigits y)" using assms dval_bounds by (auto simp: wf_bigintD)
  then have "bsign x = bsign y \<and> dval (bdigits x) = dval (bdigits y)"
    using assms wf_bigintD(4) [OF assms(1)] wf_bigintD(4) [OF assms(2)] by (auto simp: bval_def)
  then show ?thesis using wf_mag_unique [of "bdigits x" "bdigits y"] assms by (simp add: wf_bigint_def)
qed

lemma bigintToDigits_wf:
  assumes "wf_bigint b" "bval b \<noteq> 0"
  obtains ds where "bigintToDigits b 48 = Some ((if bsign b = -1 then [45] else []) @ ds)"
    "chunk_value (chars ds) = dval (bdigits b)" "\<forall>c\<in>set (chars ds). is_digit c" "ds \<noteq> []"
    "lengthBigint (bdigits b) = Some (int (length ds))" "48 < hd ds" "hd ds \<le> 57"
proof -
  obtain d es where b: "bdigits b = d # es" using assms by (cases "bdigits b") (auto simp: wf_bigint_def wf_mag_def)
  have "0 < dval (bdigits b)" using assms dval_bounds [of "bdigits b"] by (cases "dval (bdigits b) = 0") (auto simp: bval_def wf_bigintD)
  then have d: "0 < d" "d < 10 ^ Suc 8" "wf_digits es"
    using wf_mag_pos_hd [of "bdigits b"] assms b by (auto simp: wf_bigint_def wf_mag_def BIGINT_BASE_def)
  have base: "BIGINT_BASE sdiv 10 = 10 ^ 8" by (simp add: BIGINT_BASE_def sdiv_nonneg)
  obtain i c where ic: "scan_lead d (10 ^ 8) 0 = Some (10 ^ i, c)" "10 ^ i \<le> d" "d < 10 ^ Suc i" "i + c = 8"
    using scan_lead_val [OF d(1,2), of 0] by auto
  define hs where "hs = emit_digits (Suc i) d (10 ^ i) 48"
  have hs: "chunk_value (chars hs) = d" "\<forall>c\<in>set (chars hs). is_digit c" "length hs = Suc i"
    using emit_digits_val [of d "Suc i"] d ic by (auto simp: hs_def)
  have es: "chunk_value (chars (emit_rest es 48)) = dval es" "\<forall>c\<in>set (chars (emit_rest es 48)). is_digit c"
    "length (emit_rest es 48) = 9 * length es" using emit_rest_val [OF d(3)] by auto
  have c: "9 - c = Suc i" using ic by simp
  have "hd hs = d div 10 ^ i + 48" using d by (simp add: hs_def Let_def sdiv_nonneg)
  moreover have "0 < d div 10 ^ i" using ic by (simp add: pos_imp_zdiv_pos_iff)
  moreover have "d div 10 ^ i < 10" using div_less_if_less_mult [of d "10 ^ i" 10] ic by (simp add: mult.commute)
  ultimately have hd: "48 < hd hs" "hd hs \<le> 57" "hs \<noteq> []" using hs by auto
  show ?thesis
  proof (rule that [of "hs @ emit_rest es 48"])
    show "bigintToDigits b 48 = Some ((if bsign b = -1 then [45] else []) @ hs @ emit_rest es 48)"
      using b d ic c by (simp add: bigintToDigits_def base hs_def del: emit_digits.simps)
    show "chunk_value (chars (hs @ emit_rest es 48)) = dval (bdigits b)"
      using hs es b by (simp add: chunk_value_append dval_Cons BIGINT_BASE_def power_mult)
    show "lengthBigint (bdigits b) = Some (int (length (hs @ emit_rest es 48)))"
      using hs es b d ic by (simp add: lengthBigint_def base) 
  qed (use hs es hd in auto)
qed

text \<open>(C11) Printing a well-formed non-zero big integer and reading the digits back
  gives the same sign and digits.\<close>

theorem bigint_print_read:
  assumes "wf_bigint b" "bval b \<noteq> 0"
  shows "\<exists>ds. bigintToDigits b 48 = Some ds \<and> strToBigint (chars ds) (length ds) = b"
proof -
  obtain ds where ds: "bigintToDigits b 48 = Some ((if bsign b = -1 then [45] else []) @ ds)"
    "chunk_value (chars ds) = dval (bdigits b)" "\<forall>c\<in>set (chars ds). is_digit c" "ds \<noteq> []"
    by (rule bigintToDigits_wf [OF assms])
  define sg where "sg = (if bsign b = -1 then ''-'' else '''')"
  let ?s = "(if bsign b = -1 then [45] else []) @ ds"
  have cs: "chars ?s = sg @ chars ds @ []" by (simp add: sg_def char_of_def)
  have sg: "sg = [] \<or> sg = ''-'' \<or> sg = ''+''" by (simp add: sg_def)
  have v: "bval (strToBigint (chars ?s) (length ?s)) = bval b" "wf_bigint (strToBigint (chars ?s) (length ?s))"
    using strToBigint_split [OF sg, of "chars ds" "[]"] ds assms cs 
    by (auto simp: sg_def bval_def wf_bigint_def)
  have "strToBigint (chars ?s) (length ?s) = b"
    using v assms bigint_eqI by blast
  then show ?thesis using ds(1) by blast
qed

theorem bigint_print_read_witness:
  "\<exists>ds. bigintToDigits \<lparr>bsign = -1, bdigits = [12, 0, 7]\<rparr> 48 = Some ds \<and>
     strToBigint (chars ds) (length ds) = \<lparr>bsign = -1, bdigits = [12, 0, 7]\<rparr>"
  by (rule bigint_print_read) (simp_all add: wf_bigint_def wf_mag_def bval_def dval_def BIGINT_BASE_def)

section \<open>Conversion to and from 64-bit integers\<close>

lemma wrap64_eq_iff: "wrap64 a = wrap64 b \<longleftrightarrow> a mod 2 ^ 64 = b mod 2 ^ 64"
  unfolding wrap64_def by (simp add: signed_take_bit_eq_iff_take_bit_eq take_bit_eq_mod)

lemma wrap64_mod: "wrap64 a mod 2 ^ 64 = a mod 2 ^ 64"
  using wrap64_eq_iff [of "wrap64 a" a] by simp

lemma foldl_wrap:
  "foldl (\<lambda>n d. wrap64 (n * BIGINT_BASE + d)) a ds mod 2 ^ 64 =
   (a * BIGINT_BASE ^ length ds + dval ds) mod 2 ^ 64"
proof (induction ds arbitrary: a)
  case (Cons d ds)
  let ?w = "wrap64 (a * BIGINT_BASE + d)"
  have "foldl (\<lambda>n d. wrap64 (n * BIGINT_BASE + d)) a (d # ds) mod 2 ^ 64 =
      (?w * BIGINT_BASE ^ length ds + dval ds) mod 2 ^ 64" using Cons.IH [of ?w] by simp
  also have "\<dots> = ((a * BIGINT_BASE + d) * BIGINT_BASE ^ length ds + dval ds) mod 2 ^ 64"
    by (metis (no_types, lifting) mod_add_left_eq mod_mult_left_eq wrap64_mod)
  finally show ?case by (simp add: dval_Cons algebra_simps)
qed simp

text \<open>(C19) The conversion to a 64-bit integer returns the value when it fits and raises
  \<open>ERR_NUMBER_OUT_OF_RANGE\<close> otherwise; the wrap-around of its loop never shows.\<close>

theorem bigintToInt64_correct:
  assumes "wf_bigint b"
  shows "bigintToInt64 b = (if int64 (bval b) then Inr (bval b) else Inl ERR_NUMBER_OUT_OF_RANGE)"
proof -
  let ?mx = "\<lparr>bsign = 1, bdigits = [9, 223372036, 854775807]\<rparr>" and ?mn = "\<lparr>bsign = -1, bdigits = [9, 223372036, 854775808]\<rparr>"
  have w: "wf_bigint ?mx" "wf_bigint ?mn" "bval ?mx = 2 ^ 63 - 1" "bval ?mn = - (2 ^ 63)"
    by (simp_all add: wf_bigint_def wf_mag_def BIGINT_BASE_def bval_def dval_Cons)
  have c: "cmpBigint b ?mx = 1 \<or> cmpBigint b ?mn = -1 \<longleftrightarrow> \<not> int64 (bval b)"
    unfolding cmpBigint_correct [OF assms w(1)] cmpBigint_correct [OF assms w(2)] w int64_def by (simp add: sgn_if)
  obtain d ds where b: "bdigits b = d # ds" using assms by (cases "bdigits b") (auto simp: wf_bigint_def wf_mag_def)
  let ?f = "foldl (\<lambda>n d. wrap64 (n * BIGINT_BASE + d)) d ds"
  have "?f mod 2 ^ 64 = dval (bdigits b) mod 2 ^ 64" using foldl_wrap [of d ds] b by (simp add: dval_Cons)
  then have "(?f * bsign b) mod 2 ^ 64 = (dval (bdigits b) * bsign b) mod 2 ^ 64" by (rule mod_mult_cong) simp
  then have "wrap64 (?f * bsign b) = wrap64 (bval b)" by (simp add: wrap64_eq_iff bval_def mult.commute)
  then show ?thesis using c b by (simp add: bigintToInt64_def Let_def)
qed

theorem bigintToInt64_witness:
  "bigintToInt64 \<lparr>bsign = -1, bdigits = [9, 223372036, 854775808]\<rparr> = Inr (- (2 ^ 63)) \<and>
   bigintToInt64 \<lparr>bsign = 1, bdigits = [9, 223372036, 854775808]\<rparr> = Inl ERR_NUMBER_OUT_OF_RANGE"
  using bigintToInt64_correct [of "\<lparr>bsign = -1, bdigits = [9, 223372036, 854775808]\<rparr>"]
    bigintToInt64_correct [of "\<lparr>bsign = 1, bdigits = [9, 223372036, 854775808]\<rparr>"]
  by (simp add: wf_bigint_def wf_mag_def bval_def dval_def BIGINT_BASE_def int64_def)

definition int_split_ok :: "int \<Rightarrow> bool" where
  "int_split_ok n \<longleftrightarrow> n \<le> BIGINT_BASE2 \<or> n mod BIGINT_BASE2 > BIGINT_BASE"

lemma base2: "BIGINT_BASE2 = BIGINT_BASE * BIGINT_BASE" "0 < BIGINT_BASE2"
  by (simp_all add: BIGINT_BASE_def BIGINT_BASE2_def)

lemma int32_small: "0 \<le> x \<Longrightarrow> x \<le> BIGINT_BASE \<Longrightarrow> signed_take_bit 31 x = x"
  by (simp add: signed_take_bit_int_eq_self BIGINT_BASE_def)

lemma intToBigint_digits:
  assumes "0 \<le> n"
  shows "intToBigint n = \<lparr>bsign = 1, bdigits =
     (if n > BIGINT_BASE2
      then if n mod BIGINT_BASE2 > BIGINT_BASE
           then [n div BIGINT_BASE2, n mod BIGINT_BASE2 div BIGINT_BASE, n mod BIGINT_BASE2 mod BIGINT_BASE]
           else [n div BIGINT_BASE2, n mod BIGINT_BASE2]
      else if n > BIGINT_BASE then [n div BIGINT_BASE, n mod BIGINT_BASE] else [n])\<rparr>"
proof -
  have s: "a sdiv BIGINT_BASE = a div BIGINT_BASE" "a sdiv BIGINT_BASE2 = a div BIGINT_BASE2" if "0 \<le> a" for a
    using that by (simp_all add: sdiv_nonneg base2(2))
  have m: "0 \<le> a mod BIGINT_BASE2" "signed_take_bit 31 (a mod BIGINT_BASE) = a mod BIGINT_BASE" for a
    using base2(2) int32_small [of "a mod BIGINT_BASE"] order_less_imp_le [OF pos_mod_bound [of BIGINT_BASE a]] by auto
  show ?thesis using assms m int32_small [of "n mod BIGINT_BASE2"] int32_small [of n]
    by (auto simp: intToBigint_def Let_def s minus_div_mult_eq_mod)
qed

lemma intToBigint_neg:
  assumes "int64 n" "n < 0" "n \<noteq> - (2 ^ 63)"
  shows "intToBigint n = (intToBigint (- n))\<lparr>bsign := -1\<rparr>"
proof -
  have "wrap64 (- n) = - n" using assms by (intro wrap64_id) (auto simp: int64_def)
  then show ?thesis using assms by (auto simp: intToBigint_def Let_def)
qed

lemma intToBigint_mag:
  assumes "0 \<le> n" "n < 2 ^ 63"
  shows "int_split_ok n \<Longrightarrow> dval (bdigits (intToBigint n)) = n"
    "\<not> int_split_ok n \<Longrightarrow> dval (bdigits (intToBigint n)) = (n div BIGINT_BASE2) * BIGINT_BASE + n mod BIGINT_BASE2"
    "int_split_ok n \<Longrightarrow> n \<noteq> BIGINT_BASE \<Longrightarrow> n \<noteq> BIGINT_BASE2 \<Longrightarrow> wf_mag (bdigits (intToBigint n))"
proof -
  let ?m = "n mod BIGINT_BASE2"
  have e: "n div BIGINT_BASE2 * BIGINT_BASE * BIGINT_BASE + ?m = n" by (simp flip: base2(1) add: mult.assoc)
  have v3: "n div BIGINT_BASE2 * BIGINT_BASE * BIGINT_BASE + (?m div BIGINT_BASE * BIGINT_BASE + ?m mod BIGINT_BASE) = n"
    using e by simp
  show "int_split_ok n \<Longrightarrow> dval (bdigits (intToBigint n)) = n"
    "\<not> int_split_ok n \<Longrightarrow> dval (bdigits (intToBigint n)) = (n div BIGINT_BASE2) * BIGINT_BASE + n mod BIGINT_BASE2"
    using v3 by (auto simp: intToBigint_digits [OF assms(1)] int_split_ok_def dval_Cons mult.assoc)
  assume ok: "int_split_ok n" "n \<noteq> BIGINT_BASE" "n \<noteq> BIGINT_BASE2"
  have d2: "n div BIGINT_BASE2 < BIGINT_BASE" "?m div BIGINT_BASE < BIGINT_BASE"
    using assms pos_mod_bound [OF base2(2), of n]
    by (auto intro!: div_less_if_less_mult simp: base2 simp flip: base2(1)) (auto simp: BIGINT_BASE_def BIGINT_BASE2_def)
  have d1: "n \<le> BIGINT_BASE2 \<Longrightarrow> n div BIGINT_BASE < BIGINT_BASE" 
    using ok by (intro div_less_if_less_mult) (auto simp: base2)
  have p: "n > BIGINT_BASE2 \<Longrightarrow> 0 < n div BIGINT_BASE2" "n > BIGINT_BASE \<Longrightarrow> 0 < n div BIGINT_BASE" "0 \<le> ?m div BIGINT_BASE"
    using base2(2) by (auto simp: pos_imp_zdiv_pos_iff pos_imp_zdiv_nonneg_iff)
  show "wf_mag (bdigits (intToBigint n))"
    using ok d1 d2 p assms by (auto simp: intToBigint_digits [OF assms(1)] int_split_ok_def wf_mag_def)
qed

lemma intToBigint_ok:
  assumes "int64 n" "n \<noteq> - (2 ^ 63)" "int_split_ok \<bar>n\<bar>"
  shows "bval (intToBigint n) = n \<and>
    (\<bar>n\<bar> \<noteq> BIGINT_BASE \<and> \<bar>n\<bar> \<noteq> BIGINT_BASE2 \<longrightarrow> wf_bigint (intToBigint n))"
proof -
  have b: "0 \<le> \<bar>n\<bar>" "\<bar>n\<bar> < 2 ^ 63" using assms by (auto simp: int64_def abs_if)
  have e: "intToBigint n = (intToBigint \<bar>n\<bar>)\<lparr>bsign := (if n < 0 then -1 else 1)\<rparr>"
    using intToBigint_neg [OF assms(1) _ assms(2)] by (auto simp: intToBigint_digits)
  show ?thesis unfolding e using intToBigint_mag(1,3) [OF b assms(3)] by (simp add: bval_def wf_bigint_def)
qed

text \<open>(C20) A 64-bit integer above \<open>BIGINT_BASE2\<close> whose remainder modulo
  \<open>BIGINT_BASE2\<close> is at most \<open>BIGINT_BASE\<close> is converted to a wrong big integer: the zero
  digit in the middle is left out.\<close>

theorem intToBigint_drops_middle_digit:
  assumes "BIGINT_BASE2 < n" "n < 2 ^ 63" "n mod BIGINT_BASE2 \<le> BIGINT_BASE"
  shows "bval (intToBigint n) = (n div BIGINT_BASE2) * BIGINT_BASE + n mod BIGINT_BASE2 \<and>
    bval (intToBigint n) \<noteq> n"
proof -
  have n0: "0 \<le> n" "\<not> int_split_ok n" using assms by (auto simp: int_split_ok_def BIGINT_BASE2_def)
  then have v: "bval (intToBigint n) = (n div BIGINT_BASE2) * BIGINT_BASE + n mod BIGINT_BASE2"
    using intToBigint_mag(2) [OF n0(1) assms(2) n0(2)] by (simp add: bval_def intToBigint_digits)
  have "0 < n div BIGINT_BASE2" using assms base2(2) by (simp add: pos_imp_zdiv_pos_iff)
  then have "(n div BIGINT_BASE2) * BIGINT_BASE < (n div BIGINT_BASE2) * BIGINT_BASE2"
    by (simp add: BIGINT_BASE_def BIGINT_BASE2_def)
  then show ?thesis using v div_mult_mod_eq [of n BIGINT_BASE2] by linarith
qed

theorem intToBigint_drops_middle_digit_witness:
  "bval (intToBigint 1000000000000000005) = 1000000005"
  using intToBigint_drops_middle_digit [of 1000000000000000005]
  by (simp add: BIGINT_BASE_def BIGINT_BASE2_def)

end
