(* ===== verification/NL_Double.thy ===== *)
theory NL_Double
  imports NL_BigDiv "HOL-Library.Log_Nat"
begin

text \<open>
  A rounding of rationals that meets \<open>ieee_double\<close>: to 53 significant bits from 1 on and to
  multiples of \<open>2 ^ - 52\<close> below. It shows that the hypothesis of the division theorems can
  hold, and it completes the division to an interpretation of \<open>integer_division\<close>.
\<close>

section \<open>Rounding\<close>

text \<open>The exponent of the power of two below a number.\<close>

definition binade :: "rat \<Rightarrow> nat" where
  "binade a = (if a < 1 then 0 else floorlog 2 (nat \<lfloor>a\<rfloor>) - 1)"

definition round_pos :: "rat \<Rightarrow> rat" where
  "round_pos a = of_int (round (a * 2 ^ 52 / 2 ^ binade a)) * 2 ^ binade a / 2 ^ 52"

definition round_double :: "rat \<Rightarrow> rat" where
  "round_double a = (if a < 0 then - round_pos (- a) else round_pos a)"

lemma binade_bounds: "1 \<le> a \<Longrightarrow> 2 ^ binade a \<le> a \<and> a < 2 ^ Suc (binade a)"
proof -
  assume a: "1 \<le> a"
  define n where "n = nat \<lfloor>a\<rfloor>"
  have n: "0 < n" "of_nat n \<le> a" "a < of_nat n + 1" using a floor_correct [of a] by (auto simp: n_def le_floor_iff)
  have b: "2 ^ (floorlog 2 n - 1) \<le> n \<and> n < 2 ^ floorlog 2 n" using floorlog_bounds [of n 2] n by simp
  have f: "0 < floorlog 2 n" using n by (simp add: floorlog_def)
  have "(2::rat) ^ (floorlog 2 n - 1) \<le> of_nat n" using b by (metis of_nat_le_iff of_nat_numeral of_nat_power)
  then have "(2::rat) ^ (floorlog 2 n - 1) \<le> a" using n(2) by (rule order.trans)
  moreover have "of_nat (n + 1) \<le> (2::rat) ^ floorlog 2 n" using b by (metis Suc_eq_plus1 Suc_leI of_nat_le_iff of_nat_numeral of_nat_power)
  ultimately show ?thesis using n f a by (auto simp: binade_def n_def [symmetric])
qed

lemma binade_small: "a < 1 \<Longrightarrow> binade a = 0"
  by (simp add: binade_def)

lemma binade_mono: "a \<le> b \<Longrightarrow> binade a \<le> binade b"
proof (cases "a < 1")
  case False
  assume "a \<le> b"
  then have "2 ^ binade a \<le> a" "a < 2 ^ Suc (binade b)" using False binade_bounds [of a] binade_bounds [of b] by auto
  then have "(2::rat) ^ binade a < 2 ^ Suc (binade b)" by linarith
  then have "binade a < Suc (binade b)" by (simp only: power_strict_increasing_iff)
  then show ?thesis by simp
qed (simp add: binade_small)

lemma round_pos_mono:
  assumes "0 \<le> a" "a \<le> b"
  shows "round_pos a \<le> round_pos b"
proof (cases "binade a = binade b")
  case True
  then have "round (a * 2 ^ 52 / 2 ^ binade a) \<le> round (b * 2 ^ 52 / 2 ^ binade b)"
    using assms by (intro round_mono) (auto simp: divide_right_mono)
  then show ?thesis using True unfolding round_pos_def by (auto intro!: divide_right_mono mult_right_mono)
next
  case False
  then have lt: "Suc (binade a) \<le> binade b" using binade_mono [OF assms(2)] by simp
  then have b1: "1 \<le> b" using binade_small [of b] by fastforce
  have "a < 2 ^ Suc (binade a)" using binade_bounds [of a] binade_small [of a] by fastforce
  then have "a * 2 ^ 52 / 2 ^ binade a \<le> of_int (2 ^ 53)" by (simp add: field_simps)
  then have "round (a * 2 ^ 52 / 2 ^ binade a) \<le> 2 ^ 53" using round_mono round_of_int by metis
  then have "of_int (round (a * 2 ^ 52 / 2 ^ binade a)) \<le> (2 ^ 53 :: rat)"
    by (metis of_int_le_iff of_int_numeral of_int_power)
  then have "round_pos a \<le> 2 ^ 53 * 2 ^ binade a / 2 ^ 52" unfolding round_pos_def by (intro divide_right_mono mult_right_mono) auto
  also have "\<dots> = 2 ^ Suc (binade a)" by simp
  also have "\<dots> \<le> 2 ^ binade b" using lt by (intro power_increasing) auto
  also have "\<dots> = 2 ^ 52 * 2 ^ binade b / 2 ^ 52" by simp
  also have "\<dots> \<le> round_pos b"
  proof -
    have "of_int (2 ^ 52) \<le> b * 2 ^ 52 / 2 ^ binade b" using binade_bounds [OF b1] by (simp add: field_simps)
    then have "2 ^ 52 \<le> round (b * 2 ^ 52 / 2 ^ binade b)" using round_mono round_of_int by metis
    then have "(2 ^ 52 :: rat) \<le> of_int (round (b * 2 ^ 52 / 2 ^ binade b))"
      by (metis of_int_le_iff of_int_numeral of_int_power)
    then show ?thesis unfolding round_pos_def by (intro divide_right_mono mult_right_mono) auto
  qed
  finally show ?thesis .
qed

lemma round_pos_nonneg: "0 \<le> a \<Longrightarrow> 0 \<le> round_pos a"
  using round_pos_mono [of 0 a] by (simp add: round_pos_def)

lemma round_double_mono: "a \<le> b \<Longrightarrow> round_double a \<le> round_double b"
  unfolding round_double_def
  using round_pos_mono [of a b] round_pos_mono [of "- b" "- a"] round_pos_nonneg [of "- a"] round_pos_nonneg [of b]
  by auto

lemma round_pos_exact:
  assumes "0 \<le> m" "m \<le> 2 ^ 53"
  shows "round_pos (of_int (m * 2 ^ k)) = of_int (m * 2 ^ k)"
proof (cases "m = 0")
  case False
  let ?a = "rat_of_int (m * 2 ^ k)"
  have "1 \<le> m * 2 ^ k" using False assms by (simp add: zero_less_mult_iff int_one_le_iff_zero_less)
  then have "1 \<le> ?a" by (metis of_int_1 of_int_le_iff)
  note b = binade_bounds [OF this]
  have "m * 2 ^ k \<le> 2 ^ 53 * 2 ^ k" using assms by simp
  then have "?a \<le> of_int (2 ^ 53 * 2 ^ k)" by (simp only: of_int_le_iff)
  then have le: "?a \<le> 2 ^ (53 + k)" by (simp add: power_add)
  have "(2::rat) ^ binade ?a \<le> 2 ^ (53 + k)" using b le by linarith
  then have "binade ?a \<le> 53 + k" by simp
  then consider "binade ?a \<le> 52 + k" | "binade ?a = 53 + k" by linarith
  then have "\<exists>i. ?a * 2 ^ 52 / 2 ^ binade ?a = of_int i"
  proof cases
    case 1
    have "(2::rat) ^ (52 + k) = 2 ^ (52 + k - binade ?a) * 2 ^ binade ?a" using 1 by (simp flip: power_add)
    then have "?a * 2 ^ 52 / 2 ^ binade ?a = of_int (m * 2 ^ (52 + k - binade ?a))"
      by (simp add: power_add field_simps)
    then show ?thesis by blast
  next
    case 2
    then have "?a = 2 ^ binade ?a" using b le by simp
    have "?a * 2 ^ 52 / 2 ^ binade ?a = 2 ^ 52 * (?a / 2 ^ binade ?a)" by simp
    also have "?a / 2 ^ binade ?a = 1" using \<open>?a = 2 ^ binade ?a\<close> by (metis divide_self power_not_zero zero_neq_numeral)
    finally show ?thesis by (intro exI [of _ "2 ^ 52"]) simp
  qed
  then show ?thesis unfolding round_pos_def by (metis (no_types, lifting) round_of_int nonzero_mult_div_cancel_right nonzero_eq_divide_eq power_not_zero zero_neq_numeral)
qed (simp add: round_pos_def)

lemma round_pos_error:
  assumes "1 \<le> a"
  shows "\<bar>round_pos a - a\<bar> \<le> a / 2 ^ 53"
proof -
  let ?x = "a * 2 ^ 52 / 2 ^ binade a"
  have "round_pos a - a = (of_int (round ?x) - ?x) * 2 ^ binade a / 2 ^ 52"
    unfolding round_pos_def by (simp add: field_simps)
  then have "\<bar>round_pos a - a\<bar> = \<bar>of_int (round ?x) - ?x\<bar> * 2 ^ binade a / 2 ^ 52"
    by (simp only: abs_mult abs_divide power_abs abs_numeral)
  also have "\<dots> \<le> 1 / 2 * 2 ^ binade a / 2 ^ 52"
    using of_int_round_abs_le [of ?x] by (intro divide_right_mono mult_right_mono) auto
  also have "\<dots> \<le> 1 / 2 * a / 2 ^ 52" using binade_bounds [OF assms] by (intro divide_right_mono mult_left_mono) auto
  finally show ?thesis by simp
qed

lemma ieee_round_double: "ieee_double round_double"
proof -
  have "round_double (of_int (m * 2 ^ k)) = of_int (m * 2 ^ k)" if "\<bar>m\<bar> \<le> 2 ^ 53" for m k
  proof (cases "m < 0")
    case True
    then have "rat_of_int (m * 2 ^ k) < 0" by (simp add: mult_less_0_iff)
    moreover have "round_pos (of_int ((- m) * 2 ^ k)) = of_int ((- m) * 2 ^ k)" using that True by (intro round_pos_exact) auto
    ultimately show ?thesis by (simp add: round_double_def)
  next
    case False
    then have "\<not> rat_of_int (m * 2 ^ k) < 0" by (simp add: mult_less_0_iff)
    then show ?thesis using round_pos_exact [of m k] that False by (simp add: round_double_def)
  qed
  moreover have "\<bar>round_double a - a\<bar> \<le> \<bar>a\<bar> / 2 ^ 53" if "1 \<le> \<bar>a\<bar>" for a
    using round_pos_error [of a] round_pos_error [of "- a"] that
    by (auto simp: round_double_def abs_if split: if_splits)
  ultimately show ?thesis using round_double_mono by (simp add: ieee_double_def)
qed

section \<open>Division as integer division\<close>

locale double_rounding =
  fixes fl :: "rat \<Rightarrow> rat"
  assumes ieee: "ieee_double fl"

lemma divModBigint_zero:
  assumes "wf_bigint y" "bval y = 0"
  shows "divModBigint fl x y m = Some (Inl ERR_MATH)"
proof -
  have "dval (bdigits y) = 0" using assms by (auto simp: bval_def wf_bigint_def)
  then show ?thesis using assms dval_zero_iff [of "bdigits y"] 
    by (cases "bdigits y") (auto simp: divModBigint_def wf_bigint_def)
qed

sublocale double_rounding \<subseteq> big: integer_division wf_bigint bval addBigint subBigint mulBigint cmpBigint "divModBigint fl"
  using divModBigint_correct [OF ieee] divModBigint_zero
  by unfold_locales blast+

context double_rounding
begin

lemma div_mod_reconstruct:
  assumes "wf_bigint x" "wf_bigint y" "bval y \<noteq> 0" "divModBigint fl x y False = Some (Inr q)"
    "divModBigint fl x y True = Some (Inr r)"
  shows "cmpBigint (addBigint (mulBigint q y) r) x = 0"
  using big.div_mod_inverse [OF assms(1-3)] assms(4,5) by auto

end

interpretation ieee: double_rounding round_double
  by unfold_locales (rule ieee_round_double)

text \<open>(C9) Long division of big integers always returns: it raises \<open>ERR_MATH\<close> for a zero
  divisor and otherwise gives the quotient truncated towards zero, or the remainder with the
  dividend's sign, both well formed; quotient times divisor plus remainder compares equal to the
  dividend. This holds for every rounding of the double arithmetic behind the guessed quotient
  digits that has the properties \<open>ieee_double\<close>; in particular the guesses are never too
  small, since the code only corrects them downwards.\<close>

theorem bigint_division:
  assumes "ieee_double fl" "wf_bigint x" "wf_bigint y"
  shows "if bval y = 0
    then divModBigint fl x y False = Some (Inl ERR_MATH) \<and> divModBigint fl x y True = Some (Inl ERR_MATH)
    else \<exists>q r. divModBigint fl x y False = Some (Inr q) \<and> divModBigint fl x y True = Some (Inr r) \<and>
      bval q = bval x sdiv bval y \<and> bval r = bval x smod bval y \<and> wf_bigint q \<and> wf_bigint r \<and>
      cmpBigint (addBigint (mulBigint q y) r) x = 0"
proof (cases "bval y = 0")
  case False
  note r = double_rounding.intro [OF assms(1)]
  show ?thesis
    using divModBigint_correct [OF assms False] double_rounding.div_mod_reconstruct [OF r assms(2,3) False]
      False by auto
qed (use assms in \<open>simp add: divModBigint_zero\<close>)

theorem bigint_division_witness:
  "ieee_double round_double \<and>
   (\<exists>q. divModBigint round_double \<lparr>bsign = -1, bdigits = [7, 0, 3]\<rparr> \<lparr>bsign = 1, bdigits = [2, 1]\<rparr> False =
      Some (Inr q) \<and> bval q = - 3499999998)"
proof -
  let ?x = "\<lparr>bsign = -1, bdigits = [7, 0, 3]\<rparr>" and ?y = "\<lparr>bsign = 1, bdigits = [2, 1]\<rparr>"
  have w: "wf_bigint ?x" "wf_bigint ?y" "bval ?y = 2000000001" "bval ?x = - 7000000000000000003"
    by (simp_all add: wf_bigint_def wf_mag_def bval_def dval_def BIGINT_BASE_def)
  have "bval ?x sdiv bval ?y = - 3499999998" unfolding w by code_simp
  then show ?thesis using bigint_division [OF ieee_round_double w(1,2)] w(3) ieee_round_double by auto
qed

end
