(* ===== verification/NL_Cell.thy ===== *)
theory NL_Cell
  imports NL_BigConv NL_Double
begin

text \<open>
  The cell, newLISP's one data structure (\<^verbatim>\<open>newlisp.h\<close>), the conversions of number
  cells (\<^verbatim>\<open>getInteger64Ext\<close>, \<^verbatim>\<open>getDirectFloat\<close>,
  \<^verbatim>\<open>getBigintSizeDirect\<close>, \<^verbatim>\<open>isZero\<close>) and the comparison of arbitrary cells
  (\<^verbatim>\<open>compareCells\<close> and its helpers in \<^verbatim>\<open>nl-math.c\<close>), which sorting,
  searching and the relational operators use. The configuration is that of a 64-bit Unix:
  \<^verbatim>\<open>NEWLISP64\<close> and \<^verbatim>\<open>BIGINT\<close> are set and there is no
  \<^verbatim>\<open>CELL_INT64\<close>. The lemmas show on which cells the comparison is a total preorder.
\<close>

section \<open>Cells\<close>

text \<open>A double: the two zeros are not told apart, no modelled operation does.\<close>

datatype dbl = NaN | PInf | NInf | Fin rat

text \<open>A symbol is interned, so its address and the pair of its context's name and its own
  name identify each other. The addresses themselves are part of the machine below.\<close>

record symbol =
  scontext :: string
  sname :: string

definition nilSymbol :: symbol where
  "nilSymbol = \<lparr>scontext = ''MAIN'', sname = ''nil''\<rparr>"

definition trueSymbol :: symbol where
  "trueSymbol = \<lparr>scontext = ''MAIN'', sname = ''true''\<rparr>"

datatype cell =
    CELL_NIL
  | CELL_TRUE
  | CELL_LONG int
  | CELL_BIGINT bigint
  | CELL_FLOAT dbl
  | CELL_STRING string
  | CELL_SYMBOL symbol
  | CELL_CONTEXT symbol
  | CELL_PRIMITIVE int
  | CELL_QUOTE cell
  | CELL_EXPRESSION "cell list"
  | CELL_LAMBDA "cell list"
  | CELL_FEXPR "cell list"
  | CELL_ARRAY "cell list"
  | CELL_DYN_SYMBOL string string

text \<open>What the code takes from its surroundings: the rounding of double arithmetic, the C
  library's logarithm and power function, the address of a symbol, by which contexts are
  compared, and the contents of a context's default functor.\<close>

record machine =
  rnd :: "rat \<Rightarrow> rat"
  flog :: "rat \<Rightarrow> rat"
  fpow :: "rat \<Rightarrow> int \<Rightarrow> rat"
  addr :: "symbol \<Rightarrow> int"
  deflt :: "symbol \<Rightarrow> cell"

text \<open>A machine whose doubles round like \<open>round_double\<close>.\<close>

definition rounding_machine :: machine where
  "rounding_machine =
     \<lparr>rnd = round_double, flog = (\<lambda>x. x), fpow = (\<lambda>b k. if k < 0 then 1 / b ^ nat (- k) else b ^ nat k),
      addr = (\<lambda>s. 0), deflt = (\<lambda>s. CELL_NIL)\<rparr>"

lemma rounding_machine_ieee [simp]: "ieee_double (rnd rounding_machine)"
  by (simp add: rounding_machine_def ieee_round_double)

text \<open>The low four bits of the type field.\<close>

fun compare_type :: "cell \<Rightarrow> int" where
  "compare_type CELL_NIL = 0"
| "compare_type CELL_TRUE = 1"
| "compare_type (CELL_LONG _) = 2"
| "compare_type (CELL_BIGINT _) = 2"
| "compare_type (CELL_FLOAT _) = 3"
| "compare_type (CELL_STRING _) = 4"
| "compare_type (CELL_SYMBOL _) = 5"
| "compare_type (CELL_CONTEXT _) = 6"
| "compare_type (CELL_PRIMITIVE _) = 7"
| "compare_type (CELL_QUOTE _) = 10"
| "compare_type (CELL_EXPRESSION _) = 11"
| "compare_type (CELL_LAMBDA _) = 12"
| "compare_type (CELL_FEXPR _) = 13"
| "compare_type (CELL_ARRAY _) = 14"
| "compare_type (CELL_DYN_SYMBOL _ _) = 15"

fun isNumber :: "cell \<Rightarrow> bool" where
  "isNumber (CELL_LONG _) = True"
| "isNumber (CELL_BIGINT _) = True"
| "isNumber (CELL_FLOAT _) = True"
| "isNumber _ = False"

fun isList :: "cell \<Rightarrow> bool" where
  "isList (CELL_EXPRESSION _) = True"
| "isList (CELL_LAMBDA _) = True"
| "isList (CELL_FEXPR _) = True"
| "isList _ = False"

fun isNil :: "cell \<Rightarrow> bool" where
  "isNil CELL_NIL = True"
| "isNil (CELL_SYMBOL s) = (s = nilSymbol)"
| "isNil _ = False"

fun isTrue :: "cell \<Rightarrow> bool" where
  "isTrue CELL_TRUE = True"
| "isTrue (CELL_SYMBOL s) = (s = trueSymbol)"
| "isTrue _ = False"

section \<open>Number cells\<close>

text \<open>The conversion of a double to an integer cuts the fraction off.\<close>

definition trunc :: "rat \<Rightarrow> int" where
  "trunc r = (if r < 0 then - \<lfloor>- r\<rfloor> else \<lfloor>r\<rfloor>)"

text \<open>The bound \<^verbatim>\<open>9223372036854775807.0\<close> of the source is the double \<open>2 ^ 63\<close>. A
  double equal to it passes the test, and the conversion of x86-64 then gives the least
  \<^verbatim>\<open>INT64\<close>.\<close>

fun getInteger64Ext :: "cell \<Rightarrow> int result" where
  "getInteger64Ext (CELL_LONG n) = Inr n"
| "getInteger64Ext (CELL_FLOAT NaN) = Inr 0"
| "getInteger64Ext (CELL_FLOAT PInf) = Inr (2 ^ 63 - 1)"
| "getInteger64Ext (CELL_FLOAT NInf) = Inr (- (2 ^ 63))"
| "getInteger64Ext (CELL_FLOAT (Fin r)) =
     (if r > 2 ^ 63 then Inr (2 ^ 63 - 1)
      else if r < - (2 ^ 63) then Inr (- (2 ^ 63))
      else Inr (wrap64 (trunc r)))"
| "getInteger64Ext (CELL_BIGINT b) = bigintToInt64 b"
| "getInteger64Ext _ = Inl ERR_NUMBER_EXPECTED"

fun isZero :: "cell \<Rightarrow> bool" where
  "isZero (CELL_FLOAT (Fin r)) = (r = 0)"
| "isZero (CELL_LONG n) = (n = 0)"
| "isZero (CELL_BIGINT b) = (length (bdigits b) = 1 \<and> bdigits b ! 0 = 0)"
| "isZero _ = False"

text \<open>The largest value the conversions let through, \<^verbatim>\<open>1.797693134862301e308\<close>.\<close>

definition FLOAT_LIMIT :: rat where
  "FLOAT_LIMIT = 1797693134862301 * 10 ^ 293"

fun big_float_loop :: "(rat \<Rightarrow> rat) \<Rightarrow> rat \<Rightarrow> int list \<Rightarrow> rat option" where
  "big_float_loop fl v [] = Some v"
| "big_float_loop fl v (d # ds) =
     (let v' = fl (fl (v * of_int BIGINT_BASE) + of_int d)
      in if v' > FLOAT_LIMIT then None else big_float_loop fl v' ds)"

definition bigintCellToFloat :: "machine \<Rightarrow> bigint \<Rightarrow> dbl" where
  "bigintCellToFloat M b =
     (case bdigits b of
        [] \<Rightarrow> Fin 0
      | d # ds \<Rightarrow>
          (case big_float_loop (rnd M) (of_int d) ds of
             None \<Rightarrow> PInf
           | Some v \<Rightarrow> Fin (v * of_int (bsign b))))"

fun getDirectFloat :: "machine \<Rightarrow> cell \<Rightarrow> dbl" where
  "getDirectFloat M (CELL_FLOAT d) = d"
| "getDirectFloat M (CELL_LONG n) = Fin (rnd M (of_int n))"
| "getDirectFloat M (CELL_BIGINT b) = bigintCellToFloat M b"
| "getDirectFloat M _ = Fin 0"

text \<open>The three leading digits of \<^verbatim>\<open>floatToBigint\<close>; the further ones stay 0 from
  \<^verbatim>\<open>calloc\<close>. The allocation holds three more integers than the number has digits and
  the loop always writes three, so digits of the fraction can land behind the number, where
  the length cuts them off.\<close>

fun float_digits :: "machine \<Rightarrow> nat \<Rightarrow> int \<Rightarrow> rat \<Rightarrow> int list" where
  "float_digits M 0 k f = []"
| "float_digits M (Suc n) k f =
     (let p = fpow M (of_int BIGINT_BASE) (k - 1);
          inum = trunc (rnd M (f / p))
      in inum # float_digits M n (k - 1) (rnd M (f - rnd M (of_int inum * p))))"

definition floatToBigint :: "machine \<Rightarrow> dbl \<Rightarrow> bigint result" where
  "floatToBigint M d =
     (case d of
        PInf \<Rightarrow> Inl ERR_CANNOT_CONVERT
      | NInf \<Rightarrow> Inl ERR_CANNOT_CONVERT
      | NaN \<Rightarrow> Inr \<lparr>bsign = 1, bdigits = [0]\<rparr>
      | Fin r \<Rightarrow>
          (let sign = (if r < 0 then -1 else 1);
               f = min (r * of_int sign) FLOAT_LIMIT;
               decDigits = (if f = 0 then 0
                            else trunc (rnd M (rnd M (flog M f / flog M 10) + 1)))
           in if decDigits \<le> 0 then Inr \<lparr>bsign = 1, bdigits = [0]\<rparr>
              else
                let bigDigits = (decDigits - 1) div 9 + 1
                in Inr \<lparr>bsign = sign, bdigits =
                          take (nat bigDigits) (float_digits M 3 bigDigits f @
                                                replicate (nat bigDigits) 0)\<rparr>))"

fun getBigintSizeDirect :: "machine \<Rightarrow> cell \<Rightarrow> bigint result" where
  "getBigintSizeDirect M (CELL_LONG n) = Inr (intToBigint n)"
| "getBigintSizeDirect M (CELL_FLOAT d) = floatToBigint M d"
| "getBigintSizeDirect M (CELL_BIGINT b) = Inr b"
| "getBigintSizeDirect M _ = Inl ERR_NUMBER_EXPECTED"

section \<open>Comparison\<close>

text \<open>The comparisons return -1, 0 and 1, or 9 when a NaN is involved. They return an error
  where the code raises one.\<close>

fun memcmp :: "string \<Rightarrow> string \<Rightarrow> nat \<Rightarrow> int" where
  "memcmp (x # xs) (y # ys) (Suc n) =
     (if x \<noteq> y then byte x - byte y else memcmp xs ys n)"
| "memcmp _ _ _ = 0"

fun strcmp :: "string \<Rightarrow> string \<Rightarrow> int" where
  "strcmp [] [] = 0"
| "strcmp [] (y # ys) = - byte y"
| "strcmp (x # xs) [] = byte x"
| "strcmp (x # xs) (y # ys) =
     (if x \<noteq> y then byte x - byte y else strcmp xs ys)"

definition compareDoubles :: "dbl \<Rightarrow> dbl \<Rightarrow> int" where
  "compareDoubles l r =
     (case (l, r) of
        (NaN, _) \<Rightarrow> 9
      | (_, NaN) \<Rightarrow> 9
      | (Fin a, Fin b) \<Rightarrow> if a < b then -1 else if a > b then 1 else 0
      | (PInf, PInf) \<Rightarrow> 0
      | (NInf, NInf) \<Rightarrow> 0
      | (PInf, _) \<Rightarrow> 1
      | (_, PInf) \<Rightarrow> -1
      | (NInf, _) \<Rightarrow> -1
      | (_, NInf) \<Rightarrow> 1)"

definition compareFloats :: "machine \<Rightarrow> cell \<Rightarrow> cell \<Rightarrow> int" where
  "compareFloats M left right = compareDoubles (getDirectFloat M left) (getDirectFloat M right)"

fun compareInts :: "machine \<Rightarrow> cell \<Rightarrow> cell \<Rightarrow> int result" where
  "compareInts M (CELL_BIGINT l) right =
     (case getBigintSizeDirect M right of
        Inl e \<Rightarrow> Inl e
      | Inr r \<Rightarrow> Inr (cmpBigint l r))"
| "compareInts M left right =
     (case (getInteger64Ext left, getInteger64Ext right) of
        (Inl e, _) \<Rightarrow> Inl e
      | (_, Inl e) \<Rightarrow> Inl e
      | (Inr a, Inr b) \<Rightarrow> Inr (if a < b then -1 else if a > b then 1 else 0))"

text \<open>The names a symbol cell is compared by: those of the symbol, or the ones a dynamic
  symbol carries.\<close>

fun symbol_names :: "cell \<Rightarrow> string \<times> string" where
  "symbol_names (CELL_SYMBOL s) = (scontext s, sname s)"
| "symbol_names (CELL_DYN_SYMBOL c n) = (c, n)"
| "symbol_names _ = ([], [])"

definition compareSymbols :: "cell \<Rightarrow> cell \<Rightarrow> int" where
  "compareSymbols left right =
     (if left = CELL_SYMBOL nilSymbol
      then if right = CELL_SYMBOL nilSymbol then 0 else -1
      else if left = CELL_SYMBOL trueSymbol
      then if right = CELL_SYMBOL trueSymbol then 0
           else if right = CELL_SYMBOL nilSymbol then 1 else -1
      else if right = CELL_SYMBOL nilSymbol \<or> right = CELL_SYMBOL trueSymbol then 1
      else
        let (lcName, lsName) = symbol_names left; (rcName, rsName) = symbol_names right;
            comp = (if strcmp lcName rcName = 0 then strcmp lsName rsName else strcmp lcName rcName)
        in if comp = 0 then 0 else if comp > 0 then 1 else -1)"

definition compareStrings :: "string \<Rightarrow> string \<Rightarrow> int" where
  "compareStrings l r =
     (let d = int (length l) - int (length r)
      in if d = 0 then (let c = memcmp l r (length l) in if c = 0 then 0 else if c > 0 then 1 else -1)
         else if d > 0
         then (let c = memcmp l r (length r) in if c = 0 then 1 else if c > 0 then 1 else -1)
         else (let c = memcmp l r (length l) in if c = 0 then -1 else if c > 0 then 1 else -1))"

text \<open>The cases of \<^verbatim>\<open>compareCells\<close> for cells of different type.\<close>

definition compareMixed :: "machine \<Rightarrow> cell \<Rightarrow> cell \<Rightarrow> int result" where
  "compareMixed M left right =
     (if compare_type left = 3 \<and> compare_type right = 2 then Inr (compareFloats M left right)
      else if compare_type left = 2 \<and> compare_type right = 3 then Inr (compareFloats M left right)
      else if compare_type left = 2 \<and> compare_type right = 2 then compareInts M left right
      else if isNil left then Inr (if isNil right then 0 else -1)
      else if isTrue left then Inr (if isTrue right then 0 else if isNil right then 1 else -1)
      else if isNil right \<or> isTrue right then Inr 1
      else if compare_type left \<in> {5, 15} \<and> compare_type right \<in> {5, 15}
      then Inr (compareSymbols left right)
      else
        (case (left, right) of
           (CELL_SYMBOL s, CELL_CONTEXT c) \<Rightarrow>
             Inr (let comp = strcmp (sname s) (sname c)
                  in if comp = 0 then 0 else if comp > 0 then 1 else -1)
         | (CELL_CONTEXT c, CELL_SYMBOL s) \<Rightarrow>
             Inr (let comp = strcmp (sname c) (sname s)
                  in if comp = 0 then 0 else if comp > 0 then 1 else -1)
         | _ \<Rightarrow>
             Inr (let comp = compare_type left - compare_type right
                  in if comp = 0 then 0 else if comp > 0 then 1 else -1)))"

definition compareAddr :: "int \<Rightarrow> int \<Rightarrow> int" where
  "compareAddr l r = (if l > r then 1 else if l < r then -1 else 0)"

text \<open>\<^verbatim>\<open>compareLists\<close> walks two lists of cells, \<^verbatim>\<open>compareArrays\<close> two
  vectors of equal size; the envelope cells hold their lists directly.\<close>

fun compareCells :: "machine \<Rightarrow> cell \<Rightarrow> cell \<Rightarrow> int result"
and compareLists :: "machine \<Rightarrow> cell list \<Rightarrow> cell list \<Rightarrow> int result"
and compareArrays :: "machine \<Rightarrow> cell list \<Rightarrow> cell list \<Rightarrow> int result" where
  "compareCells M left right =
     (case left of
        CELL_NIL \<Rightarrow> (case right of CELL_NIL \<Rightarrow> Inr 0 | _ \<Rightarrow> compareMixed M left right)
      | CELL_TRUE \<Rightarrow> (case right of CELL_TRUE \<Rightarrow> Inr 0 | _ \<Rightarrow> compareMixed M left right)
      | CELL_STRING l \<Rightarrow>
          (case right of CELL_STRING r \<Rightarrow> Inr (compareStrings l r) | _ \<Rightarrow> compareMixed M left right)
      | CELL_SYMBOL l \<Rightarrow>
          (case right of CELL_SYMBOL r \<Rightarrow> Inr (compareSymbols left right)
           | _ \<Rightarrow> compareMixed M left right)
      | CELL_DYN_SYMBOL lc lm \<Rightarrow>
          (case right of CELL_DYN_SYMBOL rc rm \<Rightarrow> Inr (compareSymbols left right)
           | _ \<Rightarrow> compareMixed M left right)
      | CELL_QUOTE l \<Rightarrow>
          (case right of CELL_QUOTE r \<Rightarrow> compareLists M [l] [r] | _ \<Rightarrow> compareMixed M left right)
      | CELL_EXPRESSION l \<Rightarrow>
          (case right of CELL_EXPRESSION r \<Rightarrow> compareLists M l r | _ \<Rightarrow> compareMixed M left right)
      | CELL_LAMBDA l \<Rightarrow>
          (case right of CELL_LAMBDA r \<Rightarrow> compareLists M l r | _ \<Rightarrow> compareMixed M left right)
      | CELL_FEXPR l \<Rightarrow>
          (case right of CELL_FEXPR r \<Rightarrow> compareLists M l r | _ \<Rightarrow> compareMixed M left right)
      | CELL_ARRAY l \<Rightarrow>
          (case right of CELL_ARRAY r \<Rightarrow> compareArrays M l r | _ \<Rightarrow> compareMixed M left right)
      | CELL_FLOAT l \<Rightarrow>
          (case right of CELL_FLOAT r \<Rightarrow> Inr (compareFloats M left right)
           | _ \<Rightarrow> compareMixed M left right)
      | CELL_BIGINT l \<Rightarrow>
          (case right of CELL_BIGINT r \<Rightarrow> Inr (cmpBigint l r) | _ \<Rightarrow> compareMixed M left right)
      | CELL_LONG l \<Rightarrow>
          (case right of CELL_LONG r \<Rightarrow> Inr (compareAddr l r) | _ \<Rightarrow> compareMixed M left right)
      | CELL_CONTEXT l \<Rightarrow>
          (case right of CELL_CONTEXT r \<Rightarrow> Inr (compareAddr (addr M l) (addr M r))
           | _ \<Rightarrow> compareMixed M left right)
      | CELL_PRIMITIVE l \<Rightarrow>
          (case right of CELL_PRIMITIVE r \<Rightarrow> Inr (compareAddr l r)
           | _ \<Rightarrow> compareMixed M left right))"
| "compareLists M left right =
     (case left of
        [] \<Rightarrow> Inr (if right = [] then 0 else -1)
      | l # ls \<Rightarrow>
          (case right of
             [] \<Rightarrow> Inr 1
           | r # rs \<Rightarrow>
               (case compareCells M l r of
                  Inl e \<Rightarrow> Inl e
                | Inr c \<Rightarrow> if c \<noteq> 0 then Inr c else compareLists M ls rs)))"
| "compareArrays M left right =
     (if length left < length right then Inr (-1)
      else if length left > length right then Inr 1
      else compareLists M left right)"

declare compareCells.simps [simp del] compareLists.simps [simp del] compareArrays.simps [simp del]

section \<open>A key for cells\<close>

text \<open>The comparison is a total preorder on cells whose numbers are all of one kind and that
  hold no NaN, no context and no dynamic symbol. Contexts compare with each other by address
  and with symbols by name, dynamic symbols with symbols by name and with everything else by
  type; both break transitivity, as does the rounding when integers meet floats. The proof maps
  a cell to a list of rationals on which the comparison is the lexicographic one.\<close>

fun lexcmp :: "rat list \<Rightarrow> rat list \<Rightarrow> int" where
  "lexcmp [] [] = 0"
| "lexcmp [] (y # ys) = -1"
| "lexcmp (x # xs) [] = 1"
| "lexcmp (x # xs) (y # ys) = (if x < y then -1 else if y < x then 1 else lexcmp xs ys)"

text \<open>Names are C strings: they hold no NUL.\<close>

definition c_string :: "string \<Rightarrow> bool" where
  "c_string s \<longleftrightarrow> (\<forall>c\<in>set s. c \<noteq> CHR 0x00)"

text \<open>The cells the comparison orders.\<close>

datatype number_kind = Longs | Bigints | Floats

fun ordered_cell :: "number_kind \<Rightarrow> cell \<Rightarrow> bool"
and ordered_cells :: "number_kind \<Rightarrow> cell list \<Rightarrow> bool" where
  "ordered_cell k CELL_NIL = True"
| "ordered_cell k CELL_TRUE = True"
| "ordered_cell k (CELL_LONG n) = (k = Longs)"
| "ordered_cell k (CELL_BIGINT b) = (k = Bigints \<and> wf_bigint b)"
| "ordered_cell k (CELL_FLOAT d) = (k = Floats \<and> d \<noteq> NaN)"
| "ordered_cell k (CELL_STRING s) = True"
| "ordered_cell k (CELL_SYMBOL s) = (c_string (scontext s) \<and> c_string (sname s))"
| "ordered_cell k (CELL_CONTEXT c) = False"
| "ordered_cell k (CELL_PRIMITIVE p) = True"
| "ordered_cell k (CELL_QUOTE c) = ordered_cell k c"
| "ordered_cell k (CELL_EXPRESSION cs) = ordered_cells k cs"
| "ordered_cell k (CELL_LAMBDA cs) = ordered_cells k cs"
| "ordered_cell k (CELL_FEXPR cs) = ordered_cells k cs"
| "ordered_cell k (CELL_ARRAY cs) = ordered_cells k cs"
| "ordered_cell k (CELL_DYN_SYMBOL c n) = False"
| "ordered_cells k [] = True"
| "ordered_cells k (c # cs) = (ordered_cell k c \<and> ordered_cells k cs)"

text \<open>The key is a prefix-free code: every list ends in -1, which is below every type.\<close>

fun string_key :: "string \<Rightarrow> rat list" where
  "string_key [] = [-1]"
| "string_key (c # s) = of_int (byte c) # string_key s"

fun cell_key :: "cell \<Rightarrow> rat list"
and list_key :: "cell list \<Rightarrow> rat list" where
  "cell_key CELL_NIL = [0]"
| "cell_key CELL_TRUE = [1]"
| "cell_key (CELL_LONG n) = [2, of_int n]"
| "cell_key (CELL_BIGINT b) = [2, of_int (bval b)]"
| "cell_key (CELL_FLOAT d) =
     3 # (case d of PInf \<Rightarrow> [1, 0] | NInf \<Rightarrow> [-1, 0] | Fin r \<Rightarrow> [0, r] | NaN \<Rightarrow> [2, 0])"
| "cell_key (CELL_STRING s) = 4 # string_key s"
| "cell_key (CELL_SYMBOL s) =
     (if s = nilSymbol then [0] else if s = trueSymbol then [1]
      else 5 # string_key (scontext s) @ string_key (sname s))"
| "cell_key (CELL_CONTEXT c) = [6]"
| "cell_key (CELL_PRIMITIVE p) = [7, of_int p]"
| "cell_key (CELL_QUOTE c) = 10 # cell_key c @ [- 1]"
| "cell_key (CELL_EXPRESSION cs) = 11 # list_key cs"
| "cell_key (CELL_LAMBDA cs) = 12 # list_key cs"
| "cell_key (CELL_FEXPR cs) = 13 # list_key cs"
| "cell_key (CELL_ARRAY cs) = 14 # of_nat (length cs) # list_key cs"
| "cell_key (CELL_DYN_SYMBOL c n) = [15]"
| "list_key [] = [-1]"
| "list_key (c # cs) = cell_key c @ list_key cs"

abbreviation sign_of :: "int \<Rightarrow> int" where
  "sign_of c \<equiv> (if c = 0 then 0 else if c > 0 then 1 else -1)"

fun cell_rank :: "cell \<Rightarrow> int" where
  "cell_rank (CELL_SYMBOL s) = (if s = nilSymbol then 0 else if s = trueSymbol then 1 else 5)"
| "cell_rank c = compare_type c"

text \<open>Comparing with a continuation: the keys decide, or what follows them does.\<close>

definition key_cmp :: "rat list \<Rightarrow> rat list \<Rightarrow> int result \<Rightarrow> bool" where
  "key_cmp l r c \<longleftrightarrow> (\<exists>n. c = Inr n \<and> (\<forall>s t. lexcmp (l @ s) (r @ t) = (if n = 0 then lexcmp s t else n)))"

lemma lexcmp_range: "lexcmp xs ys \<in> {-1, 0, 1}"
  by (induction xs ys rule: lexcmp.induct) auto

lemma lexcmp_sym: "lexcmp ys xs = - lexcmp xs ys"
  by (induction xs ys rule: lexcmp.induct) auto

lemma lexcmp_eq: "lexcmp xs ys = 0 \<longleftrightarrow> xs = ys"
  by (induction xs ys rule: lexcmp.induct) auto

lemma lexcmp_trans: "lexcmp xs ys \<le> 0 \<Longrightarrow> lexcmp ys zs \<le> 0 \<Longrightarrow> lexcmp xs zs \<le> 0"
proof (induction xs ys arbitrary: zs rule: lexcmp.induct)
  case (4 x xs y ys)
  show ?case
  proof (cases zs)
    case (Cons z zs')
    have xy: "x < y \<or> x = y \<and> lexcmp xs ys \<le> 0" using "4.prems"(1) by (simp split: if_splits)
    have yz: "y < z \<or> y = z \<and> lexcmp ys zs' \<le> 0" using "4.prems"(2) Cons by (simp split: if_splits)
    have "x < z \<or> x = z \<and> lexcmp xs zs' \<le> 0"
      using xy yz "4.IH" [of zs'] by (elim disjE conjE) (simp_all add: order.strict_trans [of x y z])
    then show ?thesis using Cons by auto
  qed (use 4 in simp)
next
  case (2 y ys)
  then show ?case by (cases zs) auto
qed auto

lemma byte_key [simp]: "- 1 < rat_of_int (byte c)" "\<not> rat_of_int (byte c) < - 1" "- 1 \<noteq> rat_of_int (byte c)"
  "rat_of_int (byte c) \<noteq> - 1"
proof -
  have "rat_of_int (- 1) < rat_of_int (byte c)" unfolding of_int_less_iff using byte_range(1) [of c] by simp
  then show "- 1 < rat_of_int (byte c)" "\<not> rat_of_int (byte c) < - 1" "- 1 \<noteq> rat_of_int (byte c)"
    "rat_of_int (byte c) \<noteq> - 1" by auto
qed

lemma lexcmp_names: "c_string l \<Longrightarrow> c_string r \<Longrightarrow> lexcmp (string_key l @ s) (string_key r @ t) =
   (if strcmp l r = 0 then lexcmp s t else sign_of (strcmp l r))"
proof (induction l r rule: strcmp.induct)
  case (2 y ys)
  then show ?case using byte_pos [of y] by (auto simp: c_string_def)
next
  case (3 y ys)
  then show ?case using byte_pos [of y] by (auto simp: c_string_def)
next
  case (4 x xs y ys)
  then show ?case by (auto simp: c_string_def)
qed auto

lemma lexcmp_string: "lexcmp (string_key l @ s) (string_key r @ t) =
   (if compareStrings l r = 0 then lexcmp s t else compareStrings l r)"
proof (induction l arbitrary: r)
  case Nil
  then show ?case by (cases r) (auto simp: compareStrings_def Let_def)
next
  case (Cons x xs)
  then show ?case by (cases r) (auto simp: compareStrings_def Let_def)
qed

lemma cell_key_rank: "\<exists>ks. cell_key c = rat_of_int (cell_rank c) # ks"
  by (cases c) (auto split: dbl.splits)

lemma nil_neq_true [simp]: "nilSymbol \<noteq> trueSymbol" "trueSymbol \<noteq> nilSymbol"
  by (simp_all add: nilSymbol_def trueSymbol_def)

lemma compare_ranks:
  assumes "ordered_cell k l" "ordered_cell k r" "cell_rank l \<noteq> cell_rank r"
  shows "compareCells M l r = Inr (if cell_rank l < cell_rank r then -1 else 1)"
  using assms by (cases l; cases r; simp add: compareCells.simps compareMixed_def compareSymbols_def split: if_splits)

lemma lexcmp_key_ranks:
  assumes "cell_rank l \<noteq> cell_rank r"
  shows "lexcmp (cell_key l @ s) (cell_key r @ t) = (if cell_rank l < cell_rank r then -1 else 1)"
proof -
  obtain ks ks' where "cell_key l = rat_of_int (cell_rank l) # ks" "cell_key r = rat_of_int (cell_rank r) # ks'"
    using cell_key_rank by blast
  then show ?thesis using assms by simp
qed

lemma key_cmp_head: "key_cmp l r c \<Longrightarrow> key_cmp (x # l) (x # r) c"
  by (auto simp: key_cmp_def)

lemma list_key_head: "\<exists>n ks. list_key cs = rat_of_int n # ks \<and> - 1 \<le> n \<and> (n = - 1 \<longleftrightarrow> cs = [])"
proof (cases cs)
  case (Cons c cs')
  obtain ks where "cell_key c = rat_of_int (cell_rank c) # ks" using cell_key_rank by blast
  moreover have "0 \<le> cell_rank c" by (cases c) auto
  ultimately show ?thesis using Cons by force
qed (force intro: exI [of _ "-1"])

lemma rank_cases:
  "cell_rank c = 0 \<Longrightarrow> c = CELL_NIL \<or> c = CELL_SYMBOL nilSymbol"
  "cell_rank c = 1 \<Longrightarrow> c = CELL_TRUE \<or> c = CELL_SYMBOL trueSymbol"
  "cell_rank c = 2 \<Longrightarrow> (\<exists>n. c = CELL_LONG n) \<or> (\<exists>b. c = CELL_BIGINT b)"
  "cell_rank c = 3 \<Longrightarrow> \<exists>d. c = CELL_FLOAT d"
  "cell_rank c = 4 \<Longrightarrow> \<exists>s. c = CELL_STRING s"
  "cell_rank c = 5 \<Longrightarrow> \<exists>s. c = CELL_SYMBOL s \<and> s \<noteq> nilSymbol \<and> s \<noteq> trueSymbol"
  "cell_rank c = 7 \<Longrightarrow> \<exists>p. c = CELL_PRIMITIVE p"
  "cell_rank c = 10 \<Longrightarrow> \<exists>d. c = CELL_QUOTE d"
  "cell_rank c = 11 \<Longrightarrow> \<exists>cs. c = CELL_EXPRESSION cs"
  "cell_rank c = 12 \<Longrightarrow> \<exists>cs. c = CELL_LAMBDA cs"
  "cell_rank c = 13 \<Longrightarrow> \<exists>cs. c = CELL_FEXPR cs"
  "cell_rank c = 14 \<Longrightarrow> \<exists>cs. c = CELL_ARRAY cs"
  by (cases c; simp split: if_splits)+

lemma rank_range: "ordered_cell k c \<Longrightarrow> cell_rank c \<in> {0, 1, 2, 3, 4, 5, 7, 10, 11, 12, 13, 14}"
  by (cases c) auto

lemma key_cmp_atoms:
  assumes eq: "cell_rank l = cell_rank r" and o: "ordered_cell k l" "ordered_cell k r" and "cell_rank l < 10"
  shows "key_cmp (cell_key l) (cell_key r) (compareCells M l r)"
proof -
  consider "cell_rank l = 0" | "cell_rank l = 1" | "cell_rank l = 2" | "cell_rank l = 3" | "cell_rank l = 4"
    | "cell_rank l = 5" | "cell_rank l = 7"  using rank_range [OF o(1)] assms(4) by auto
  then show ?thesis
  proof cases
    case 1
    then show ?thesis using rank_cases(1) [of l] rank_cases(1) [of r] eq
      by (auto simp: compareCells.simps compareMixed_def compareSymbols_def key_cmp_def)
  next
    case 2
    then show ?thesis using rank_cases(2) [of l] rank_cases(2) [of r] eq
      by (auto simp: compareCells.simps compareMixed_def compareSymbols_def key_cmp_def)
  next
    case 3
    then show ?thesis using rank_cases(3) [of l] rank_cases(3) [of r] eq o
      by (auto simp: compareCells.simps compareAddr_def cmpBigint_correct key_cmp_def sgn_if)
  next
    case 4
    then show ?thesis using rank_cases(4) [of l] rank_cases(4) [of r] eq o
      by (auto simp: compareCells.simps compareFloats_def compareDoubles_def key_cmp_def split: dbl.splits)
  next
    case 5
    then show ?thesis using rank_cases(5) [of l] rank_cases(5) [of r] eq
      by (auto simp: compareCells.simps lexcmp_string key_cmp_def)
  next
    case 6
    then show ?thesis using rank_cases(6) [of l] rank_cases(6) [of r] eq o
      by (auto simp: compareCells.simps compareSymbols_def lexcmp_names key_cmp_def)
  next
    case 7
    then show ?thesis using rank_cases(7) [of l] rank_cases(7) [of r] eq
      by (auto simp: compareCells.simps compareAddr_def key_cmp_def)
  qed
qed

lemma key_cmp_ranks:
  assumes "ordered_cell k l" "ordered_cell k r" "cell_rank l \<noteq> cell_rank r"
  shows "key_cmp (cell_key l) (cell_key r) (compareCells M l r)"
  using compare_ranks [OF assms] lexcmp_key_ranks [OF assms(3)] by (auto simp: key_cmp_def)

lemma key_cmp_cons:
  assumes "key_cmp (cell_key l) (cell_key r) (compareCells M l r)"
    "compareCells M l r = Inr 0 \<Longrightarrow> key_cmp (list_key ls) (list_key rs) (compareLists M ls rs)"
  shows "key_cmp (list_key (l # ls)) (list_key (r # rs)) (compareLists M (l # ls) (r # rs))"
  using assms by (auto simp: key_cmp_def compareLists.simps [of M "l # ls"])

lemma key_cmp_ends:
  "key_cmp (list_key []) (list_key []) (compareLists M [] [])"
  "key_cmp (list_key []) (list_key (r # rs)) (compareLists M [] (r # rs))"
  "key_cmp (list_key (l # ls)) (list_key []) (compareLists M (l # ls) [])"
proof -
  have neg: "- 1 < rat_of_int n \<longleftrightarrow> -1 < n" for n
    by (metis of_int_less_iff of_int_minus of_int_1)
  obtain n ks where r: "list_key (r # rs) = rat_of_int n # ks" "-1 < n" using list_key_head [of "r # rs"] by force
  obtain m js where l: "list_key (l # ls) = rat_of_int m # js" "-1 < m" using list_key_head [of "l # ls"] by force
  show "key_cmp (list_key []) (list_key []) (compareLists M [] [])"
    by (simp add: key_cmp_def compareLists.simps)
  show "key_cmp (list_key []) (list_key (r # rs)) (compareLists M [] (r # rs))"
    using r neg [of n] by (simp add: key_cmp_def compareLists.simps del: list_key.simps(2))
  show "key_cmp (list_key (l # ls)) (list_key []) (compareLists M (l # ls) [])"
    using l neg [of m] by (simp add: key_cmp_def compareLists.simps order_less_not_sym del: list_key.simps(2))
qed

lemma key_cmp_all:
  "ordered_cell k l \<Longrightarrow> ordered_cell k r \<Longrightarrow> key_cmp (cell_key l) (cell_key r) (compareCells M l r)"
  "ordered_cells k ls \<Longrightarrow> ordered_cells k rs \<Longrightarrow> key_cmp (list_key ls) (list_key rs) (compareLists M ls rs)"
  "ordered_cells k las \<Longrightarrow> ordered_cells k ras \<Longrightarrow>
   key_cmp (of_nat (length las) # list_key las) (of_nat (length ras) # list_key ras) (compareArrays M las ras)"
proof (induction M l r and M ls rs and M las ras rule: compareCells_compareLists_compareArrays.induct)
  case (1 M left right)
  then consider "cell_rank left \<noteq> cell_rank right" | "cell_rank left < 10" "cell_rank left = cell_rank right"
    | "cell_rank left \<ge> 10" "cell_rank left = cell_rank right" by linarith
  then show ?case
  proof cases
    case 1 then show ?thesis using "1.prems" key_cmp_ranks by blast
  next
    case 2 then show ?thesis using "1.prems" key_cmp_atoms by blast
  next
    case 3
    then consider (q) "cell_rank left = 10" | (e) "cell_rank left = 11" | (l) "cell_rank left = 12"
      | (f) "cell_rank left = 13" | (a) "cell_rank left = 14" using rank_range [OF "1.prems"(1)] by auto
    then show ?thesis
    proof cases
      case q
      then obtain d d' where "left = CELL_QUOTE d" "right = CELL_QUOTE d'" using 3 rank_cases(8) by metis
      then show ?thesis using 1 by (simp add: compareCells.simps [of M "CELL_QUOTE d"] key_cmp_head)
    next
      case e
      then obtain d d' where "left = CELL_EXPRESSION d" "right = CELL_EXPRESSION d'" using 3 rank_cases(9) by metis
      then show ?thesis using 1 by (simp add: compareCells.simps [of M "CELL_EXPRESSION d"] key_cmp_head)
    next
      case l
      then obtain d d' where "left = CELL_LAMBDA d" "right = CELL_LAMBDA d'" using 3 rank_cases(10) by metis
      then show ?thesis using 1 by (simp add: compareCells.simps [of M "CELL_LAMBDA d"] key_cmp_head)
    next
      case f
      then obtain d d' where "left = CELL_FEXPR d" "right = CELL_FEXPR d'" using 3 rank_cases(11) by metis
      then show ?thesis using 1 by (simp add: compareCells.simps [of M "CELL_FEXPR d"] key_cmp_head)
    next
      case a
      then obtain d d' where "left = CELL_ARRAY d" "right = CELL_ARRAY d'" using 3 rank_cases(12) by metis
      then show ?thesis using 1 by (simp add: compareCells.simps [of M "CELL_ARRAY d"] key_cmp_head)
    qed
  qed
next
  case (2 M left right)
  show ?case
  proof (cases left)
    case Nil
    then show ?thesis by (cases right) (simp_all only: key_cmp_ends)
  next
    case l: (Cons l ls)
    show ?thesis
    proof (cases right)
      case Nil
      then show ?thesis using l by (simp only: key_cmp_ends)
    next
      case (Cons r rs)
      then show ?thesis using 2 l key_cmp_cons [of l r M ls rs] by simp
    qed
  qed
next
  case (3 M left right)
  then show ?case
  proof (cases "length left = length right")
    case True
    then show ?thesis using 3 by (simp add: compareArrays.simps key_cmp_head)
  next
    case False
    then show ?thesis by (auto simp: compareArrays.simps key_cmp_def)
  qed
qed

lemma compareCells_key:
  assumes "ordered_cell k l" "ordered_cell k r"
  shows "compareCells M l r = Inr (lexcmp (cell_key l) (cell_key r))"
proof -
  obtain n where n: "compareCells M l r = Inr n"
    "\<And>s t. lexcmp (cell_key l @ s) (cell_key r @ t) = (if n = 0 then lexcmp s t else n)"
    using key_cmp_all(1) [OF assms, of M] by (auto simp: key_cmp_def)
  then show ?thesis using n(2) [of "[]" "[]"] by (simp split: if_splits)
qed

interpretation cells: total_comparison "ordered_cell k" "compareCells M" for k M
proof
  fix x y z c d
  assume o: "ordered_cell k x" "ordered_cell k y"
  show "\<exists>c. compareCells M x y = Inr c" using compareCells_key [OF o] by simp
  show "compareCells M y x = Inr (- c)" if "compareCells M x y = Inr c"
    using that compareCells_key [OF o] compareCells_key [OF o(2,1)] lexcmp_sym [of "cell_key y" "cell_key x"] by simp
  show "\<exists>e. compareCells M x z = Inr e \<and> e \<le> 0"
    if "ordered_cell k z" "compareCells M x y = Inr c" "c \<le> 0" "compareCells M y z = Inr d" "d \<le> 0"
    using that o lexcmp_trans by (auto simp: compareCells_key)
qed

text \<open>(C12) On cells whose numbers are of one kind and that hold no NaN, no context and no
  dynamic symbol, the comparison returns -1, 0 or 1 without an error, changes its sign with the
  order of its operands, is transitive, and returns 0 exactly for cells with the same key, so
  lists, strings, symbols and arrays are totally preordered.\<close>

theorem compareCells_total_preorder:
  assumes "ordered_cell k x" "ordered_cell k y" "ordered_cell k z"
  shows "\<exists>c d e. compareCells M x y = Inr c \<and> compareCells M y z = Inr d \<and> compareCells M x z = Inr e \<and>
    c \<in> {-1, 0, 1} \<and> compareCells M y x = Inr (- c) \<and> (c \<le> 0 \<and> d \<le> 0 \<longrightarrow> e \<le> 0) \<and>
    (c = 0 \<longleftrightarrow> cell_key x = cell_key y)"
proof -
  obtain c d e where r: "compareCells M x y = Inr c" "compareCells M y z = Inr d" "compareCells M x z = Inr e"
    using cells.cmp_returns assms by metis
  have "c = lexcmp (cell_key x) (cell_key y)" using compareCells_key [OF assms(1,2), of M] r by simp
  then show ?thesis using r cells.cmp_swap [OF assms(1,2) r(1)] cells.cmp_trans [OF assms r(1) _ r(2)]
      lexcmp_range lexcmp_eq by (metis Inr_inject)
qed

theorem compareCells_total_preorder_witness:
  "\<forall>M. compareCells M (CELL_EXPRESSION [CELL_LONG 2, CELL_STRING ''ab'']) (CELL_EXPRESSION [CELL_LONG 2, CELL_STRING ''b'']) =
     Inr (-1) \<and>
   compareCells M (CELL_EXPRESSION [CELL_LONG 2, CELL_STRING ''b'']) (CELL_EXPRESSION [CELL_LONG 2, CELL_STRING ''ab'']) =
     Inr 1"
proof
  fix M
  let ?x = "CELL_EXPRESSION [CELL_LONG 2, CELL_STRING ''ab'']" and ?y = "CELL_EXPRESSION [CELL_LONG 2, CELL_STRING ''b'']"
  have "compareCells M ?x ?y = Inr (-1)"
    by (simp add: compareCells.simps compareLists.simps compareAddr_def compareStrings_def byte_def)
  then show "compareCells M ?x ?y = Inr (-1) \<and> compareCells M ?y ?x = Inr 1"
    using compareCells_total_preorder [of Longs ?x ?y ?x M] by auto
qed

end
