(* ===== verification/NL_Sort.thy ===== *)
theory NL_Sort
  imports NL_Cell "HOL-Library.Multiset"
begin

text \<open>
  Sorting (\<^verbatim>\<open>binsort\<close>, \<^verbatim>\<open>listToSortedVector\<close>, \<^verbatim>\<open>resortVectorToList\<close> and
  \<^verbatim>\<open>p_sort\<close> of \<^verbatim>\<open>nl-list.c\<close>): a bottom-up merge sort on a vector of cell
  pointers, with the built-in comparison, with a user function, or by the index a cell was
  numbered with. The comparison is a parameter that may raise an error. Inside
  \<open>total_comparison\<close> the sort is proved to return a sorted, stable permutation; the
  interpretation on \<open>compareCells\<close> gives the result for \<^verbatim>\<open>sort\<close>.
\<close>

section \<open>Definitions\<close>

text \<open>One run of a pass merges \<open>x[k..kf]\<close> and \<open>x[l..lf]\<close>, taking \<open>c\<close> elements. The
  test \<open>left\<close> says whether the left element is taken.\<close>

fun merge_run ::
  "('a \<Rightarrow> 'a \<Rightarrow> bool result) \<Rightarrow> 'a list \<Rightarrow> nat \<Rightarrow> nat \<Rightarrow> nat \<Rightarrow> nat \<Rightarrow> nat \<Rightarrow> 'a list result" where
  "merge_run left x k kf l lf 0 = Inr []"
| "merge_run left x k kf l lf (Suc c) =
     (if k > kf then map_sum id ((#) (x ! l)) (merge_run left x k kf (Suc l) lf c)
      else if l > lf then map_sum id ((#) (x ! k)) (merge_run left x (Suc k) kf l lf c)
      else
        (case left (x ! k) (x ! l) of
           Inl e \<Rightarrow> Inl e
         | Inr b \<Rightarrow>
             if b then map_sum id ((#) (x ! k)) (merge_run left x (Suc k) kf l lf c)
             else map_sum id ((#) (x ! l)) (merge_run left x k kf (Suc l) lf c)))"

text \<open>A pass with run length \<open>m\<close> from position \<open>i\<close> on.\<close>

function merge_pass ::
  "('a \<Rightarrow> 'a \<Rightarrow> bool result) \<Rightarrow> 'a list \<Rightarrow> nat \<Rightarrow> nat \<Rightarrow> 'a list result" where
  "merge_pass left x m i =
     (let n = length x
      in if i < n \<and> 0 < m
         then
           (let k = i;
                kf = (if i + m \<ge> n then n else k + m - 1);
                l = (if i + m \<ge> n then n + 1 else i + m);
                lf = (if i + m \<ge> n \<or> i + m + m - 1 \<ge> n then n - 1 else i + m + m - 1)
            in case merge_run left x k kf l lf (Suc lf - i) of
                 Inl e \<Rightarrow> Inl e
               | Inr ys \<Rightarrow> map_sum id (\<lambda>zs. ys @ zs) (merge_pass left x m (i + 2 * m)))
         else Inr [])"
  by pat_completeness auto
termination
  by (relation "measure (\<lambda>(left, x, m, i). length x - i)") auto

function binsort_loop ::
  "('a \<Rightarrow> 'a \<Rightarrow> bool result) \<Rightarrow> 'a list \<Rightarrow> nat \<Rightarrow> nat \<Rightarrow> 'a list result" where
  "binsort_loop left x n m =
     (if m < n \<and> 0 < m
      then
        (case merge_pass left x m 0 of
           Inl e \<Rightarrow> Inl e
         | Inr y \<Rightarrow> binsort_loop left y n (m * 2))
      else Inr x)"
  by pat_completeness auto
termination
  by (relation "measure (\<lambda>(left, x, n, m). n - m)") auto

definition binsort :: "('a \<Rightarrow> 'a \<Rightarrow> bool result) \<Rightarrow> 'a list \<Rightarrow> 'a list result" where
  "binsort left x = binsort_loop left x (length x) 1"

text \<open>The three tests: a comparison, a user function that says the left element may go first
  (its value is neither nil nor the empty list), and the index.\<close>

definition left_test :: "('a \<Rightarrow> 'a \<Rightarrow> int result) \<Rightarrow> 'a \<Rightarrow> 'a \<Rightarrow> bool result" where
  "left_test cmp a b = map_sum id (\<lambda>c. c \<le> 0) (cmp a b)"

definition left_func :: "(cell \<Rightarrow> cell \<Rightarrow> cell result) \<Rightarrow> cell \<Rightarrow> cell \<Rightarrow> bool result" where
  "left_func f a b = map_sum id (\<lambda>c. \<not> isNil c \<and> c \<noteq> CELL_EXPRESSION []) (f a b)"

definition left_index :: "'a \<times> nat \<Rightarrow> 'a \<times> nat \<Rightarrow> bool result" where
  "left_index a b = Inr (snd a \<le> snd b)"

text \<open>The vector of a list, numbered from 0, sorted by element; and back by index.\<close>

definition listToSortedVector :: "('a \<Rightarrow> 'a \<Rightarrow> int result) \<Rightarrow> 'a list \<Rightarrow> ('a \<times> nat) list result" where
  "listToSortedVector cmp cs =
     binsort (\<lambda>a b. left_test cmp (fst a) (fst b)) (zip cs [0..<length cs])"

definition resortVectorToList :: "('a \<times> nat) list \<Rightarrow> 'a list result" where
  "resortVectorToList v = map_sum id (map fst) (binsort left_index v)"

definition p_sort :: "machine \<Rightarrow> (cell \<Rightarrow> cell \<Rightarrow> cell result) option \<Rightarrow> cell \<Rightarrow> cell result" where
  "p_sort M func c =
     (let left = (case func of None \<Rightarrow> left_test (compareCells M) | Some f \<Rightarrow> left_func f)
      in case c of
           CELL_EXPRESSION cs \<Rightarrow> map_sum id CELL_EXPRESSION (binsort left cs)
         | CELL_LAMBDA cs \<Rightarrow>
             if cs = [] then Inr (CELL_EXPRESSION []) else map_sum id CELL_LAMBDA (binsort left cs)
         | CELL_FEXPR cs \<Rightarrow>
             if cs = [] then Inr (CELL_EXPRESSION []) else map_sum id CELL_FEXPR (binsort left cs)
         | CELL_ARRAY cs \<Rightarrow> map_sum id CELL_ARRAY (binsort left cs)
         | _ \<Rightarrow> Inl ERR_LIST_OR_ARRAY_EXPECTED)"

section \<open>Merging\<close>

text \<open>The reference: a merge of two lists under a total test.\<close>

fun merge :: "('a \<Rightarrow> 'a \<Rightarrow> bool) \<Rightarrow> 'a list \<Rightarrow> 'a list \<Rightarrow> 'a list" where
  "merge le [] ys = ys"
| "merge le xs [] = xs"
| "merge le (x # xs) (y # ys) =
     (if le x y then x # merge le xs (y # ys) else y # merge le (x # xs) ys)"

declare merge_pass.simps [simp del] binsort_loop.simps [simp del]

definition slice :: "'a list \<Rightarrow> nat \<Rightarrow> nat \<Rightarrow> 'a list" where
  "slice x a b = take (b - a) (drop a x)"

lemma slice_Cons: "a < b \<Longrightarrow> b \<le> length x \<Longrightarrow> slice x a b = x ! a # slice x (Suc a) b"
  unfolding slice_def using Cons_nth_drop_Suc [of a x] by (metis Suc_diff_Suc diff_Suc_Suc take_Suc_Cons order_less_le_trans)

lemma slice_Nil: "b \<le> a \<Longrightarrow> slice x a b = []"
  by (simp add: slice_def)

lemma merge_Nil2 [simp]: "merge le xs [] = xs"
  by (cases xs) auto

lemma merge_run_slices:
  assumes "\<And>a b. a \<in> set x \<Longrightarrow> b \<in> set x \<Longrightarrow> left a b = Inr (le a b)" "kf < length x" "lf < length x" "k \<le> Suc kf" "l \<le> Suc lf"
    "c = (Suc kf - k) + (Suc lf - l)"
  shows "merge_run left x k kf l lf c = Inr (merge le (slice x k (Suc kf)) (slice x l (Suc lf)))"
  using assms(4-6)
proof (induction c arbitrary: k l)
  case 0
  then show ?case by (simp add: slice_Nil)
next
  case (Suc c)
  have lt: "slice x l (Suc lf) = x ! l # slice x (Suc l) (Suc lf)" if "l < Suc lf" using that assms(3) by (intro slice_Cons) auto
  have kt: "slice x k (Suc kf) = x ! k # slice x (Suc k) (Suc kf)" if "k < Suc kf" using that assms(2) by (intro slice_Cons) auto
  show ?case
  proof (cases "k > kf")
    case True
    then have "l < Suc lf" using Suc.prems by simp
    moreover have "merge_run left x k kf (Suc l) lf c = Inr (merge le (slice x k (Suc kf)) (slice x (Suc l) (Suc lf)))"
      using True Suc.prems calculation by (intro Suc.IH) auto
    ultimately show ?thesis using True lt by (simp add: slice_Nil)
  next
    case k: False
    show ?thesis
    proof (cases "l > lf")
      case True
      moreover have "merge_run left x (Suc k) kf l lf c = Inr (merge le (slice x (Suc k) (Suc kf)) (slice x l (Suc lf)))"
        using True k Suc.prems by (intro Suc.IH) auto
      ultimately show ?thesis using k kt by (simp add: slice_Nil)
    next
      case False
      have "left (x ! k) (x ! l) = Inr (le (x ! k) (x ! l))" using k False assms by simp
      moreover have "merge_run left x (Suc k) kf l lf c = Inr (merge le (slice x (Suc k) (Suc kf)) (slice x l (Suc lf)))"
        "merge_run left x k kf (Suc l) lf c = Inr (merge le (slice x k (Suc kf)) (slice x (Suc l) (Suc lf)))"
        using False k Suc.prems by (intro Suc.IH; simp)+
      ultimately show ?thesis using k False kt lt by simp
    qed
  qed
qed

lemma merge_run_tail:
  assumes "l > lf" "kf = length x" "k + c \<le> length x"
  shows "merge_run left x k kf l lf c = Inr (slice x k (k + c))"
  using assms(3)
proof (induction c arbitrary: k)
  case (Suc c)
  then have "slice x k (k + Suc c) = x ! k # slice x (Suc k) (Suc k + c)" using slice_Cons [of k "k + Suc c" x] by simp
  then show ?case using Suc assms(1,2) by simp
qed (simp add: slice_Nil)

function merge_all :: "('a \<Rightarrow> 'a \<Rightarrow> bool) \<Rightarrow> nat \<Rightarrow> 'a list \<Rightarrow> 'a list" where
  "merge_all le m x =
     (if x = [] \<or> m = 0 then [] else merge le (take m x) (take m (drop m x)) @ merge_all le m (drop (2 * m) x))"
  by pat_completeness auto
termination by (relation "measure (\<lambda>(le, m, x). length x)") auto

declare merge_all.simps [simp del]

lemma merge_all_Nil [simp]: "merge_all le m [] = []"
  using merge_all.simps [of le m "[]"] by simp

lemma merge_pass_all:
  assumes "\<And>a b. a \<in> set x \<Longrightarrow> b \<in> set x \<Longrightarrow> left a b = Inr (le a b)" "0 < m"
  shows "merge_pass left x m i = Inr (merge_all le m (drop i x))"
proof (induction "length x - i" arbitrary: i rule: less_induct)
  case less
  let ?n = "length x"
  show ?case
  proof (cases "i < ?n")
    case False
    then show ?thesis by (simp add: merge_pass.simps [of left x m i] merge_all.simps [of le m "drop i x"])
  next
    case i: True
    have IH: "merge_pass left x m (i + 2 * m) = Inr (merge_all le m (drop (i + 2 * m) x))" using less [of "i + 2 * m"] i assms(2) by auto
    have all: "merge_all le m (drop i x) = merge le (take m (drop i x)) (take m (drop (i + m) x)) @ merge_all le m (drop (i + 2 * m) x)"
      using i assms by (subst merge_all.simps) (simp add: add.commute)
    show ?thesis
    proof (cases "i + m \<ge> ?n")
      case True
      have "slice x i (i + (?n - i)) = take m (drop i x)" using True i by (simp add: slice_def)
      then have "merge_run left x i ?n (?n + 1) (?n - 1) (?n - i) = Inr (take m (drop i x))"
        using merge_run_tail [of "?n - 1" "?n + 1" ?n x i "?n - i" left] i by simp
      then show ?thesis using i True IH all assms(2)
        by (subst merge_pass.simps) (simp add: Let_def del: merge_run.simps)
    next
      case False
      define lf where "lf = (if i + m + m - 1 \<ge> ?n then ?n - 1 else i + m + m - 1)"
      have s: "slice x i (Suc (i + m - 1)) = take m (drop i x)" using assms by (simp add: slice_def)
      have s2: "slice x (i + m) (Suc lf) = take m (drop (i + m) x)" using assms False by (auto simp: slice_def lf_def)
      have "merge_run left x i (i + m - 1) (i + m) lf (Suc lf - i) = Inr (merge le (take m (drop i x)) (take m (drop (i + m) x)))"
        unfolding s [symmetric] s2 [symmetric] using assms False i
        by (intro merge_run_slices) (auto simp: lf_def)
      moreover have "merge_pass left x m i = (case merge_run left x i (i + m - 1) (i + m) lf (Suc lf - i) of
           Inl e \<Rightarrow> Inl e | Inr ys \<Rightarrow> map_sum id (\<lambda>zs. ys @ zs) (merge_pass left x m (i + 2 * m)))"
        using i False assms(2) unfolding lf_def by (subst merge_pass.simps) (simp add: Let_def del: merge_run.simps)
      ultimately show ?thesis using IH all by simp
    qed
  qed
qed

lemma length_merge [simp]: "length (merge le xs ys) = length xs + length ys"
  by (induction le xs ys rule: merge.induct) auto

lemma mset_merge [simp]: "mset (merge le xs ys) = mset xs + mset ys"
  by (induction le xs ys rule: merge.induct) auto

lemma set_merge [simp]: "set (merge le xs ys) = set xs \<union> set ys"
  by (metis mset_merge set_mset_mset set_mset_union)

lemma mset_merge_all: "0 < m \<Longrightarrow> mset (merge_all le m x) = mset x"
proof (induction le m x rule: merge_all.induct)
  case (1 le m x)
  show ?case
  proof (cases "x = []")
    case False
    have "mset x = mset (take m x @ take m (drop m x) @ drop (2 * m) x)"
      by (metis append_assoc append_take_drop_id drop_drop mult_2)
    then show ?thesis using 1 False merge_all.simps [of le m x] by (simp add: add.assoc)
  qed simp
qed

function chunks_sorted :: "('a \<Rightarrow> 'a \<Rightarrow> bool) \<Rightarrow> nat \<Rightarrow> 'a list \<Rightarrow> bool" where
  "chunks_sorted le m x \<longleftrightarrow> (x \<noteq> [] \<and> 0 < m \<longrightarrow> sorted_wrt le (take m x) \<and> chunks_sorted le m (drop m x))"
  by pat_completeness auto
termination by (relation "measure (\<lambda>(le, m, x). length x)") auto

declare chunks_sorted.simps [simp del]

lemma chunks_sorted_Nil [simp]: "chunks_sorted le m []"
  using chunks_sorted.simps [of le m "[]"] by simp

lemma chunks_sorted_1: "chunks_sorted le 1 x"
proof (induction x)
  case (Cons a x)
  then show ?case using chunks_sorted.simps [of le 1 "a # x"] by simp
qed simp

context total_comparison
begin

lemma merge_sorted:
  assumes "list_all ok (xs @ ys)" "sorted_wrt le xs" "sorted_wrt le ys"
  shows "sorted_wrt le (merge le xs ys)"
  using assms
proof (induction "le :: 'a \<Rightarrow> 'a \<Rightarrow> bool" xs ys rule: merge.induct)
  case (3 x xs y ys)
  then have o: "ok x" "ok y" "list_all ok xs" "list_all ok ys" by auto
  show ?case
  proof (cases "le x y")
    case True
    have "le x z" if "z \<in> set ys" for z using le_trans [OF o(1,2), of z] True 3 that by (auto simp: list_all_iff)
    then show ?thesis using 3 True by auto
  next
    case False
    then have "le y x" using le_total o by blast
    then have "le y z" if "z \<in> set xs" for z using le_trans [OF o(2,1), of z] 3 that by (auto simp: list_all_iff)
    then show ?thesis using 3 False \<open>le y x\<close> by auto
  qed
qed auto

definition eqv :: "'a \<Rightarrow> 'a \<Rightarrow> bool" where
  "eqv x y \<longleftrightarrow> le x y \<and> le y x"

lemma merge_stable:
  assumes "list_all ok (xs @ ys)" "sorted_wrt le xs" "ok a"
  shows "filter (eqv a) (merge le xs ys) = filter (eqv a) xs @ filter (eqv a) ys"
  using assms
proof (induction "le :: 'a \<Rightarrow> 'a \<Rightarrow> bool" xs ys rule: merge.induct)
  case (3 x xs y ys)
  then have o: "ok x" "ok y" "list_all ok xs" by auto
  show ?case
  proof (cases "le x y")
    case False
    have "filter (eqv a) (x # xs) = []" if "eqv a y"
    proof -
      have "\<not> le z a" if "z \<in> set (x # xs)" for z
      proof
        assume "le z a"
        have z: "ok z" "le x z" using o that 3 le_total [OF o(1) o(1)] by (auto simp: list_all_iff)
        have "le x a" using le_trans [OF o(1) z(1) "3.prems"(3)] z \<open>le z a\<close> by blast
        then show False using le_trans [OF o(1) "3.prems"(3) o(2)] \<open>eqv a y\<close> False by (auto simp: eqv_def)
      qed
      then show ?thesis by (auto simp: eqv_def filter_empty_conv)
    qed
    then show ?thesis using 3 False by auto
  qed (use 3 in auto)
qed auto

lemma chunks_sorted_merge_all:
  assumes "0 < m" "chunks_sorted le m x" "list_all ok x"
  shows "chunks_sorted le (2 * m) (merge_all le m x) \<and> (\<forall>a. ok a \<longrightarrow> filter (eqv a) (merge_all le m x) = filter (eqv a) x)"
  using assms
proof (induction "le :: 'a \<Rightarrow> 'a \<Rightarrow> bool" m x rule: merge_all.induct)
  case (1 m x)
  show ?case
  proof (cases "x = []")
    case False
    let ?a = "take m x" and ?b = "take m (drop m x)" and ?r = "drop (2 * m) x"
    have c: "sorted_wrt le ?a" "chunks_sorted le m (drop m x)" using 1 False chunks_sorted.simps [of le m x] by auto
    have b: "sorted_wrt le ?b" "chunks_sorted le m ?r"
      using c(2) 1 chunks_sorted.simps [of le m "drop m x"] by (cases "drop m x = []"; simp add: mult_2)+
    have ok: "list_all ok (?a @ ?b)" "list_all ok ?r" using 1 by (auto simp: list_all_iff dest: in_set_takeD in_set_dropD)
    have split: "x = ?a @ ?b @ ?r" by (metis append_take_drop_id drop_drop mult_2)
    have IH: "chunks_sorted le (2 * m) (merge_all le m ?r)" "\<forall>a. ok a \<longrightarrow> filter (eqv a) (merge_all le m ?r) = filter (eqv a) ?r"
      using 1 False b ok by auto
    have e: "merge_all le m x = merge le ?a ?b @ merge_all le m ?r" using merge_all.simps [of le m x] False 1 by simp
    have s: "sorted_wrt le (merge le ?a ?b)" using merge_sorted ok c b by blast
    have st: "filter (eqv a) (merge_all le m x) = filter (eqv a) x" if "ok a" for a
      using merge_stable [OF ok(1) c(1) that] IH(2) that e split by (metis filter_append append_assoc)
    have "chunks_sorted le (2 * m) (merge le ?a ?b @ merge_all le m ?r)"
    proof (cases "?r = []")
      case True
      then show ?thesis using s 1 using chunks_sorted.simps [of le "2 * m" "merge le ?a ?b"] by simp
    next
      case False
      then have "length (merge le ?a ?b) = 2 * m" by simp
      then show ?thesis using s IH(1) 1 by (subst chunks_sorted.simps) simp
    qed
    then show ?thesis using e st by simp
  qed simp
qed

lemma binsort_loop_correct:
  assumes "\<And>a b. a \<in> set x \<Longrightarrow> b \<in> set x \<Longrightarrow> left a b = Inr (le a b)" "0 < m" "chunks_sorted le m x" "list_all ok x" "n = length x"
  shows "\<exists>y. binsort_loop left x n m = Inr y \<and> sorted_wrt le y \<and> mset y = mset x \<and> (\<forall>a. ok a \<longrightarrow> filter (eqv a) y = filter (eqv a) x)"
  using assms
proof (induction left x n m rule: binsort_loop.induct)
  case (1 left x n m)
  show ?case
  proof (cases "m < n")
    case True
    let ?y = "merge_all le m x"
    have p: "merge_pass left x m 0 = Inr ?y" using merge_pass_all [of x left le m 0] 1 by simp
    have y: "chunks_sorted le (m * 2) ?y" "\<forall>a. ok a \<longrightarrow> filter (eqv a) ?y = filter (eqv a) x" "mset ?y = mset x"
      using chunks_sorted_merge_all [of m x] mset_merge_all [of m le x] 1 by (auto simp: mult.commute)
    then have s: "set ?y = set x" "length ?y = length x" by (metis mset_eq_setD) (metis y(3) mset_eq_length)
    have "\<exists>z. binsort_loop left ?y n (m * 2) = Inr z \<and> sorted_wrt le z \<and> mset z = mset ?y \<and> (\<forall>a. ok a \<longrightarrow> filter (eqv a) z = filter (eqv a) ?y)"
      using 1 True p y s by (intro "1.IH") (auto simp: list_all_iff)
    then show ?thesis using p y True 1 by (subst binsort_loop.simps) auto
  next
    case False
    then have "sorted_wrt le x" using 1 chunks_sorted.simps [of le m x] by (cases "x = []") auto
    then show ?thesis using False by (subst binsort_loop.simps) auto
  qed
qed

lemma binsort_correct:
  assumes "\<And>a b. a \<in> set x \<Longrightarrow> b \<in> set x \<Longrightarrow> left a b = Inr (le a b)" "list_all ok x"
  shows "\<exists>y. binsort left x = Inr y \<and> sorted_wrt le y \<and> mset y = mset x \<and> (\<forall>a. ok a \<longrightarrow> filter (eqv a) y = filter (eqv a) x)"
  unfolding binsort_def using assms chunks_sorted_1 by (intro binsort_loop_correct) auto

end

section \<open>The built-in sort\<close>

lemma left_test_cells:
  assumes "ordered_cell k a" "ordered_cell k b"
  shows "left_test (compareCells M) a b = Inr (cells.le M a b)"
  using cells.cmp_returns [OF assms, of M] by (auto simp: left_test_def cells.le_def)

lemma eqv_cells:
  assumes "ordered_cell k a" "ordered_cell k b"
  shows "cells.eqv M a b \<longleftrightarrow> compareCells M a b = Inr 0"
  using cells.cmp_returns [OF assms, of M] cells.cmp_swap [OF assms, of M] unfolding cells.eqv_def cells.le_def by force

text \<open>(C30) Sorting a list of comparable cells returns without an error a permutation of it that
  is in ascending order, and cells that compare equal keep their order.\<close>

theorem sort_correct:
  assumes "list_all (ordered_cell k) cs"
  shows "\<exists>ys. p_sort M None (CELL_EXPRESSION cs) = Inr (CELL_EXPRESSION ys) \<and> mset ys = mset cs \<and>
    sorted_wrt (\<lambda>a b. \<exists>c. compareCells M a b = Inr c \<and> c \<le> 0) ys \<and>
    (\<forall>a. ordered_cell k a \<longrightarrow> filter (\<lambda>c. compareCells M a c = Inr 0) ys = filter (\<lambda>c. compareCells M a c = Inr 0) cs)"
proof -
  obtain ys where y: "binsort (left_test (compareCells M)) cs = Inr ys" "sorted_wrt (cells.le M) ys" "mset ys = mset cs"
    "\<forall>a. ordered_cell k a \<longrightarrow> filter (cells.eqv M a) ys = filter (cells.eqv M a) cs"
    using cells.binsort_correct [of cs "left_test (compareCells M)" M k] left_test_cells [of k] assms by (auto simp: list_all_iff)
  have set: "set ys = set cs" using y(3) by (metis set_mset_mset)
  have f: "filter (cells.eqv M a) zs = filter (\<lambda>c. compareCells M a c = Inr 0) zs"
    if "ordered_cell k a" "set zs = set cs" for a zs
    using that assms eqv_cells [of k a] by (intro filter_cong) (auto simp: list_all_iff)
  have "sorted_wrt (\<lambda>a b. \<exists>c. compareCells M a b = Inr c \<and> c \<le> 0) ys"
    by (rule sorted_wrt_mono_rel [OF _ y(2)]) (simp add: cells.le_def)
  then show ?thesis using y f set by (auto simp: p_sort_def)
qed

theorem sort_correct_witness:
  "\<forall>M. \<exists>ys. p_sort M None (CELL_EXPRESSION [CELL_STRING ''b'', CELL_LONG 3, CELL_STRING ''a'']) = Inr (CELL_EXPRESSION ys) \<and>
     mset ys = {#CELL_STRING ''b'', CELL_LONG 3, CELL_STRING ''a''#}"
proof
  fix M
  have "list_all (ordered_cell Longs) [CELL_STRING ''b'', CELL_LONG 3, CELL_STRING ''a'']" by simp
  from sort_correct [OF this, of M]
  show "\<exists>ys. p_sort M None (CELL_EXPRESSION [CELL_STRING ''b'', CELL_LONG 3, CELL_STRING ''a'']) = Inr (CELL_EXPRESSION ys) \<and>
     mset ys = {#CELL_STRING ''b'', CELL_LONG 3, CELL_STRING ''a''#}" by auto
qed

end
