(* ===== verification/NL_Sets.thy ===== *)
theory NL_Sets
  imports NL_Sort
begin

text \<open>
  The set functions of \<^verbatim>\<open>nl-list.c\<close>: \<^verbatim>\<open>unique\<close>, \<^verbatim>\<open>intersect\<close>,
  \<^verbatim>\<open>difference\<close>, \<^verbatim>\<open>union\<close> (all through \<^verbatim>\<open>setInterDiff\<close>) and
  \<^verbatim>\<open>count\<close>. They sort both lists, walk them in parallel and bring the survivors back into
  their original order. The walk is written over an arbitrary comparison and verified inside
  \<open>total_comparison\<close>; the results say which positions of the first list survive.
\<close>

section \<open>Definitions\<close>

datatype set_mode = SET_INTER | SET_DIFF | SET_UNIQUE

datatype set_move = Accept | Skip | NextB

text \<open>The switch at the head of the loop: \<open>bs\<close> is the second vector from the current
  position on, empty when there is no second list.\<close>

definition set_decide ::
  "('a \<Rightarrow> 'a \<Rightarrow> int result) \<Rightarrow> set_mode \<Rightarrow> 'a \<Rightarrow> 'a list \<Rightarrow> set_move result" where
  "set_decide cmp mode a bs =
     (case bs of
        [] \<Rightarrow> Inr Accept
      | b # rest \<Rightarrow>
          (case mode of
             SET_UNIQUE \<Rightarrow> Inr Accept
           | SET_INTER \<Rightarrow>
               map_sum id
                 (\<lambda>c. if c = 0 then Accept else if c < 0 then Skip
                      else if rest \<noteq> [] then NextB else Skip)
                 (cmp a b)
           | SET_DIFF \<Rightarrow>
               map_sum id
                 (\<lambda>c. if c = 0 then Skip else if c < 0 then Accept
                      else if rest \<noteq> [] then NextB else Accept)
                 (cmp a b)))"

text \<open>An accepted element is stored unless it equals the one stored last; in list mode it
  always is. The result is kept with its last element first.\<close>

definition set_store ::
  "('a \<Rightarrow> 'a \<Rightarrow> int result) \<Rightarrow> bool \<Rightarrow> 'a \<times> nat \<Rightarrow> ('a \<times> nat) list \<Rightarrow> ('a \<times> nat) list result" where
  "set_store cmp listMode a acc =
     (case acc of
        [] \<Rightarrow> Inr [a]
      | t # _ \<Rightarrow> map_sum id (\<lambda>c. if c \<noteq> 0 \<or> listMode then a # acc else acc) (cmp (fst a) (fst t)))"

function set_loop ::
  "('a \<Rightarrow> 'a \<Rightarrow> int result) \<Rightarrow> set_mode \<Rightarrow> bool \<Rightarrow> ('a \<times> nat) list \<Rightarrow> 'a list \<Rightarrow>
     ('a \<times> nat) list \<Rightarrow> ('a \<times> nat) list result" where
  "set_loop cmp mode listMode [] bs acc = Inr acc"
| "set_loop cmp mode listMode (a # as) bs acc =
     (case set_decide cmp mode (fst a) bs of
        Inl e \<Rightarrow> Inl e
      | Inr Skip \<Rightarrow> set_loop cmp mode listMode as bs acc
      | Inr NextB \<Rightarrow> if bs = [] then Inr acc else set_loop cmp mode listMode (a # as) (tl bs) acc
      | Inr Accept \<Rightarrow>
          (case set_store cmp listMode a acc of
             Inl e \<Rightarrow> Inl e
           | Inr acc' \<Rightarrow> set_loop cmp mode listMode as bs acc'))"
  by pat_completeness auto
termination
  by (relation "measure (\<lambda>(cmp, mode, lm, as, bs, acc). length as + length bs)") auto

text \<open>\<^verbatim>\<open>setInterDiff\<close> on the two lists of cells.\<close>

definition setInterDiff ::
  "('a \<Rightarrow> 'a \<Rightarrow> int result) \<Rightarrow> set_mode \<Rightarrow> bool \<Rightarrow> 'a list \<Rightarrow> 'a list \<Rightarrow> 'a list result" where
  "setInterDiff cmp mode listMode listA listB =
     (if listA = [] \<or> mode = SET_INTER \<and> listB = [] then Inr []
      else
        (case listToSortedVector cmp listA of
           Inl e \<Rightarrow> Inl e
         | Inr vectorA \<Rightarrow>
             (case (if mode = SET_UNIQUE then Inr [] else binsort (left_test cmp) listB) of
                Inl e \<Rightarrow> Inl e
              | Inr vectorB \<Rightarrow>
                  (case set_loop cmp mode (listMode \<and> mode \<noteq> SET_UNIQUE) vectorA vectorB [] of
                     Inl e \<Rightarrow> Inl e
                   | Inr acc \<Rightarrow> resortVectorToList (rev acc)))))"

text \<open>The primitives on cells; a context stands for its default functor.\<close>

definition getListHead :: "machine \<Rightarrow> cell \<Rightarrow> cell list result" where
  "getListHead M c =
     (case (case c of CELL_CONTEXT s \<Rightarrow> deflt M s | _ \<Rightarrow> c) of
        CELL_EXPRESSION cs \<Rightarrow> Inr cs
      | CELL_LAMBDA cs \<Rightarrow> Inr cs
      | CELL_FEXPR cs \<Rightarrow> Inr cs
      | _ \<Rightarrow> Inl ERR_LIST_EXPECTED)"

definition p_unique :: "machine \<Rightarrow> cell \<Rightarrow> cell result" where
  "p_unique M a =
     (case getListHead M a of
        Inl e \<Rightarrow> Inl e
      | Inr listA \<Rightarrow> map_sum id CELL_EXPRESSION (setInterDiff (compareCells M) SET_UNIQUE False listA []))"

definition set_binary :: "machine \<Rightarrow> set_mode \<Rightarrow> cell \<Rightarrow> cell \<Rightarrow> bool \<Rightarrow> cell result" where
  "set_binary M mode a b listMode =
     (case getListHead M a of
        Inl e \<Rightarrow> Inl e
      | Inr listA \<Rightarrow>
          if listA = [] then Inr (CELL_EXPRESSION [])
          else
            (case getListHead M b of
               Inl e \<Rightarrow> Inl e
             | Inr listB \<Rightarrow>
                 map_sum id CELL_EXPRESSION
                   (setInterDiff (compareCells M) mode listMode listA listB)))"

definition p_intersect :: "machine \<Rightarrow> cell \<Rightarrow> cell option \<Rightarrow> bool \<Rightarrow> cell result" where
  "p_intersect M a b listMode =
     (case b of None \<Rightarrow> p_unique M a | Some b' \<Rightarrow> set_binary M SET_INTER a b' listMode)"

definition p_difference :: "machine \<Rightarrow> cell \<Rightarrow> cell \<Rightarrow> bool \<Rightarrow> cell result" where
  "p_difference M a b listMode = set_binary M SET_DIFF a b listMode"

text \<open>The loop of \<^verbatim>\<open>count\<close>: how often each item occurs in the sorted list, by the index of
  the item.\<close>

function count_loop ::
  "('a \<Rightarrow> 'a \<Rightarrow> int result) \<Rightarrow> 'a list \<Rightarrow> ('a \<times> nat) list \<Rightarrow> nat list \<Rightarrow> nat list result" where
  "count_loop cmp [] items counts = Inr counts"
| "count_loop cmp (x # xs) [] counts = Inr counts"
| "count_loop cmp (x # xs) ((b, idx) # rest) counts =
     (case cmp x b of
        Inl e \<Rightarrow> Inl e
      | Inr c \<Rightarrow>
          if c = 0 then count_loop cmp xs ((b, idx) # rest) (counts[idx := counts ! idx + 1])
          else if c < 0 then count_loop cmp xs ((b, idx) # rest) counts
          else if rest \<noteq> [] then count_loop cmp (x # xs) rest counts
          else count_loop cmp xs ((b, idx) # rest) counts)"
  by pat_completeness auto
termination
  by (relation "measure (\<lambda>(cmp, xs, items, counts). length xs + length items)") auto

definition count_items :: "('a \<Rightarrow> 'a \<Rightarrow> int result) \<Rightarrow> 'a list \<Rightarrow> 'a list \<Rightarrow> nat list result" where
  "count_items cmp items list =
     (if items = [] then Inr []
      else
        (case listToSortedVector cmp items of
           Inl e \<Rightarrow> Inl e
         | Inr vectorItems \<Rightarrow>
             (case binsort (left_test cmp) list of
                Inl e \<Rightarrow> Inl e
              | Inr vectorList \<Rightarrow>
                  count_loop cmp vectorList vectorItems (replicate (length items) 0))))"

definition p_count :: "machine \<Rightarrow> cell \<Rightarrow> cell \<Rightarrow> cell result" where
  "p_count M a b =
     (case getListHead M a of
        Inl e \<Rightarrow> Inl e
      | Inr items \<Rightarrow>
          (case getListHead M b of
             Inl e \<Rightarrow> Inl e
           | Inr list \<Rightarrow>
               map_sum id (\<lambda>ns. CELL_EXPRESSION (map (\<lambda>n. CELL_LONG (int n)) ns))
                 (count_items (compareCells M) items list)))"

section \<open>Sorting by index\<close>

lemma sort_key_unique:
  fixes f :: "'a \<Rightarrow> nat"
  assumes "mset xs = mset ys" "inj_on f (set ys)" "sorted (map f xs)" "sorted (map f ys)"
  shows "xs = ys"
proof -
  have "sort_key f ys = xs" by (rule sort_key_inj_key_eq [OF assms(1) [symmetric] assms(2,3)])
  moreover have "sort_key f ys = ys" by (rule sort_key_inj_key_eq [OF refl assms(2,4)])
  ultimately show ?thesis by simp
qed

interpretation index: total_comparison "\<lambda>_. True" "\<lambda>a b :: 'a \<times> nat. Inr (if snd a < snd b then -1 else if snd b < snd a then 1 else 0)"
  by unfold_locales (auto split: if_splits)

lemma resort_index:
  assumes "mset xs = mset (filter K (zip as [0..<length as]))"
  shows "resortVectorToList xs = Inr (map fst (filter K (zip as [0..<length as])))"
proof -
  let ?T = "filter K (zip as [0..<length as])"
  have le: "index.le a b \<longleftrightarrow> snd a \<le> snd b" for a b :: "'a \<times> nat" by (auto simp: index.le_def)
  obtain y where y: "binsort left_index xs = Inr y" "sorted_wrt index.le y" "mset y = mset xs"
    using index.binsort_correct [of xs left_index] by (auto simp: left_index_def le list_all_iff)
  have srt: "sorted (map snd ?T)" 
  proof -
    have "sorted (map snd (zip as [0..<length as]))" by simp
    then show ?thesis by (rule sorted_filter)
  qed
  have "inj_on snd (set (zip as [0..<length as]))" by (auto simp: inj_on_def set_zip)
  then have inj: "inj_on snd (set ?T)" by (rule inj_on_subset) auto
  have "index.le = (\<lambda>a b :: 'a \<times> nat. snd a \<le> snd b)" by (intro ext) (rule le)
  then have "sorted (map snd y)" using y(2) by (simp add: sorted_wrt_map)
  then have "y = ?T" using sort_key_unique [of y ?T snd] y(3) assms inj srt by simp
  then show ?thesis using y(1) by (simp add: resortVectorToList_def)
qed

section \<open>The parallel walk\<close>

context total_comparison
begin

lemma pair_comparison: "total_comparison (\<lambda>p :: 'a \<times> nat. ok (fst p)) (\<lambda>p q. cmp (fst p) (fst q))"
  using cmp_returns cmp_swap cmp_trans by unfold_locales blast+

lemma left_test_le: "ok a \<Longrightarrow> ok b \<Longrightarrow> left_test cmp a b = Inr (le a b)"
  using cmp_returns [of a b] by (auto simp: left_test_def le_def)

lemma le_refl: "ok x \<Longrightarrow> le x x"
  using le_total by blast

lemma eqv_sym: "eqv x y \<longleftrightarrow> eqv y x"
  by (auto simp: eqv_def)

lemma eqv_trans: "ok x \<Longrightarrow> ok y \<Longrightarrow> ok z \<Longrightarrow> eqv x y \<Longrightarrow> eqv y z \<Longrightarrow> eqv x z"
  unfolding eqv_def using le_trans by blast

lemma eqv_cmp: "ok x \<Longrightarrow> ok y \<Longrightarrow> eqv x y \<longleftrightarrow> cmp x y = Inr 0"
  using cmp_returns [of x y] cmp_swap [of x y] unfolding eqv_def le_def by force

definition numbered_le :: "'a \<times> nat \<Rightarrow> 'a \<times> nat \<Rightarrow> bool" where
  "numbered_le p q \<longleftrightarrow> le (fst p) (fst q) \<and> (eqv (fst p) (fst q) \<longrightarrow> snd p < snd q)"

lemma sorted_classes:
  assumes "sorted_wrt (\<lambda>p q. le (fst p) (fst q)) y" "\<forall>p\<in>set y. ok (fst p)"
    "\<And>a. ok a \<Longrightarrow> sorted_wrt (<) (map snd (filter (\<lambda>p. eqv a (fst p)) y))"
  shows "sorted_wrt numbered_le y"
  using assms
proof (induction y)
  case (Cons p y)
  have "sorted_wrt (<) (map snd (filter (\<lambda>q. eqv a (fst q)) y))" if "ok a" for a
    using Cons.prems(3) [OF that] by (auto split: if_splits)
  then have IH: "sorted_wrt numbered_le y" using Cons by auto
  have "numbered_le p q" if "q \<in> set y" for q
  proof -
    have "eqv (fst p) (fst p)" using Cons.prems(2) le_refl by (auto simp: eqv_def)
    then have "\<forall>q\<in>set (filter (\<lambda>q. eqv (fst p) (fst q)) y). snd p < snd q" using Cons.prems(3) [of "fst p"] Cons.prems(2) by auto
    then show ?thesis using Cons.prems(1) that by (cases q) (auto simp: numbered_le_def)
  qed
  then show ?case using IH by simp
qed simp

lemma listToSortedVector_correct:
  assumes "list_all ok as"
  shows "\<exists>v. listToSortedVector cmp as = Inr v \<and> sorted_wrt numbered_le v \<and> mset v = mset (zip as [0..<length as])"
proof -
  let ?z = "zip as [0..<length as]"
  have okz: "\<forall>p\<in>set ?z. ok (fst p)" using assms by (auto simp: list_all_iff dest: set_zip_leftD)
  have le2: "total_comparison.le (\<lambda>p q :: 'a \<times> nat. cmp (fst p) (fst q)) = (\<lambda>p q. le (fst p) (fst q))"
    "total_comparison.eqv (\<lambda>p q :: 'a \<times> nat. cmp (fst p) (fst q)) = (\<lambda>p q. eqv (fst p) (fst q))"
    by (intro ext, simp add: total_comparison.le_def [OF pair_comparison] total_comparison.eqv_def [OF pair_comparison] le_def eqv_def)+
  obtain v where v: "listToSortedVector cmp as = Inr v" "sorted_wrt (\<lambda>p q. le (fst p) (fst q)) v" "mset v = mset ?z"
    "\<forall>a. ok (fst a) \<longrightarrow> filter (\<lambda>p. eqv (fst a) (fst p)) v = filter (\<lambda>p. eqv (fst a) (fst p)) ?z"
    using total_comparison.binsort_correct [OF pair_comparison, of ?z "\<lambda>a b. left_test cmp (fst a) (fst b)"] okz left_test_le
    unfolding listToSortedVector_def le2 by (auto simp: list_all_iff)
  have set: "set v = set ?z" using v(3) by (metis set_mset_mset)
  have "sorted_wrt (<) (map snd ?z)" by (simp add: sorted_wrt_upt)
  then have "sorted_wrt (<) (map snd (filter (\<lambda>p. eqv a (fst p)) ?z))" for a
    unfolding sorted_wrt_map by (rule sorted_wrt_filter)
  then have "sorted_wrt (<) (map snd (filter (\<lambda>p. eqv a (fst p)) v))" if "ok a" for a using v(4) that by (metis fst_conv)
  then have "sorted_wrt numbered_le v" using sorted_classes [OF v(2)] okz set by auto
  then show ?thesis using v by blast
qed

definition push :: "bool \<Rightarrow> 'a \<times> nat \<Rightarrow> ('a \<times> nat) list \<Rightarrow> ('a \<times> nat) list" where
  "push lm a acc = (if acc = [] \<or> \<not> eqv (fst a) (fst (hd acc)) \<or> lm then a # acc else acc)"

lemma set_store_push:
  assumes "ok (fst a)" "\<forall>p\<in>set acc. ok (fst p)"
  shows "set_store cmp lm a acc = Inr (push lm a acc)"
proof (cases acc)
  case (Cons t ts)
  then show ?thesis using assms cmp_returns [of "fst a" "fst t"] eqv_cmp [of "fst a" "fst t"]
    by (auto simp: set_store_def push_def)
qed (simp add: set_store_def push_def)

fun wanted :: "set_mode \<Rightarrow> 'a list \<Rightarrow> 'a \<Rightarrow> bool" where
  "wanted SET_INTER bs a = (bs = [] \<or> (\<exists>b\<in>set bs. eqv a b))"
| "wanted SET_DIFF bs a = (\<not> (\<exists>b\<in>set bs. eqv a b))"
| "wanted SET_UNIQUE bs a = True"

lemma cmp_pos: "ok a \<Longrightarrow> ok b \<Longrightarrow> cmp a b = Inr c \<Longrightarrow> 0 < c \<Longrightarrow> \<not> le a b"
  by (auto simp: le_def)

lemma cmp_neg: "ok a \<Longrightarrow> ok b \<Longrightarrow> cmp a b = Inr c \<Longrightarrow> c < 0 \<Longrightarrow> \<not> le b a"
  using cmp_swap [of a b c] by (auto simp: le_def)

lemma wanted_walk:
  assumes a: "ok a" "list_all ok bs" "ok b" "cmp a b = Inr c" and
    as: "\<forall>p\<in>set as. le a p \<and> ok p" and bs: "\<forall>x\<in>set bs. le b x"
  shows "c < 0 \<Longrightarrow> \<not> (\<exists>x\<in>set (b # bs). eqv a x)"
    "0 < c \<Longrightarrow> p \<in> set (a # as) \<Longrightarrow> \<not> eqv p b"
proof -
  show "\<not> (\<exists>x\<in>set (b # bs). eqv a x)" if "c < 0"
  proof
    assume "\<exists>x\<in>set (b # bs). eqv a x"
    then obtain x where x: "x \<in> set (b # bs)" "eqv a x" by blast
    then have "ok x" "le b x" using a bs le_refl by (auto simp: list_all_iff)
    then have "le b a" using le_trans [OF a(3) _ a(1), of x] x by (auto simp: eqv_def)
    then show False using cmp_neg [OF a(1,3,4)] that by blast
  qed
  show "\<not> eqv p b" if "0 < c" "p \<in> set (a # as)"
  proof
    assume "eqv p b"
    have "ok p" "le a p" using that as a le_refl by auto
    then have "le a b" using le_trans [OF a(1) _ a(3), of p] \<open>eqv p b\<close> by (auto simp: eqv_def)
    then show False using cmp_pos [OF a(1,3,4)] that by blast
  qed
qed

lemma wanted_drop:
  assumes "\<not> eqv a b" "bs \<noteq> []"
  shows "wanted mode (b # bs) a = wanted mode bs a"
  using assms by (cases mode) auto

lemma set_loop_push:
  assumes "\<forall>p\<in>set as. ok (fst p)" "list_all ok bs" "sorted_wrt (\<lambda>p q. le (fst p) (fst q)) as" "sorted_wrt le bs" "\<forall>p\<in>set acc. ok (fst p)"
    "mode = SET_UNIQUE \<longrightarrow> bs = []"
  shows "set_loop cmp mode lm as bs acc = Inr (fold (push lm) (filter (\<lambda>p. wanted mode bs (fst p)) as) acc)"
  using assms
proof (induction "length as + length bs" arbitrary: as bs acc rule: less_induct)
  case less
  show ?case
  proof (cases as)
    case a: (Cons a as')
    let ?W = "\<lambda>bs p. wanted mode bs (fst p)"
    have oka: "ok (fst a)" "\<forall>p\<in>set as'. le (fst a) (fst p) \<and> ok (fst p)" using less.prems a by auto
    have acc: "\<forall>p\<in>set (push lm a acc). ok (fst p)" using less.prems oka by (auto simp: push_def)
    have skip: "set_loop cmp mode lm as' bs acc = Inr (fold (push lm) (filter (?W bs) as') acc)"
      using less.hyps [of as' bs acc] less.prems a by auto
    have accept: "set_loop cmp mode lm as' bs (push lm a acc) = Inr (fold (push lm) (filter (?W bs) as') (push lm a acc))"
      using less.hyps [of as' bs "push lm a acc"] less.prems a acc by auto
    note st = set_store_push [OF oka(1) less.prems(5), of lm]
    show ?thesis
    proof (cases bs)
      case Nil
      have "wanted mode [] (fst a)" by (cases mode) auto
      then show ?thesis using a Nil accept st by (simp add: set_decide_def)
    next
      case b: (Cons b bs')
      have okb: "ok b" "list_all ok bs'" "\<forall>x\<in>set bs'. le b x" using less.prems b by auto
      obtain c where c: "cmp (fst a) b = Inr c" using cmp_returns oka okb by blast
      have asm: "\<forall>p\<in>set (map fst as'). le (fst a) p \<and> ok p" using oka(2) by auto
      note walk = wanted_walk [OF oka(1) okb(2,1) c asm okb(3)]
      have mode: "mode \<noteq> SET_UNIQUE" using less.prems b by auto
      consider (eq) "c = 0" | (neg) "c < 0" | (next_b) "0 < c" "bs' \<noteq> []" | (last_b) "0 < c" "bs' = []" by linarith
      then show ?thesis
      proof cases
        case eq
        then have "eqv (fst a) b" using c eqv_cmp oka okb by blast
        then show ?thesis using a b c eq skip accept st mode by (cases mode) (auto simp: set_decide_def)
      next
        case neg
        then show ?thesis using a b c skip accept st mode walk(1) by (cases mode) (auto simp: set_decide_def)
      next
        case next_b
        have w: "?W bs p = ?W bs' p" if "p \<in> set as" for p
          unfolding b using that walk(2) [OF next_b(1), of "fst p"] a next_b by (intro wanted_drop) auto
        have f: "filter (?W bs) as = filter (?W bs') as" by (rule filter_cong [OF refl w])
        have "set_loop cmp mode lm as bs' acc = Inr (fold (push lm) (filter (?W bs') as) acc)"
          using less.hyps [of as bs' acc] less.prems b mode by auto
        moreover have "set_decide cmp mode (fst a) bs = Inr NextB" using next_b b c mode by (cases mode) (auto simp: set_decide_def)
        ultimately show ?thesis using a b f by simp
      next
        case last_b
        have "\<not> eqv (fst a) b" using walk(2) [OF last_b(1), of "fst a"] by simp
        then show ?thesis using a b c last_b skip accept st mode by (cases mode) (auto simp: set_decide_def)
      qed
    qed
  qed simp
qed

lemma fold_push_list: "fold (push True) xs acc = rev xs @ acc"
  by (induction xs arbitrary: acc) (auto simp: push_def)

definition first_of :: "('a \<times> nat) list \<Rightarrow> 'a \<times> nat \<Rightarrow> bool" where
  "first_of xs p \<longleftrightarrow> (\<forall>q\<in>set xs. eqv (fst q) (fst p) \<longrightarrow> snd p \<le> snd q)"

lemma fold_push_first:
  assumes "sorted_wrt numbered_le xs" "\<forall>p\<in>set xs. ok (fst p)"
  shows "fold (push False) xs [] = rev (filter (first_of xs) xs) \<and>
    (xs \<noteq> [] \<longrightarrow> filter (first_of xs) xs \<noteq> [] \<and> eqv (fst (last (filter (first_of xs) xs))) (fst (last xs)))"
  using assms
proof (induction xs rule: rev_induct)
  case (snoc x xs)
  let ?F = "filter (first_of xs) xs"
  have IH: "fold (push False) xs [] = rev ?F" "xs \<noteq> [] \<Longrightarrow> ?F \<noteq> [] \<and> eqv (fst (last ?F)) (fst (last xs))"
    using snoc by (auto simp: sorted_wrt_append)
  have ok: "ok (fst x)" "\<forall>p\<in>set xs. ok (fst p)" using snoc.prems by auto
  have before: "numbered_le p x" if "p \<in> set xs" for p using snoc.prems(1) that by (auto simp: sorted_wrt_append)
  have same: "first_of (xs @ [x]) p = first_of xs p" if "p \<in> set xs" for p
    using before [OF that] eqv_sym by (auto simp: first_of_def numbered_le_def)
  have fx: "first_of (xs @ [x]) x \<longleftrightarrow> \<not> (\<exists>q\<in>set xs. eqv (fst q) (fst x))"
    using before unfolding first_of_def numbered_le_def by fastforce
  have F: "filter (first_of (xs @ [x])) (xs @ [x]) = ?F @ (if first_of (xs @ [x]) x then [x] else [])"
    using filter_cong [OF refl same] by simp
  have refl: "eqv (fst x) (fst x)" using le_refl ok by (simp add: eqv_def)
  show ?case
  proof (cases "xs = []")
    case True
    then show ?thesis using F fx refl by (simp add: push_def)
  next
    case False
    let ?l = "fst (last xs)" and ?h = "fst (last ?F)"
    have lx: "last xs \<in> set xs" "last ?F \<in> set xs" using False IH(2) last_in_set [of ?F] by auto
    then have okl: "ok ?l" "ok ?h" using ok by auto
    have h: "?F \<noteq> []" "eqv ?h ?l" using IH(2) False by auto
    have "eqv (fst x) ?h \<longleftrightarrow> (\<exists>q\<in>set xs. eqv (fst q) (fst x))"
    proof
      assume "eqv (fst x) ?h"
      then show "\<exists>q\<in>set xs. eqv (fst q) (fst x)" using lx eqv_sym by blast
    next
      assume "\<exists>q\<in>set xs. eqv (fst q) (fst x)"
      then obtain q where q: "q \<in> set xs" "eqv (fst q) (fst x)" by blast
      have okq: "ok (fst q)" using q ok by blast
      have "le (fst q) ?l"
      proof (cases "q = last xs")
        case True then show ?thesis using le_refl okl by simp
      next
        case False
        have "xs = butlast xs @ [last xs]" using \<open>xs \<noteq> []\<close> by simp
        moreover have "sorted_wrt numbered_le xs" using snoc.prems by (simp add: sorted_wrt_append)
        ultimately have "numbered_le q (last xs)" using q False
          by (metis Un_iff empty_iff empty_set insert_iff list.set(2) set_append sorted_wrt_append)
        then show ?thesis by (simp add: numbered_le_def)
      qed
      moreover have "le ?l (fst x)" using before [OF lx(1)] by (simp add: numbered_le_def)
      ultimately have "eqv ?l (fst x)" using q le_trans [OF ok(1) okq okl(1)] by (auto simp: eqv_def)
      then show "eqv (fst x) ?h" using eqv_trans [OF okl(2,1) ok(1)] h eqv_sym by blast
    qed
    then have "push False x (rev ?F) = rev (filter (first_of (xs @ [x])) (xs @ [x]))"
      using F fx h by (auto simp: push_def hd_rev)
    moreover have "eqv (fst (last (filter (first_of (xs @ [x])) (xs @ [x])))) (fst x)"
      using F fx refl \<open>eqv (fst x) ?h \<longleftrightarrow> _\<close> eqv_sym by auto
    ultimately show ?thesis using IH(1) F h by simp
  qed
qed simp

lemma filter_first:
  assumes "\<And>p q. p \<in> set v \<Longrightarrow> q \<in> set v \<Longrightarrow> eqv (fst q) (fst p) \<Longrightarrow> W p = W q"
  shows "filter (first_of (filter W v)) (filter W v) = filter (\<lambda>p. W p \<and> first_of v p) v"
proof -
  have "first_of (filter W v) p = first_of v p" if "p \<in> set v" "W p" for p
    using assms that unfolding first_of_def by fastforce
  then show ?thesis unfolding filter_filter by (intro filter_cong [OF refl]) auto
qed

lemma wanted_eqv:
  assumes "ok a" "ok b" "list_all ok bs" "eqv b a"
  shows "wanted mode bs a = wanted mode bs b"
proof -
  have "eqv a x = eqv b x" if "x \<in> set bs" for x
    using that assms eqv_trans [of a b x] eqv_trans [of b a x] eqv_sym by (auto simp: list_all_iff)
  then show ?thesis by (cases mode) auto
qed

lemma wanted_mset: "mset bs = mset cs \<Longrightarrow> wanted mode bs a = wanted mode cs a"
  by (cases mode) (auto dest: mset_eq_setD)

lemma setInterDiff_correct:
  assumes "list_all ok as" "list_all ok bs"
  shows "setInterDiff cmp mode lm as bs =
    Inr (map ((!) as) (filter (\<lambda>i. (wanted mode bs (as ! i) \<and> (mode = SET_INTER \<longrightarrow> bs \<noteq> [])) \<and>
      (lm \<and> mode \<noteq> SET_UNIQUE \<or> (\<forall>j<i. \<not> eqv (as ! j) (as ! i)))) [0..<length as]))"
proof -
  let ?z = "zip as [0..<length as]"
  define L where "L = (lm \<and> mode \<noteq> SET_UNIQUE)"
  obtain v where v: "listToSortedVector cmp as = Inr v" "sorted_wrt numbered_le v" "mset v = mset ?z"
    using listToSortedVector_correct [OF assms(1)] by blast
  obtain w where w: "binsort (left_test cmp) bs = Inr w" "sorted_wrt le w" "mset w = mset bs"
    using binsort_correct [of bs "left_test cmp"] left_test_le assms(2) by (auto simp: list_all_iff)
  define bw where "bw = (if mode = SET_UNIQUE then [] else w)"
  define W where "W = (\<lambda>p :: 'a \<times> nat. wanted mode bw (fst p))"
  have sv: "set v = set ?z" "set w = set bs" using v(3) w(3) by (metis set_mset_mset)+
  have okv: "\<forall>p\<in>set v. ok (fst p)" using sv assms by (auto simp: list_all_iff dest: set_zip_leftD)
  have okw: "list_all ok bw" using sv assms by (auto simp: list_all_iff bw_def)
  have sle: "sorted_wrt (\<lambda>p q. le (fst p) (fst q)) v" by (rule sorted_wrt_mono_rel [OF _ v(2)]) (auto simp: numbered_le_def)
  have loop: "set_loop cmp mode L v bw [] = Inr (fold (push L) (filter W v) [])"
    unfolding W_def using okv okw sle w(2) by (intro set_loop_push) (auto simp: bw_def)
  have sf: "sorted_wrt numbered_le (filter W v)" "\<forall>p\<in>set (filter W v). ok (fst p)" using v(2) okv by (auto intro: sorted_wrt_filter)
  let ?K = "\<lambda>p. W p \<and> (L \<or> first_of v p)"
  have acc: "rev (fold (push L) (filter W v) []) = filter ?K v"
  proof (cases L)
    case False
    then have "fold (push L) (filter W v) [] = rev (filter (first_of (filter W v)) (filter W v))"
      using fold_push_first [OF sf] by (simp only: False)
    moreover have "filter (first_of (filter W v)) (filter W v) = filter (\<lambda>p. W p \<and> first_of v p) v"
      unfolding W_def using okv okw by (intro filter_first wanted_eqv) auto
    ultimately show ?thesis using False by simp
  qed (simp add: fold_push_list)
  have res: "resortVectorToList (filter ?K v) = Inr (map fst (filter ?K ?z))"
    using v(3) by (intro resort_index) simp
  have z: "?z = map (\<lambda>i. (as ! i, i)) [0..<length as]" by (rule nth_equalityI) auto
  have K: "?K (as ! i, i) \<longleftrightarrow> wanted mode bs (as ! i) \<and> (L \<or> (\<forall>j<i. \<not> eqv (as ! j) (as ! i)))" if "i < length as" for i
  proof -
    have "first_of v (as ! i, i) \<longleftrightarrow> (\<forall>j<i. \<not> eqv (as ! j) (as ! i))"
      using that sv(1) unfolding first_of_def z by (auto simp: not_le [symmetric]) (metis linorder_not_le order.strict_trans)
    moreover have "W (as ! i, i) = wanted mode bs (as ! i)" using wanted_mset [OF w(3)] by (cases mode) (auto simp: W_def bw_def)
    ultimately show ?thesis by simp
  qed
  have fin: "map fst (filter ?K ?z) = map ((!) as) (filter (\<lambda>i. wanted mode bs (as ! i) \<and> (L \<or> (\<forall>j<i. \<not> eqv (as ! j) (as ! i)))) [0..<length as])"
  proof -
    have "filter (\<lambda>i. ?K (as ! i, i)) [0..<length as] =
        filter (\<lambda>i. wanted mode bs (as ! i) \<and> (L \<or> (\<forall>j<i. \<not> eqv (as ! j) (as ! i)))) [0..<length as]"
      by (intro filter_cong refl K) simp
    then show ?thesis unfolding z filter_map map_map comp_def by simp
  qed
  show ?thesis
  proof (cases "as = [] \<or> mode = SET_INTER \<and> bs = []")
    case True
    then show ?thesis by (auto simp: setInterDiff_def)
  next
    case False
    then have "setInterDiff cmp mode lm as bs = resortVectorToList (rev (fold (push L) (filter W v) []))"
      using v(1) w(1) loop unfolding bw_def L_def by (cases "mode = SET_UNIQUE") (auto simp: setInterDiff_def)
    then have "setInterDiff cmp mode lm as bs = Inr (map ((!) as)
        (filter (\<lambda>i. wanted mode bs (as ! i) \<and> (L \<or> (\<forall>j<i. \<not> eqv (as ! j) (as ! i)))) [0..<length as]))"
      by (simp only: acc res fin)
    then show ?thesis using False by (auto simp: L_def)
  qed
qed

end

section \<open>The set primitives\<close>

abbreviation same :: "machine \<Rightarrow> cell \<Rightarrow> cell \<Rightarrow> bool" where
  "same M a b \<equiv> compareCells M a b = Inr 0"

lemma wanted_cells:
  assumes "ordered_cell k a" "list_all (ordered_cell k) bs"
  shows "cells.wanted M SET_INTER bs a \<longleftrightarrow> bs = [] \<or> (\<exists>b\<in>set bs. same M a b)"
    "cells.wanted M SET_DIFF bs a \<longleftrightarrow> \<not> (\<exists>b\<in>set bs. same M a b)"
  using assms eqv_cells [of k a _ M] by (simp_all add: cells.wanted.simps list_all_iff)

text \<open>(C31) On lists of comparable cells \<^verbatim>\<open>unique\<close> keeps the first of each group of
  equal elements, \<^verbatim>\<open>intersect\<close> of these the ones that occur in the second list, and
  \<^verbatim>\<open>difference\<close> the ones that do not, all in the order of the first list; in list mode
  the repeated elements stay.\<close>

theorem set_functions:
  assumes "list_all (ordered_cell k) as" "list_all (ordered_cell k) bs"
  shows "p_unique M (CELL_EXPRESSION as) = Inr (CELL_EXPRESSION
      (map ((!) as) (filter (\<lambda>i. \<not> (\<exists>j<i. same M (as ! j) (as ! i))) [0..<length as]))) \<and>
    p_intersect M (CELL_EXPRESSION as) (Some (CELL_EXPRESSION bs)) listMode = Inr (CELL_EXPRESSION
      (map ((!) as) (filter (\<lambda>i. (\<exists>b\<in>set bs. same M (as ! i) b) \<and>
         (listMode \<or> \<not> (\<exists>j<i. same M (as ! j) (as ! i)))) [0..<length as]))) \<and>
    p_difference M (CELL_EXPRESSION as) (CELL_EXPRESSION bs) listMode = Inr (CELL_EXPRESSION
      (map ((!) as) (filter (\<lambda>i. \<not> (\<exists>b\<in>set bs. same M (as ! i) b) \<and>
         (listMode \<or> \<not> (\<exists>j<i. same M (as ! j) (as ! i)))) [0..<length as])))"
proof -
  have ok: "ordered_cell k (as ! i)" if "i < length as" for i using assms(1) that by (simp add: list_all_length)
  have e: "cells.eqv M (as ! j) (as ! i) \<longleftrightarrow> same M (as ! j) (as ! i)" if "i < length as" "j < i" for i j
    using eqv_cells [OF ok ok, of j i M] that by simp
  have sid: "setInterDiff (compareCells M) mode lm as cs = Inr (map ((!) as) (filter (\<lambda>i.
      (cells.wanted M mode cs (as ! i) \<and> (mode = SET_INTER \<longrightarrow> cs \<noteq> [])) \<and>
      (lm \<and> mode \<noteq> SET_UNIQUE \<or> (\<forall>j<i. \<not> same M (as ! j) (as ! i)))) [0..<length as]))"
    if "list_all (ordered_cell k) cs" for mode lm cs
    unfolding cells.setInterDiff_correct [OF assms(1) that] using e by (auto intro!: map_cong filter_cong)
  have u: "p_unique M (CELL_EXPRESSION as) = Inr (CELL_EXPRESSION
      (map ((!) as) (filter (\<lambda>i. \<not> (\<exists>j<i. same M (as ! j) (as ! i))) [0..<length as])))"
    using sid [of "[]" SET_UNIQUE False] by (simp add: p_unique_def getListHead_def cells.wanted.simps)
  have "filter (\<lambda>i. (cells.wanted M SET_INTER bs (as ! i) \<and> (SET_INTER = SET_INTER \<longrightarrow> bs \<noteq> [])) \<and>
        (listMode \<and> SET_INTER \<noteq> SET_UNIQUE \<or> (\<forall>j<i. \<not> same M (as ! j) (as ! i)))) [0..<length as] =
      filter (\<lambda>i. (\<exists>b\<in>set bs. same M (as ! i) b) \<and> (listMode \<or> \<not> (\<exists>j<i. same M (as ! j) (as ! i)))) [0..<length as]"
  proof (rule filter_cong [OF refl], goal_cases)
    case (1 i)
    then have "cells.wanted M SET_INTER bs (as ! i) \<longleftrightarrow> bs = [] \<or> (\<exists>b\<in>set bs. same M (as ! i) b)"
      using wanted_cells(1) [OF ok assms(2)] by simp
    then show ?case by (cases bs) (auto simp del: cells.wanted.simps)
  qed
  then have i: "set_binary M SET_INTER (CELL_EXPRESSION as) (CELL_EXPRESSION bs) listMode = Inr (CELL_EXPRESSION
      (map ((!) as) (filter (\<lambda>i. (\<exists>b\<in>set bs. same M (as ! i) b) \<and>
         (listMode \<or> \<not> (\<exists>j<i. same M (as ! j) (as ! i)))) [0..<length as])))"
    using sid [OF assms(2), of SET_INTER listMode] by (simp add: set_binary_def getListHead_def del: cells.wanted.simps)
  have "filter (\<lambda>i. (cells.wanted M SET_DIFF bs (as ! i) \<and> (SET_DIFF = SET_INTER \<longrightarrow> bs \<noteq> [])) \<and>
        (listMode \<and> SET_DIFF \<noteq> SET_UNIQUE \<or> (\<forall>j<i. \<not> same M (as ! j) (as ! i)))) [0..<length as] =
      filter (\<lambda>i. \<not> (\<exists>b\<in>set bs. same M (as ! i) b) \<and> (listMode \<or> \<not> (\<exists>j<i. same M (as ! j) (as ! i)))) [0..<length as]"
  proof (rule filter_cong [OF refl], goal_cases)
    case (1 i)
    then have "cells.wanted M SET_DIFF bs (as ! i) \<longleftrightarrow> \<not> (\<exists>b\<in>set bs. same M (as ! i) b)"
      using wanted_cells(2) [OF ok assms(2)] by simp
    then show ?case by (auto simp del: cells.wanted.simps)
  qed
  then have d: "set_binary M SET_DIFF (CELL_EXPRESSION as) (CELL_EXPRESSION bs) listMode = Inr (CELL_EXPRESSION
      (map ((!) as) (filter (\<lambda>i. \<not> (\<exists>b\<in>set bs. same M (as ! i) b) \<and>
         (listMode \<or> \<not> (\<exists>j<i. same M (as ! j) (as ! i)))) [0..<length as])))"
    using sid [OF assms(2), of SET_DIFF listMode] by (simp add: set_binary_def getListHead_def del: cells.wanted.simps)
  show ?thesis using u i d by (simp add: p_intersect_def p_difference_def)
qed

theorem set_functions_witness:
  "\<forall>M. p_unique M (CELL_EXPRESSION [CELL_LONG 3, CELL_LONG 1, CELL_LONG 3]) = Inr (CELL_EXPRESSION [CELL_LONG 3, CELL_LONG 1]) \<and>
     p_difference M (CELL_EXPRESSION [CELL_LONG 3, CELL_LONG 1, CELL_LONG 3]) (CELL_EXPRESSION [CELL_LONG 1]) True =
       Inr (CELL_EXPRESSION [CELL_LONG 3, CELL_LONG 3])"
proof
  fix M
  let ?a = "[CELL_LONG 3, CELL_LONG 1, CELL_LONG 3]" and ?b = "[CELL_LONG 1]"
  have c: "compareCells M (CELL_LONG m) (CELL_LONG n) = Inr 0 \<longleftrightarrow> m = n" for m n
    by (simp add: compareCells.simps compareAddr_def)
  have l: "list_all (ordered_cell Longs) ?a" "list_all (ordered_cell Longs) ?b" by simp_all
  have u: "[0..<length ?a] = [0, 1, 2]" by (simp add: upt_rec)
  have ex: "(\<exists>j<0. P j) = False" "(\<exists>j<1. P j) = P 0" "(\<exists>j<2. P j) = (P 0 \<or> P 1)"
    "(\<forall>j<2. P j) = (P 0 \<and> P 1)" for P :: "nat \<Rightarrow> bool"
    by (auto simp: less_Suc_eq numeral_2_eq_2)
  show "p_unique M (CELL_EXPRESSION ?a) = Inr (CELL_EXPRESSION [CELL_LONG 3, CELL_LONG 1]) \<and>
     p_difference M (CELL_EXPRESSION ?a) (CELL_EXPRESSION ?b) True = Inr (CELL_EXPRESSION [CELL_LONG 3, CELL_LONG 3])"
    using set_functions [OF l, of M True] unfolding u ex by (simp add: c ex)
qed

end
