(* ===== verification/NL_Crypt.thy ===== *)
theory NL_Crypt
  imports NL_Cell
begin

text \<open>
  Three routines of \<^verbatim>\<open>nl-math.c\<close> that work on machine words and bytes: the one-pad
  encryption (\<^verbatim>\<open>encryptPad\<close>, \<^verbatim>\<open>p_encrypt\<close>), the checksum
  (\<^verbatim>\<open>update_crc\<close>, \<^verbatim>\<open>p_crc32\<close>) and the built-in random generator
  (\<^verbatim>\<open>my_random\<close>, \<^verbatim>\<open>my_srandom\<close>). The lemmas show that encryption is its own
  inverse, that the table-driven checksum is the bitwise division by the CRC polynomial, and
  that the generator computes the Park-Miller recurrence without leaving 32-bit integers.
\<close>

unbundle bit_operations_syntax

section \<open>Definitions\<close>

text \<open>Characters are XORed bit by bit.\<close>

definition xor_char :: "char \<Rightarrow> char \<Rightarrow> char" where
  "xor_char a b = char_of (of_char a XOR of_char b :: nat)"

fun encrypt_loop :: "nat \<Rightarrow> string \<Rightarrow> string \<Rightarrow> string" where
  "encrypt_loop i [] key = []"
| "encrypt_loop i (d # data) key =
     xor_char d (key ! (i mod length key)) # encrypt_loop (Suc i) data key"

definition encryptPad :: "string \<Rightarrow> string \<Rightarrow> string" where
  "encryptPad data key = encrypt_loop 0 data key"

text \<open>A context stands for the contents of its default functor.\<close>

definition getStringSize :: "machine \<Rightarrow> cell \<Rightarrow> string result" where
  "getStringSize M c =
     (case (case c of CELL_CONTEXT s \<Rightarrow> deflt M s | _ \<Rightarrow> c) of
        CELL_STRING s \<Rightarrow> Inr s
      | _ \<Rightarrow> Inl ERR_STRING_EXPECTED)"

definition p_encrypt :: "machine \<Rightarrow> cell \<Rightarrow> cell \<Rightarrow> cell result" where
  "p_encrypt M d k =
     (case getStringSize M d of
        Inl e \<Rightarrow> Inl e
      | Inr data \<Rightarrow>
          (case getStringSize M k of
             Inl e \<Rightarrow> Inl e
           | Inr key \<Rightarrow>
               if length key = 0 then Inl ERR_STRING_EXPECTED
               else Inr (CELL_STRING (encryptPad data key))))"

text \<open>One step of the loop that fills the table, and the table.\<close>

definition crc_step :: "32 word \<Rightarrow> 32 word" where
  "crc_step c = (if c AND 1 \<noteq> 0 then 0xedb88320 XOR drop_bit 1 c else drop_bit 1 c)"

definition crc_entry :: "32 word \<Rightarrow> 32 word" where
  "crc_entry n = (crc_step ^^ 8) n"

definition crc_table :: "32 word list" where
  "crc_table = map (\<lambda>n. crc_entry (of_nat n)) [0..<256]"

fun update_crc :: "32 word \<Rightarrow> string \<Rightarrow> 32 word" where
  "update_crc c [] = c"
| "update_crc c (b # buf) =
     update_crc (crc_table ! unat ((c XOR of_char b) AND 0xff) XOR drop_bit 8 c) buf"

definition p_crc32 :: "machine \<Rightarrow> cell \<Rightarrow> cell result" where
  "p_crc32 M c =
     map_sum id (\<lambda>data. CELL_LONG (uint (update_crc 0xffffffff data XOR 0xffffffff)))
       (getStringSize M c)"

text \<open>The generator's state is the 32-bit seed; the assignment to an \<^verbatim>\<open>int32_t\<close> reads
  it as a signed number.\<close>

definition my_random :: "int \<Rightarrow> int" where
  "my_random randseed =
     (let x = (if randseed = 0 then 123459876 else signed_take_bit 31 randseed);
          hi = x sdiv 127773;
          lo = x smod 127773;
          t = 16807 * lo - 2836 * hi
      in if t < 0 then t + 0x7fffffff else t)"

definition my_srandom :: "nat \<Rightarrow> int \<Rightarrow> int" where
  "my_srandom nshuff seed = (my_random ^^ nshuff) seed"

section \<open>Encryption\<close>

lemma of_char_nat_less: "(of_char c :: nat) < 2 ^ 8"
  using nat_of_char_less_256 [of c] by simp

lemma of_xor_char: "(of_char (xor_char a b) :: nat) = of_char a XOR of_char b"
proof -
  have "(of_char a XOR of_char b :: nat) < 2 ^ 8"
    using of_char_nat_less [of a] of_char_nat_less [of b]
    by (metis take_bit_nat_eq_self_iff take_bit_xor)
  then show ?thesis by (simp add: xor_char_def)
qed

lemma xor_char_cancel: "xor_char (xor_char a b) b = a"
proof -
  have "(of_char (xor_char (xor_char a b) b) :: nat) = of_char a"
    by (simp add: of_xor_char xor.assoc)
  then show ?thesis by simp
qed

lemma encrypt_loop_twice: "encrypt_loop i (encrypt_loop i data key) key = data"
  by (induction data arbitrary: i) (simp_all add: xor_char_cancel)

text \<open>(C22) Encrypting with a non-empty key twice gives the data back, and an empty key is an
  error.\<close>

theorem encrypt_involution:
  "(key \<noteq> [] \<longrightarrow> (\<exists>c. p_encrypt M (CELL_STRING data) (CELL_STRING key) = Inr c \<and>
      p_encrypt M c (CELL_STRING key) = Inr (CELL_STRING data))) \<and>
   p_encrypt M (CELL_STRING data) (CELL_STRING []) = Inl ERR_STRING_EXPECTED"
  by (simp add: p_encrypt_def getStringSize_def encryptPad_def encrypt_loop_twice)

theorem encrypt_involution_witness:
  "\<forall>M. \<exists>c. p_encrypt M (CELL_STRING ''attack at dawn'') (CELL_STRING ''key'') = Inr c \<and>
     p_encrypt M c (CELL_STRING ''key'') = Inr (CELL_STRING ''attack at dawn'')"
  using encrypt_involution [of "''key''"] by blast

section \<open>Checksum\<close>

lemma crc_step_linear: "crc_step (a XOR b) = crc_step a XOR crc_step b"
proof -
  have p: "x AND 1 \<noteq> 0 \<longleftrightarrow> bit x 0" for x :: "32 word" by (simp add: and_one_eq even_iff_mod_2_eq_zero [symmetric] bit_0)
  show ?thesis by (cases "bit a 0"; cases "bit b 0")
    (simp_all add: crc_step_def p bit_xor_iff drop_bit_xor xor.assoc xor.left_commute)
qed

lemma crc_steps_linear: "(crc_step ^^ n) (a XOR b) = (crc_step ^^ n) a XOR (crc_step ^^ n) b"
  by (induction n) (simp_all add: crc_step_linear)

fun crc_bitwise :: "32 word \<Rightarrow> string \<Rightarrow> 32 word" where
  "crc_bitwise c [] = c"
| "crc_bitwise c (b # buf) = crc_bitwise ((crc_step ^^ 8) (c XOR of_char b)) buf"

lemma crc_steps_high: "n \<le> 8 \<Longrightarrow> \<forall>i<n. \<not> bit x i \<Longrightarrow> (crc_step ^^ n) x = drop_bit n x"
proof (induction n)
  case (Suc n)
  then have x: "(crc_step ^^ n) x = drop_bit n x" by simp
  have "\<not> bit (drop_bit n x) 0" using Suc.prems by (simp add: bit_drop_bit_eq)
  then have "drop_bit n x AND 1 = 0" by (simp add: and_one_eq even_iff_mod_2_eq_zero [symmetric] bit_0)
  then have "crc_step (drop_bit n x) = drop_bit (Suc n) x" by (simp add: crc_step_def)
  then show ?case using x by simp
qed simp

lemma mask8: "(x :: 32 word) AND 0xff = take_bit 8 x"
  by (simp add: take_bit_eq_mask mask_eq_exp_minus_1)

lemma crc_byte: "(crc_step ^^ 8) x = crc_table ! unat (x AND 0xff) XOR drop_bit 8 x"
proof -
  let ?lo = "take_bit 8 x" and ?hi = "x AND NOT (mask 8)"
  have split: "x = ?lo XOR ?hi" by (rule bit_eqI) (auto simp: bit_simps)
  have l: "unat ?lo < 256" by (simp add: unsigned_take_bit_eq take_bit_eq_mod [of 8 "unat x"] del: take_bit_eq_mod)
  have "(crc_step ^^ 8) ?hi = drop_bit 8 ?hi" by (rule crc_steps_high) (auto simp: bit_simps)
  moreover have "drop_bit 8 ?hi = drop_bit 8 x"
    by (rule bit_eqI) (auto simp: bit_simps dest: bit_imp_le_length)
  moreover have "crc_table ! unat ?lo = (crc_step ^^ 8) ?lo" using l by (simp add: crc_table_def crc_entry_def)
  ultimately show ?thesis using crc_steps_linear [of 8 ?lo ?hi] split by (simp add: mask8)
qed

lemma drop_bit_char: "drop_bit 8 (of_char b :: 32 word) = 0"
proof -
  have c: "(of_char b :: 32 word) = of_nat (of_char b)" by (simp add: of_nat_of_char)
  have "(of_char b :: nat) < 2 ^ 32" by (rule order.strict_trans [OF nat_of_char_less_256]) simp
  then have u: "unat (of_char b :: 32 word) = of_char b" unfolding c unat_of_nat by simp
  have "unat (of_char b div 256 :: 32 word) = unat (of_char b :: 32 word) div 256" by (simp add: unat_div)
  then have "unat (of_char b div 256 :: 32 word) = 0" unfolding u by simp
  then show ?thesis by (simp add: drop_bit_eq_div unsigned_eq_0_iff)
qed

text \<open>(C21) The table-driven checksum is the bitwise one: one shift and conditional XOR with
  the polynomial for every bit of the data.\<close>

theorem update_crc_bitwise: "update_crc c buf = crc_bitwise c buf"
  by (induction buf arbitrary: c) (simp_all add: crc_byte drop_bit_xor drop_bit_char)

lemma my_random_eq:
  assumes "0 < x" "x < 2 ^ 31 - 1"
  shows "my_random x = 16807 * x mod (2 ^ 31 - 1)" 
proof -
  have sx: "signed_take_bit 31 x = x" using assms by (intro signed_take_bit_int_eq_self) auto
  define hi lo where hl: "hi = x div 127773" "lo = x mod 127773"
  have x: "x = 127773 * hi + lo" "0 \<le> lo" "lo < 127773" "0 \<le> hi" "hi \<le> 16807" using assms unfolding hl by auto
  let ?t = "16807 * lo - 2836 * hi"
  have b: "?t < 2 ^ 31 - 1" "- (2 ^ 31 - 1) < ?t" using x by auto
  have e: "16807 * x = ?t + hi * (2 ^ 31 - 1)" using x by simp
  have "16807 * x mod (2 ^ 31 - 1) = ?t mod (2 ^ 31 - 1)" unfolding e by (rule mod_mult_self1)
  also have "\<dots> = (if ?t < 0 then ?t + (2 ^ 31 - 1) else ?t)"
  proof (cases "?t < 0")
    case True
    then have "?t mod (2 ^ 31 - 1) = (?t + (2 ^ 31 - 1)) mod (2 ^ 31 - 1)" by (simp only: mod_add_self2)
    also have "\<dots> = ?t + (2 ^ 31 - 1)" using True b by (intro mod_pos_pos_trivial) auto
    finally show ?thesis using True by simp
  qed (use b in simp)
  finally show ?thesis using assms sx hl by (simp add: my_random_def Let_def c_arith)
qed

lemma park_miller_nonzero:
  assumes "0 < x" "x < (2 ^ 31 - 1 :: int)"
  shows "0 < 16807 * x mod (2 ^ 31 - 1) \<and> 16807 * x mod (2 ^ 31 - 1) < 2 ^ 31 - 1"
proof -
  have "coprime (2 ^ 31 - 1 :: int) 16807" by (simp add: coprime_iff_gcd_eq_1 gcd_non_0_int)
  then have "\<not> (2 ^ 31 - 1) dvd 16807 * x" using assms by (metis coprime_dvd_mult_right_iff zdvd_not_zless)
  then have "16807 * x mod (2 ^ 31 - 1) \<noteq> 0" by (simp only: dvd_eq_mod_eq_0 not_False_eq_True)
  moreover have "0 \<le> 16807 * x mod (2 ^ 31 - 1)" by simp
  ultimately show ?thesis by simp
qed

text \<open>(C23) The generator started from a seed between 1 and \<open>2 ^ 31 - 2\<close> has after
  \<open>n\<close> steps the state \<open>16807 ^ n * seed mod (2 ^ 31 - 1)\<close>, which never becomes 0: Schrage's
  decomposition computes the product modulo the Mersenne prime.\<close>

theorem my_srandom_correct:
  assumes "0 < seed" "seed < 2 ^ 31 - 1"
  shows "my_srandom n seed = 16807 ^ n * seed mod (2 ^ 31 - 1) \<and> 0 < my_srandom n seed \<and> my_srandom n seed < 2 ^ 31 - 1"
proof (induction n)
  case (Suc n)
  let ?s = "my_srandom n seed"
  have "my_srandom (Suc n) seed = 16807 * ?s mod (2 ^ 31 - 1)" using my_random_eq [of ?s] Suc by (simp add: my_srandom_def)
  moreover have "16807 * ?s mod (2 ^ 31 - 1) = 16807 ^ Suc n * seed mod (2 ^ 31 - 1)"
    using Suc by (metis mod_mult_right_eq mult.assoc power_Suc)
  ultimately show ?case using park_miller_nonzero [of ?s] Suc by simp
qed (use assms in \<open>simp add: my_srandom_def\<close>)

theorem my_srandom_correct_witness: "my_srandom 2 1 = 282475249"
  using my_srandom_correct [of 1 2] by simp

end
