(* ===== verification/NL_Codec.thy ===== *)
theory NL_Codec
  imports NL_Crypt
begin

text \<open>
The text codecs of \<^verbatim>\<open>nl-web.c\<close>: base64 (\<^verbatim>\<open>Curl_base64_encode\<close>,
  \<^verbatim>\<open>Curl_base64_decode\<close> and the primitives on top of them) and the percent decoding of
  request paths (\<^verbatim>\<open>url_decode\<close>). The lemmas end in the round trip of base64 on all
  strings and in the correctness of \<^verbatim>\<open>url_decode\<close> for every percent encoding.
\<close>


unbundle bit_operations_syntax

section \<open>Base64: definitions\<close>

text \<open>The value a character of the alphabet adds to the quantum; other characters are skipped.\<close>

definition sextet :: "char \<Rightarrow> int option" where
  "sextet c =
     (if byte CHR ''A'' \<le> byte c \<and> byte c \<le> byte CHR ''Z'' then Some (byte c - byte CHR ''A'')
      else if byte CHR ''a'' \<le> byte c \<and> byte c \<le> byte CHR ''z'' then Some (byte c - byte CHR ''a'' + 26)
      else if byte CHR ''0'' \<le> byte c \<and> byte c \<le> byte CHR ''9'' then Some (byte c - byte CHR ''0'' + 52)
      else if c = CHR ''+'' then Some 62
      else if c = CHR ''/'' then Some 63
      else if c = CHR ''='' then Some 0
      else None)"

text \<open>The loop over the four characters; \<open>x\<close> is an unsigned integer of 32 bits.\<close>

fun quantum :: "int \<Rightarrow> string \<Rightarrow> int" where
  "quantum x [] = x"
| "quantum x (c # src) =
     quantum (case sextet c of None \<Rightarrow> x | Some d \<Rightarrow> take_bit 32 (push_bit 6 x + d)) src"

definition decodeQuantum :: "string \<Rightarrow> string" where
  "decodeQuantum src =
     (let x = quantum 0 (take 4 src)
      in [char_of (drop_bit 8 (drop_bit 8 x) AND 255), char_of (drop_bit 8 x AND 255), char_of (x AND 255)])"

fun decode_quantums :: "nat \<Rightarrow> nat \<Rightarrow> string \<Rightarrow> string" where
  "decode_quantums 0 equalsTerm src = take (3 - equalsTerm) (decodeQuantum src)"
| "decode_quantums (Suc n) equalsTerm src = decodeQuantum src @ decode_quantums n equalsTerm (drop 4 src)"

definition Curl_base64_decode :: "string \<Rightarrow> string" where
  "Curl_base64_decode src =
     (let len = length (takeWhile (\<lambda>c. c \<noteq> CHR ''='' \<and> c \<noteq> CHR 0x00) src);
          equals = length (takeWhile (\<lambda>c. c = CHR ''='') (drop len src));
          equalsTerm = (if equals > 3 then 3 else equals);
          numQuantums = (len + equalsTerm) div 4
      in if numQuantums = 0 then [] else decode_quantums (numQuantums - 1) equalsTerm src)"

definition table64 :: string where
  "table64 = ''ABCDEFGHIJKLMNOPQRSTUVWXYZabcdefghijklmnopqrstuvwxyz0123456789+/''"

definition code64 :: "int \<Rightarrow> char" where
  "code64 k = table64 ! nat k"

definition obuf :: "char \<Rightarrow> char \<Rightarrow> char \<Rightarrow> int list" where
  "obuf a b c =
     [drop_bit 2 (byte a AND 0xFC),
      push_bit 4 (byte a AND 0x03) OR drop_bit 4 (byte b AND 0xF0),
      push_bit 2 (byte b AND 0x0F) OR drop_bit 6 (byte c AND 0xC0),
      byte c AND 0x3F]"

fun Curl_base64_encode :: "string \<Rightarrow> string" where
  "Curl_base64_encode [] = []"
| "Curl_base64_encode [a] = map code64 (take 2 (obuf a (CHR 0x00) (CHR 0x00))) @ ''==''"
| "Curl_base64_encode [a, b] = map code64 (take 3 (obuf a b (CHR 0x00))) @ ''=''"
| "Curl_base64_encode (a # b # c # inp) = map code64 (obuf a b c) @ Curl_base64_encode inp"

datatype base64_type = BASE64_ENC | BASE64_DEC

definition base64 :: "machine \<Rightarrow> cell \<Rightarrow> bool \<Rightarrow> base64_type \<Rightarrow> cell result" where
  "base64 M params emptyFlag type =
     (case getStringSize M params of
        Inl e \<Rightarrow> Inl e
      | Inr inPtr \<Rightarrow>
          Inr (CELL_STRING
            (case type of
               BASE64_ENC \<Rightarrow> (if length inPtr = 0 then (if emptyFlag then [] else ''===='')
                              else Curl_base64_encode inPtr)
             | BASE64_DEC \<Rightarrow> Curl_base64_decode inPtr)))"

section \<open>Base64: one quantum\<close>

lemma sextet_code64: "0 \<le> k \<Longrightarrow> k < 64 \<Longrightarrow> sextet (code64 k) = Some k"
proof -
  have "\<forall>k\<in>set [0..63]. sextet (code64 k) = Some k" by code_simp
  then show "0 \<le> k \<Longrightarrow> k < 64 \<Longrightarrow> sextet (code64 k) = Some k" by auto
qed

lemma code64_not_equals: "0 \<le> k \<Longrightarrow> k < 64 \<Longrightarrow> code64 k \<noteq> CHR ''='' \<and> code64 k \<noteq> CHR 0x00"
proof -
  have "\<forall>k\<in>set [0..63]. code64 k \<noteq> CHR ''='' \<and> code64 k \<noteq> CHR 0x00" by code_simp
  then show "0 \<le> k \<Longrightarrow> k < 64 \<Longrightarrow> code64 k \<noteq> CHR ''='' \<and> code64 k \<noteq> CHR 0x00" by auto
qed

lemma byte_fields:
  "drop_bit 2 (byte a AND 0xFC) = byte a div 4"  "byte a AND 0x03 = byte a mod 4"
  "drop_bit 4 (byte a AND 0xF0) = byte a div 16" "byte a AND 0x0F = byte a mod 16"
  "drop_bit 6 (byte a AND 0xC0) = byte a div 64" "byte a AND 0x3F = byte a mod 64"
proof -
  have "\<forall>x\<in>set [0..255::int]. drop_bit 2 (x AND 0xFC) = x div 4 \<and> x AND 0x03 = x mod 4 \<and>
      drop_bit 4 (x AND 0xF0) = x div 16 \<and> x AND 0x0F = x mod 16 \<and>
      drop_bit 6 (x AND 0xC0) = x div 64 \<and> x AND 0x3F = x mod 64" by code_simp
  moreover have "byte a \<in> set [0..255]" using byte_range [of a] by simp
  ultimately show "drop_bit 2 (byte a AND 0xFC) = byte a div 4"  "byte a AND 0x03 = byte a mod 4"
    "drop_bit 4 (byte a AND 0xF0) = byte a div 16" "byte a AND 0x0F = byte a mod 16"
    "drop_bit 6 (byte a AND 0xC0) = byte a div 64" "byte a AND 0x3F = byte a mod 64" by blast+
qed

lemma or_fields:
  assumes "0 \<le> y" "y < 2 ^ k"
  shows "push_bit k x OR y = 2 ^ k * x + (y::int)"
proof -
  have "push_bit k x AND y = 0"
  proof (rule bit_eqI)
    fix n
    have "bit y n \<Longrightarrow> n < k" using assms by (metis bit_take_bit_iff take_bit_int_eq_self)
    then show "bit (push_bit k x AND y) n = bit 0 n" by (auto simp: bit_simps)
  qed
  then have "push_bit k x OR y = push_bit k x + y" by (simp add: disjunctive_add_eq_or)
  then show ?thesis by (simp add: push_bit_eq_mult)
qed

lemma obuf_eq:
  "obuf a b c = [byte a div 4, 16 * (byte a mod 4) + byte b div 16, 4 * (byte b mod 16) + byte c div 64, byte c mod 64]"
  using byte_range [of a] byte_range [of b] byte_range [of c]
  unfolding obuf_def byte_fields by (simp add: or_fields div_less_iff_less_mult)

lemma obuf_range: "k \<in> set (obuf a b c) \<Longrightarrow> 0 \<le> k \<and> k < 64"
  using byte_range [of a] byte_range [of b] byte_range [of c] by (auto simp: obuf_eq)

lemma quantum_step:
  assumes "sextet c = Some d" "0 \<le> d" "d < 64" "0 \<le> x" "x < 2 ^ 18"
  shows "quantum x (c # s) = quantum (64 * x + d) s"
proof -
  have "take_bit 32 (64 * x + d) = 64 * x + d" using assms by (intro take_bit_int_eq_self) simp_all
  then show ?thesis using assms by (simp add: push_bit_eq_mult algebra_simps)
qed

lemma quantum4:
  assumes "sextet c0 = Some d0" "sextet c1 = Some d1" "sextet c2 = Some d2" "sextet c3 = Some d3"
    and "0 \<le> d0" "d0 < 64" "0 \<le> d1" "d1 < 64" "0 \<le> d2" "d2 < 64" "0 \<le> d3" "d3 < 64"
  shows "quantum 0 [c0, c1, c2, c3] = 64 * (64 * (64 * d0 + d1) + d2) + d3"
  using assms by (simp add: quantum_step del: quantum.simps(2))

lemma regroup:
  "x = 4 * x1 + x0 \<Longrightarrow> y = 16 * y1 + y0 \<Longrightarrow> z = 64 * z1 + z0 \<Longrightarrow>
   64 * (64 * (64 * x1 + (16 * x0 + y1)) + (4 * y0 + z1)) + z0 = 256 * (256 * x + y) + (z::int)"
  by simp

lemma decode_obuf:
  assumes "map sextet src = map Some (obuf a b c)"
  shows "decodeQuantum (src @ r) = [a, b, c]"
proof -
  obtain c0 c1 c2 c3 where src: "src = [c0, c1, c2, c3]"
    using arg_cong [OF assms, of length] by (auto simp: obuf_def length_Suc_conv)
  have range: "0 \<le> k \<and> k < 64" if "k \<in> set (obuf a b c)" for k using that by (rule obuf_range)
  have "quantum 0 [c0, c1, c2, c3] =
      64 * (64 * (64 * (byte a div 4) + (16 * (byte a mod 4) + byte b div 16)) + (4 * (byte b mod 16) + byte c div 64)) + byte c mod 64"
  proof (rule quantum4)
    show "sextet c0 = Some (byte a div 4)" "sextet c1 = Some (16 * (byte a mod 4) + byte b div 16)"
      "sextet c2 = Some (4 * (byte b mod 16) + byte c div 64)" "sextet c3 = Some (byte c mod 64)"
      using assms unfolding src obuf_eq by simp_all
  qed (use range [unfolded obuf_eq] in \<open>simp_all only: list.set insert_iff simp_thms\<close>)
  also have "\<dots> = 256 * (256 * byte a + byte b) + byte c"
    by (rule regroup) (simp_all only: mult_div_mod_eq)
  finally have x: "quantum 0 [c0, c1, c2, c3] = 256 * (256 * byte a + byte b) + byte c" .
  have and255: "y AND 255 = y mod 256" for y :: int
    using take_bit_eq_mask [of 8 y] by (simp add: mask_eq_exp_minus_1 take_bit_eq_mod)
  have exp: "2 ^ 8 = (256 :: int)" by simp
  have field: "drop_bit 8 (256 * y + byte z) = y" "char_of ((256 * y + byte z) mod 256) = z" for y z
  proof -
    have "(256 * y + byte z) div 256 = y" using byte_range [of z] by simp
    then show "drop_bit 8 (256 * y + byte z) = y" unfolding drop_bit_eq_div exp .
    have "(256 * y + byte z) mod 256 = byte z" using byte_range [of z] by simp
    then show "char_of ((256 * y + byte z) mod 256) = z" by (simp only: byte_def) simp
  qed
  have "char_of (byte a mod 256) = a" using field(2) [of 0 a] by simp
  moreover have "take 4 ([c0, c1, c2, c3] @ r) = [c0, c1, c2, c3]" by simp
  ultimately show ?thesis
    unfolding decodeQuantum_def src Let_def by (simp only: x and255 field)
qed

lemma map_sextet: "set ks \<subseteq> {0..<64} \<Longrightarrow> map sextet (map code64 ks) = map Some ks"
  by (simp add: sextet_code64 subset_eq)

lemma map_sextet_take: "map sextet (map code64 (take n (obuf a b c))) = map Some (take n (obuf a b c))"
  by (rule map_sextet) (use obuf_range [of _ a b c] in \<open>auto dest: in_set_takeD\<close>)

lemma sextet_equals: "sextet CHR ''='' = Some 0"
  by (simp add: sextet_def byte_def)

lemma obuf_pad:
  "map Some (obuf a (CHR 0x00) (CHR 0x00)) = map Some (take 2 (obuf a (CHR 0x00) (CHR 0x00))) @ [Some 0, Some 0]"
  "map Some (obuf a b (CHR 0x00)) = map Some (take 3 (obuf a b (CHR 0x00))) @ [Some 0]"
  by (simp_all add: obuf_def byte_def)

section \<open>Base64: strings\<close>

lemma encode_length: "length (Curl_base64_encode s) = 4 * ((length s + 2) div 3)"
proof (induction s rule: Curl_base64_encode.induct)
  case (4 a b c s)
  have "(length (a # b # c # s) + 2) div 3 = Suc ((length s + 2) div 3)" by simp
  then show ?case using 4 by (simp only: Curl_base64_encode.simps length_append) (simp add: obuf_def)
qed (simp_all add: obuf_def)

text \<open>The padding of an encoded string: the number of missing bytes of its last quantum.\<close>

definition padding :: "string \<Rightarrow> nat" where
  "padding s = (if length s mod 3 = 0 then 0 else 3 - length s mod 3)"

lemma encode_padding:
  "\<exists>t. Curl_base64_encode s = t @ replicate (padding s) CHR ''='' \<and> set t \<subseteq> code64 ` {0..<64}"
proof (induction s rule: Curl_base64_encode.induct)
  case (2 a)
  then show ?case
    using obuf_range [of _ a "CHR 0x00" "CHR 0x00"] by (auto simp: padding_def obuf_def numeral_2_eq_2)
next
  case (3 a b)
  then show ?case
    using obuf_range [of _ a b "CHR 0x00"] by (auto simp: padding_def obuf_def)
next
  case (4 a b c s)
  then obtain t where "Curl_base64_encode s = t @ replicate (padding s) CHR ''=''" "set t \<subseteq> code64 ` {0..<64}"
    by blast
  then have "Curl_base64_encode (a # b # c # s) = (map code64 (obuf a b c) @ t) @ replicate (padding (a # b # c # s)) CHR ''='' \<and>
      set (map code64 (obuf a b c) @ t) \<subseteq> code64 ` {0..<64}"
    using obuf_range [of _ a b c] by (auto simp: padding_def)
  then show ?case by blast
qed (simp add: padding_def)

lemma decode_quantums_encode:
  "s \<noteq> [] \<Longrightarrow> decode_quantums ((length s + 2) div 3 - 1) (padding s) (Curl_base64_encode s) = s"
proof (induction s rule: Curl_base64_encode.induct)
  case (2 a)
  have "decodeQuantum (Curl_base64_encode [a] @ []) = [a, CHR 0x00, CHR 0x00]"
    by (rule decode_obuf) (simp add: map_sextet_take [of 2 a "CHR 0x00" "CHR 0x00"] obuf_pad(1) sextet_equals del: map_map)
  then show ?case by (simp add: padding_def)
next
  case (3 a b)
  have "decodeQuantum (Curl_base64_encode [a, b] @ []) = [a, b, CHR 0x00]"
    by (rule decode_obuf) (simp add: map_sextet_take [of 3 a b "CHR 0x00"] obuf_pad(2) sextet_equals del: map_map)
  then show ?case by (simp add: padding_def)
next
  case (4 a b c s)
  have q: "decodeQuantum (map code64 (obuf a b c) @ Curl_base64_encode s) = [a, b, c]"
    by (rule decode_obuf, rule map_sextet) (use obuf_range [of _ a b c] in auto)
  have d: "drop 4 (map code64 (obuf a b c) @ Curl_base64_encode s) = Curl_base64_encode s" by (simp add: obuf_def)
  show ?case
  proof (cases "s = []")
    case True
    then show ?thesis using q by (simp add: padding_def)
  next
    case False
    then have "(length s + 2) div 3 = Suc ((length s + 2) div 3 - 1)" by (cases s) auto
    then have "(length (a # b # c # s) + 2) div 3 - 1 = Suc ((length s + 2) div 3 - 1)" by simp
    moreover have "padding (a # b # c # s) = padding s" by (simp add: padding_def)
    ultimately show ?thesis using 4(1) [OF False] q d
      by (simp only: Curl_base64_encode.simps decode_quantums.simps) simp
  qed
qed simp

lemma decode_encode: "Curl_base64_decode (Curl_base64_encode s) = s"
proof (cases "s = []")
  case False
  obtain t where t: "Curl_base64_encode s = t @ replicate (padding s) CHR ''=''" "set t \<subseteq> code64 ` {0..<64}"
    using encode_padding by blast
  have plain: "\<forall>c\<in>set t. c \<noteq> CHR ''='' \<and> c \<noteq> CHR 0x00" using t(2) code64_not_equals by fastforce
  then have "takeWhile (\<lambda>c. c \<noteq> CHR ''='' \<and> c \<noteq> CHR 0x00) (t @ replicate (padding s) CHR ''='') = t"
    by (subst takeWhile_append2) (auto simp: takeWhile_replicate)
  moreover have "takeWhile (\<lambda>c. c = CHR ''='') (replicate (padding s) CHR ''='') = replicate (padding s) CHR ''=''"
    by (simp add: takeWhile_replicate)
  moreover have "length t + padding s = 4 * ((length s + 2) div 3)" using encode_length [of s] t(1) by simp
  moreover have "\<not> 3 < padding s" by (auto simp: padding_def)
  moreover have "(length s + 2) div 3 \<noteq> 0" using False by (cases s) auto
  ultimately show ?thesis
    using decode_quantums_encode [OF False] t(1) by (simp add: Curl_base64_decode_def Let_def)
qed (simp add: Curl_base64_decode_def)

lemma code64_in_table: "0 \<le> k \<Longrightarrow> k < 64 \<Longrightarrow> code64 k \<in> set table64"
  unfolding code64_def by (rule nth_mem) (simp add: table64_def)

text \<open>(C34) Decoding an encoded string gives it back, for every string and either representation of
  the empty string; the encoded string consists of quanta of four characters of the alphabet.\<close>

theorem base64_roundtrip:
  "\<exists>t. base64 M (CELL_STRING s) emptyFlag BASE64_ENC = Inr (CELL_STRING t) \<and>
       base64 M (CELL_STRING t) flag BASE64_DEC = Inr (CELL_STRING s) \<and>
       length t = (if s = [] \<and> \<not> emptyFlag then 4 else 4 * ((length s + 2) div 3)) \<and>
       set t \<subseteq> insert CHR ''='' (set table64)"
proof -
  obtain t where t: "Curl_base64_encode s = t @ replicate (padding s) CHR ''=''" "set t \<subseteq> code64 ` {0..<64}"
    using encode_padding by blast
  then have chars: "set (Curl_base64_encode s) \<subseteq> insert CHR ''='' (set table64)"
    using code64_in_table by (auto simp: set_replicate_conv_if)
  have "Curl_base64_decode ''===='' = []" by (simp add: Curl_base64_decode_def)
  then show ?thesis
    using chars decode_encode [of s] encode_length [of s] decode_encode [of "[]"]
    by (auto simp: base64_def getStringSize_def)
qed

section \<open>Percent encoding\<close>

definition hex_value :: "char \<Rightarrow> int option" where
  "hex_value c =
     (if byte CHR ''0'' \<le> byte c \<and> byte c \<le> byte CHR ''9'' then Some (byte c - byte CHR ''0'')
      else if byte CHR ''A'' \<le> byte c \<and> byte c \<le> byte CHR ''F'' then Some (byte c - byte CHR ''A'' + 10)
      else if byte CHR ''a'' \<le> byte c \<and> byte c \<le> byte CHR ''f'' then Some (byte c - byte CHR ''a'' + 10)
      else None)"

text \<open>Two digits make a \<^verbatim>\<open>char\<close>; anything else is copied.\<close>

fun url_decode :: "string \<Rightarrow> string" where
  "url_decode [] = []"
| "url_decode [c] = [c]"
| "url_decode [c, d] = [c, d]"
| "url_decode (c # h # l # src) =
     (if c = CHR ''%'' then
        (case (hex_value h, hex_value l) of
           (Some x, Some y) \<Rightarrow> char_of (16 * x + y) # url_decode src
         | _ \<Rightarrow> c # url_decode (h # l # src))
      else c # url_decode (h # l # src))"

text \<open>The encodings of a string: every byte stands for itself, the percent sign apart, or is
  written with two digits.\<close>

inductive url_encodes :: "string \<Rightarrow> string \<Rightarrow> bool" where
  url_end: "url_encodes [] []"
| url_plain: "c \<noteq> CHR ''%'' \<Longrightarrow> url_encodes s e \<Longrightarrow> url_encodes (c # s) (c # e)"
| url_escape: "hex_value h = Some x \<Longrightarrow> hex_value l = Some y \<Longrightarrow> url_encodes s e \<Longrightarrow>
    url_encodes (char_of (16 * x + y) # s) (CHR ''%'' # h # l # e)"

lemma url_decode_plain: "c \<noteq> CHR ''%'' \<Longrightarrow> url_decode (c # s) = c # url_decode s"
  by (cases "c # s" rule: url_decode.cases) auto

lemma url_decode_encodes: "url_encodes s e \<Longrightarrow> url_decode e = s \<and> length s \<le> length e"
  by (induction rule: url_encodes.induct) (auto simp: url_decode_plain)

lemma url_decode_length: "length (url_decode s) \<le> length s"
proof (induction s rule: length_induct)
  case (1 s)
  then show ?case
  proof (cases s rule: url_decode.cases)
    case (4 c h l src)
    have "length (url_decode src) \<le> length src" "length (url_decode (h # l # src)) \<le> length (h # l # src)"
      by (rule 1 [rule_format]; simp add: 4)+
    then show ?thesis using 4 by (auto split: option.split)
  qed simp_all
qed

text \<open>Every byte can be escaped.\<close>

lemma hex_digits: "\<exists>h l x y. hex_value h = Some x \<and> hex_value l = Some y \<and> c = char_of (16 * x + y)"
proof -
  have "\<forall>k\<in>set [0..15]. hex_value (''0123456789ABCDEF'' ! nat k) = Some k" by code_simp
  then have digit: "\<exists>h. hex_value h = Some k" if "0 \<le> k" "k < 16" for k
    using that by force
  have "\<exists>h. hex_value h = Some (byte c div 16)" "\<exists>l. hex_value l = Some (byte c mod 16)"
    using byte_range [of c] by (auto intro!: digit)
  moreover have "c = char_of (16 * (byte c div 16) + byte c mod 16)" by (simp only: mult_div_mod_eq) (simp add: byte_def)
  ultimately show ?thesis by blast
qed

text \<open>(C35) Decoding undoes every percent encoding of a string, each string has one that is
  made of percent signs and hexadecimal digits alone, and the output never needs more room than the input.\<close>

theorem url_decode_correct:
  "(url_encodes s e \<longrightarrow> url_decode e = s) \<and>
   (\<exists>e. url_encodes s e \<and> (\<forall>c\<in>set e. c = CHR ''%'' \<or> hex_value c \<noteq> None)) \<and>
   length (url_decode r) \<le> length r"
proof -
  have "\<exists>e. url_encodes s e \<and> (\<forall>c\<in>set e. c = CHR ''%'' \<or> hex_value c \<noteq> None)"
  proof (induction s)
    case Nil
    show ?case by (intro exI [of _ "[]"]) (simp add: url_end)
  next
    case (Cons c s)
    then obtain e where e: "url_encodes s e" "\<forall>c\<in>set e. c = CHR ''%'' \<or> hex_value c \<noteq> None"
      by blast
    obtain h l x y where d: "hex_value h = Some x" "hex_value l = Some y" "c = char_of (16 * x + y)"
      using hex_digits by blast
    have "url_encodes (c # s) (CHR ''%'' # h # l # e)" unfolding d(3) using d(1,2) e(1) by (rule url_escape)
    then show ?case using e(2) d(1,2) by (intro exI [of _ "CHR ''%'' # h # l # e"]) auto
  qed
  moreover have "url_encodes s e \<longrightarrow> url_decode e = s" using url_decode_encodes by simp
  ultimately show ?thesis using url_decode_length [of r] by (intro conjI)
qed

theorem url_decode_correct_witness:
  "url_encodes ''a b'' ''a%20b'' \<and> url_decode ''a%20b'' = ''a b''"
proof -
  have "url_encodes (CHR ''a'' # char_of (16 * 2 + (0 :: int)) # ''b'') (CHR ''a'' # CHR ''%'' # CHR ''2'' # CHR ''0'' # ''b'')"
    by (intro url_encodes.intros) (simp_all add: hex_value_def byte_def)
  moreover have "char_of (16 * 2 + (0 :: int)) = CHR '' ''" by code_simp
  ultimately have "url_encodes ''a b'' ''a%20b''" by simp
  then show ?thesis using url_decode_correct [of "''a b''" "''a%20b''" "[]"] by blast
qed

end
