(* ===== verification/NL_SymTree.thy ===== *)
theory NL_SymTree
  imports NL_Cell "HOL-Library.List_Lexorder" "HOL-Library.Char_ord"
begin

text \<open>
  The symbol tables of \<^verbatim>\<open>nl-symbol.c\<close>: every context keeps its symbols in a red-black
  tree ordered by name (\<^verbatim>\<open>findInsertSymbol\<close>, \<^verbatim>\<open>deleteSymbol\<close>,
  \<^verbatim>\<open>insertFixup\<close>, \<^verbatim>\<open>deleteFixup\<close>, the rotations and
  \<^verbatim>\<open>collectSymbols\<close>). The code walks up from a node through parent pointers; here a
  position in the tree is the subtree in focus with the path to the root, nearest parent first.
  Where the code would follow a NULL parent or recolour the shared sentinel, the model returns
  \<open>None\<close>; the theorems show that this does not happen. The table is proved to be a finite map
  from names, the interface \<open>symbol_table\<close>, that stays ordered and balanced.
\<close>

section \<open>Trees and positions\<close>

datatype color = RED | BLACK

text \<open>A node holds a name and what belongs to the symbol; \<open>NIL_SYM\<close> is the sentinel.\<close>

datatype 'v symtree = NIL_SYM | Sym (node_color: color) "'v symtree" "string \<times> 'v" "'v symtree"

datatype 'v step =
    InLeft color "string \<times> 'v" "'v symtree"
  | InRight "'v symtree" color "string \<times> 'v"

fun color_of :: "'v symtree \<Rightarrow> color" where
  "color_of NIL_SYM = BLACK"
| "color_of (Sym c l e r) = c"

fun paint :: "color \<Rightarrow> 'v symtree \<Rightarrow> 'v symtree" where
  "paint c NIL_SYM = NIL_SYM"
| "paint c (Sym d l e r) = Sym c l e r"

fun step_color :: "'v step \<Rightarrow> color" where
  "step_color (InLeft c e r) = c"
| "step_color (InRight l c e) = c"

text \<open>From a position to its parent, and to the root.\<close>

fun up :: "'v symtree \<Rightarrow> 'v step \<Rightarrow> 'v symtree" where
  "up x (InLeft c e r) = Sym c x e r"
| "up x (InRight l c e) = Sym c l e x"

fun plug :: "'v symtree \<Rightarrow> 'v step list \<Rightarrow> 'v symtree" where
  "plug x [] = x"
| "plug x (s # p) = plug (up x s) p"

section \<open>Rotation\<close>

fun rotateLeft :: "'v symtree \<Rightarrow> 'v symtree" where
  "rotateLeft (Sym c a x (Sym d b y e)) = Sym d (Sym c a x b) y e"
| "rotateLeft t = t"

fun rotateRight :: "'v symtree \<Rightarrow> 'v symtree" where
  "rotateRight (Sym c (Sym d a x b) y e) = Sym d a x (Sym c b y e)"
| "rotateRight t = t"

section \<open>Search\<close>

text \<open>The bytes at the front of a name: \<^verbatim>\<open>str2cmp\<close> compares the first two as one
  number before \<^verbatim>\<open>strcmp\<close> is asked.\<close>

fun first_two :: "string \<Rightarrow> int" where
  "first_two [] = 0"
| "first_two [a] = byte a * 256"
| "first_two (a # b # s) = byte a * 256 + byte b"

definition str2cmp :: "string \<Rightarrow> string \<Rightarrow> int" where
  "str2cmp s1 s2 = first_two s1 - first_two s2"

definition name_cmp :: "string \<Rightarrow> string \<Rightarrow> int" where
  "name_cmp key name = (let c = str2cmp key name in if c = 0 then strcmp key name else c)"

text \<open>The loop of \<^verbatim>\<open>findInsertSymbol\<close> and \<^verbatim>\<open>deleteSymbol\<close>: it stops at the
  symbol or at the place where it belongs.\<close>

fun find :: "string \<Rightarrow> 'v symtree \<Rightarrow> 'v step list \<Rightarrow> 'v symtree \<times> 'v step list" where
  "find key NIL_SYM p = (NIL_SYM, p)"
| "find key (Sym c l e r) p =
     (let d = name_cmp key (fst e)
      in if d = 0 then (Sym c l e r, p)
         else if d < 0 then find key l (InLeft c e r # p)
         else find key r (InRight l c e # p))"

section \<open>Insertion\<close>

fun insertFixup :: "'v symtree \<Rightarrow> 'v step list \<Rightarrow> 'v symtree option" where
  "insertFixup x [] = Some (paint BLACK x)"
| "insertFixup x [s] =
     (if step_color s = BLACK then Some (paint BLACK (plug x [s])) else None)"
| "insertFixup x (s # InLeft gc ge y # p) =
     (if step_color s = BLACK then Some (paint BLACK (plug x (s # InLeft gc ge y # p)))
      else if color_of y = RED
      then insertFixup (Sym RED (paint BLACK (up x s)) ge (paint BLACK y)) p
      else
        let parent = (case s of InRight _ _ _ \<Rightarrow> rotateLeft (up x s) | _ \<Rightarrow> up x s)
        in Some (paint BLACK (plug (rotateRight (Sym RED (paint BLACK parent) ge y)) p)))"
| "insertFixup x (s # InRight y gc ge # p) =
     (if step_color s = BLACK then Some (paint BLACK (plug x (s # InRight y gc ge # p)))
      else if color_of y = RED
      then insertFixup (Sym RED (paint BLACK y) ge (paint BLACK (up x s))) p
      else
        let parent = (case s of InLeft _ _ _ \<Rightarrow> rotateRight (up x s) | _ \<Rightarrow> up x s)
        in Some (paint BLACK (plug (rotateLeft (Sym RED y ge (paint BLACK parent))) p)))"

text \<open>With \<open>force\<close> the symbol is created when it is missing. The result is the symbol
  found, or nothing, and the tree.\<close>

definition findInsertSymbol ::
  "string \<Rightarrow> 'v \<Rightarrow> bool \<Rightarrow> 'v symtree \<Rightarrow> ((string \<times> 'v) option \<times> 'v symtree) option" where
  "findInsertSymbol key v force root_sym =
     (case find key root_sym [] of
        (Sym c l e r, p) \<Rightarrow> Some (Some e, root_sym)
      | (NIL_SYM, p) \<Rightarrow>
          if \<not> force then Some (None, root_sym)
          else map_option (\<lambda>t. (Some (key, v), t)) (insertFixup (Sym RED NIL_SYM (key, v) NIL_SYM) p))"

section \<open>Deletion\<close>

text \<open>The cases of a black sibling, for a position that is a left and a right child. Either
  both children of the sibling are black and the loop goes on with the parent (\<open>Inl\<close>), or a
  rotation ends it (\<open>Inr\<close>). The sentinel has no colour to change.\<close>

definition fix_left ::
  "'v symtree \<Rightarrow> color \<Rightarrow> string \<times> 'v \<Rightarrow> 'v symtree \<Rightarrow> ('v symtree + 'v symtree) option" where
  "fix_left x pc pe w =
     (case w of
        NIL_SYM \<Rightarrow> None
      | Sym wc wl we wr \<Rightarrow>
          if color_of wl = BLACK \<and> color_of wr = BLACK
          then Some (Inl (Sym pc x pe (Sym RED wl we wr)))
          else
            (case (if color_of wr = BLACK then rotateRight (Sym RED (paint BLACK wl) we wr) else w) of
               NIL_SYM \<Rightarrow> None
             | Sym c l e r \<Rightarrow> Some (Inr (rotateLeft (Sym BLACK x pe (Sym pc l e (paint BLACK r)))))))"

definition fix_right ::
  "'v symtree \<Rightarrow> color \<Rightarrow> string \<times> 'v \<Rightarrow> 'v symtree \<Rightarrow> ('v symtree + 'v symtree) option" where
  "fix_right w pc pe x =
     (case w of
        NIL_SYM \<Rightarrow> None
      | Sym wc wl we wr \<Rightarrow>
          if color_of wr = BLACK \<and> color_of wl = BLACK
          then Some (Inl (Sym pc (Sym RED wl we wr) pe x))
          else
            (case (if color_of wl = BLACK then rotateLeft (Sym RED wl we (paint BLACK wr)) else w) of
               NIL_SYM \<Rightarrow> None
             | Sym c l e r \<Rightarrow> Some (Inr (rotateRight (Sym BLACK (Sym pc (paint BLACK l) e r) pe x)))))"

text \<open>One round of the loop at a position whose node is black and not the root, with the path
  above the sibling rotated first when that is red.\<close>

definition fix_round ::
  "'v symtree \<Rightarrow> 'v step \<Rightarrow> 'v step list \<Rightarrow> (('v symtree + 'v symtree) option \<times> 'v step list)" where
  "fix_round x s p =
     (case s of
        InLeft pc pe w \<Rightarrow>
          (case w of
             Sym RED wl we wr \<Rightarrow> (fix_left x RED pe wl, InLeft BLACK we wr # p)
           | _ \<Rightarrow> (fix_left x pc pe w, p))
      | InRight w pc pe \<Rightarrow>
          (case w of
             Sym RED wl we wr \<Rightarrow> (fix_right wr RED pe x, InRight wl BLACK we # p)
           | _ \<Rightarrow> (fix_right w pc pe x, p)))"

lemma fix_round_red:
  assumes "fix_round x s p = (Some (Inl y), q)"
  shows "length q = length p \<or> length q = Suc (length p) \<and> color_of y = RED"
proof (cases s)
  case (InLeft c e w)
  then show ?thesis using assms
    by (cases w rule: color_of.cases)
      (auto simp: fix_round_def fix_left_def split: symtree.splits if_splits color.splits)
next
  case (InRight w c e)
  then show ?thesis using assms
    by (cases w rule: color_of.cases)
      (auto simp: fix_round_def fix_right_def split: symtree.splits if_splits color.splits)
qed

function deleteFixup :: "'v symtree \<Rightarrow> 'v step list \<Rightarrow> 'v symtree option" where
  "deleteFixup x [] = Some (paint BLACK x)"
| "deleteFixup x (s # p) =
     (if color_of x = RED then Some (plug (paint BLACK x) (s # p))
      else
        (case fix_round x s p of
           (None, q) \<Rightarrow> None
         | (Some (Inl y), q) \<Rightarrow> deleteFixup y q
         | (Some (Inr t), q) \<Rightarrow> Some (paint BLACK (plug t q))))"
  by pat_completeness auto
termination
proof (relation "measure (\<lambda>(x, p). length p + (if color_of x = BLACK then 1 else 0))", goal_cases)
  case (2 x s p z q a y)
  then show ?case using fix_round_red [of x s p y q] by (cases "color_of x") auto
qed simp

text \<open>The successor: the leftmost node of the right subtree, with the path to it.\<close>

fun leftmost :: "'v symtree \<Rightarrow> 'v step list \<Rightarrow> (color \<times> (string \<times> 'v) \<times> 'v symtree \<times> 'v step list) option" where
  "leftmost NIL_SYM p = None"
| "leftmost (Sym c NIL_SYM e r) p = Some (c, e, r, p)"
| "leftmost (Sym c l e r) p = leftmost l (InLeft c e r # p)"

text \<open>A node without a left or right child is cut out; otherwise its successor is, and takes
  its place and colour.\<close>

definition deleteSymbol :: "string \<Rightarrow> 'v symtree \<Rightarrow> (bool \<times> 'v symtree) option" where
  "deleteSymbol key root_sym =
     (case find key root_sym [] of
        (NIL_SYM, p) \<Rightarrow> Some (False, root_sym)
      | (Sym c l e r, p) \<Rightarrow>
          map_option (\<lambda>t. (True, t))
            (if l = NIL_SYM \<or> r = NIL_SYM
             then
               (let x = (if l \<noteq> NIL_SYM then l else r)
                in if c = BLACK then deleteFixup x p else Some (plug x p))
             else
               (case leftmost r [] of
                  None \<Rightarrow> None
                | Some (yc, ye, x, q) \<Rightarrow>
                    let q' = q @ InRight l c ye # p
                    in if yc = BLACK then deleteFixup x q' else Some (plug x q'))))"

text \<open>All symbols in order.\<close>

fun collectSymbols :: "'v symtree \<Rightarrow> (string \<times> 'v) list" where
  "collectSymbols NIL_SYM = []"
| "collectSymbols (Sym c l e r) = collectSymbols l @ e # collectSymbols r"

section \<open>Invariants\<close>

text \<open>Names are non-empty C strings, in ascending order; the two lists of a path are what lies
  left and right of the position.\<close>

definition name_ok :: "string \<Rightarrow> bool" where
  "name_ok s \<longleftrightarrow> s \<noteq> [] \<and> c_string s"

definition ordered :: "'v symtree \<Rightarrow> bool" where
  "ordered t \<longleftrightarrow> sorted_wrt (<) (map fst (collectSymbols t)) \<and> (\<forall>e\<in>set (collectSymbols t). name_ok (fst e))"

fun before :: "'v step list \<Rightarrow> (string \<times> 'v) list" where
  "before [] = []"
| "before (InLeft c e r # p) = before p"
| "before (InRight l c e # p) = before p @ collectSymbols l @ [e]"

fun after :: "'v step list \<Rightarrow> (string \<times> 'v) list" where
  "after [] = []"
| "after (InLeft c e r # p) = e # collectSymbols r @ after p"
| "after (InRight l c e # p) = after p"

text \<open>No red node has a red child; every path to the sentinel meets the same number of black
  nodes.\<close>

fun invc :: "'v symtree \<Rightarrow> bool" where
  "invc NIL_SYM = True"
| "invc (Sym c l e r) =
     ((c = RED \<longrightarrow> color_of l = BLACK \<and> color_of r = BLACK) \<and> invc l \<and> invc r)"

fun bheight :: "'v symtree \<Rightarrow> nat" where
  "bheight NIL_SYM = 0"
| "bheight (Sym c l e r) = (if c = BLACK then bheight l + 1 else bheight l)"

fun invh :: "'v symtree \<Rightarrow> bool" where
  "invh NIL_SYM = True"
| "invh (Sym c l e r) = (bheight l = bheight r \<and> invh l \<and> invh r)"

definition balanced :: "'v symtree \<Rightarrow> bool" where
  "balanced t \<longleftrightarrow> invc t \<and> invh t \<and> color_of t = BLACK"

text \<open>The same for a path: the colours fit a position, and a subtree of black height
  \<open>n\<close>.\<close>

definition parent_color :: "'v step list \<Rightarrow> color" where
  "parent_color p = (case p of [] \<Rightarrow> BLACK | s # _ \<Rightarrow> step_color s)"

fun sibling :: "'v step \<Rightarrow> 'v symtree" where
  "sibling (InLeft c e r) = r"
| "sibling (InRight l c e) = l"

fun path_c :: "'v step list \<Rightarrow> bool" where
  "path_c [] = True"
| "path_c (s # p) =
     (invc (sibling s) \<and>
      (step_color s = RED \<longrightarrow> color_of (sibling s) = BLACK \<and> p \<noteq> [] \<and> parent_color p = BLACK) \<and> path_c p)"

fun path_h :: "nat \<Rightarrow> 'v step list \<Rightarrow> bool" where
  "path_h n [] = True"
| "path_h n (s # p) =
     (invh (sibling s) \<and> bheight (sibling s) = n \<and>
      path_h (if step_color s = BLACK then n + 1 else n) p)"

section \<open>Names\<close>

lemma byte_less_iff: "byte a < byte b \<longleftrightarrow> a < b"
proof -
  have "byte c = int (of_char c)" for c by (cases c) (simp add: byte_def of_char_def)
  then show ?thesis by (simp add: less_char_def)
qed

lemma strcmp_less: "c_string a \<Longrightarrow> c_string b \<Longrightarrow> (strcmp a b < 0 \<longleftrightarrow> a < b) \<and> (strcmp a b = 0 \<longleftrightarrow> a = b)"
proof (induction a b rule: strcmp.induct)
  case (2 y ys)
  then show ?case using byte_pos [of y] by (auto simp: c_string_def)
next
  case (3 x xs)
  then show ?case using byte_pos [of x] by (auto simp: c_string_def)
next
  case (4 x xs y ys)
  then show ?case using byte_less_iff [of x y] by (auto simp: c_string_def)
qed auto

lemma str2cmp_strcmp:
  assumes "name_ok a" "name_ok b" 
  shows "(str2cmp a b < 0 \<longrightarrow> strcmp a b < 0) \<and> (str2cmp a b > 0 \<longrightarrow> strcmp a b > 0)"
proof -
  obtain x xs y ys where ab: "a = x # xs" "b = y # ys" using assms by (cases a; cases b) (auto simp: name_ok_def)
  have f: "first_two (c # s) = byte c * 256 + (case s of [] \<Rightarrow> 0 | d # _ \<Rightarrow> byte d)" for c s
    by (cases s) auto
  have r: "0 \<le> (case s of [] \<Rightarrow> 0 | d # _ \<Rightarrow> byte d)" "(case s of [] \<Rightarrow> 0 | d # _ \<Rightarrow> byte d) < 256" for s
    using byte_range by (cases s; simp)+
  show ?thesis
  proof (cases "x = y")
    case True
    then show ?thesis using ab assms byte_range
      by (cases xs; cases ys) (auto simp: str2cmp_def)
  next
    case False
    have "byte x < byte y \<or> byte y < byte x" using False byte_eq_iff [of x y] by linarith
    then show ?thesis using ab False r [of xs] r [of ys] by (auto simp: str2cmp_def f)
  qed
qed

lemma name_cmp_less:
  assumes "name_ok a" "name_ok b"
  shows "name_cmp a b < 0 \<longleftrightarrow> a < b" "name_cmp a b = 0 \<longleftrightarrow> a = b"
proof -
  have s: "(strcmp a b < 0 \<longleftrightarrow> a < b) \<and> (strcmp a b = 0 \<longleftrightarrow> a = b)" using strcmp_less assms by (simp add: name_ok_def)
  show "name_cmp a b < 0 \<longleftrightarrow> a < b" "name_cmp a b = 0 \<longleftrightarrow> a = b"
    using s str2cmp_strcmp [OF assms] by (auto simp: name_cmp_def Let_def)
qed

section \<open>Order\<close>

lemma collect_up: "collectSymbols (up x s) = before [s] @ collectSymbols x @ after [s]"
  by (cases s) auto

lemma collect_plug [simp]: "collectSymbols (plug x p) = before p @ collectSymbols x @ after p"
proof (induction p arbitrary: x)
  case (Cons s p)
  then show ?case by (cases s) auto
qed simp

lemma collect_paint [simp]: "collectSymbols (paint c t) = collectSymbols t"
  by (cases t) auto

lemma collect_rotate [simp]: "collectSymbols (rotateLeft t) = collectSymbols t" "collectSymbols (rotateRight t) = collectSymbols t"
  by (cases t rule: rotateLeft.cases; simp) (cases t rule: rotateRight.cases; simp)

lemma collect_insertFixup: "insertFixup x p = Some t \<Longrightarrow> collectSymbols t = before p @ collectSymbols x @ after p"
proof (induction x p rule: insertFixup.induct)
  case (3 x s gc ge y p)
  then show ?case by (cases s) (auto simp: Let_def split: if_splits)
next
  case (4 x s y gc ge p)
  then show ?case by (cases s) (auto simp: Let_def split: if_splits)
qed (auto simp: collect_up split: if_splits)

lemma collect_fix_left: "fix_left x pc pe w = Some r \<Longrightarrow>
  collectSymbols (case r of Inl t \<Rightarrow> t | Inr t \<Rightarrow> t) = collectSymbols x @ pe # collectSymbols w"
proof (cases w)
  case (Sym wc wl we wr)
  assume "fix_left x pc pe w = Some r"
  then show ?thesis using Sym by (cases wl) (auto simp: fix_left_def split: symtree.splits if_splits)
qed (simp add: fix_left_def)

lemma collect_fix_right: "fix_right w pc pe x = Some r \<Longrightarrow>
  collectSymbols (case r of Inl t \<Rightarrow> t | Inr t \<Rightarrow> t) = collectSymbols w @ pe # collectSymbols x"
proof (cases w)
  case (Sym wc wl we wr)
  assume "fix_right w pc pe x = Some r"
  then show ?thesis using Sym by (cases wr) (auto simp: fix_right_def split: symtree.splits if_splits)
qed (simp add: fix_right_def)

lemma collect_fix_round:
  assumes "fix_round x s p = (Some r, q)"
  shows "before q @ collectSymbols (case r of Inl t \<Rightarrow> t | Inr t \<Rightarrow> t) @ after q = before (s # p) @ collectSymbols x @ after (s # p)"
proof (cases s)
  case (InLeft c e w)
  then show ?thesis using assms 
    by (auto simp: fix_round_def collect_fix_left split: symtree.splits color.splits)
next
  case (InRight w c e)
  then show ?thesis using assms 
    by (auto simp: fix_round_def collect_fix_right split: symtree.splits color.splits)
qed

lemma collect_deleteFixup: "deleteFixup x p = Some t \<Longrightarrow> collectSymbols t = before p @ collectSymbols x @ after p"
proof (induction x p rule: deleteFixup.induct)
  case (2 x s p)
  show ?case
  proof (cases "color_of x = RED")
    case False
    obtain o' q where r: "fix_round x s p = (o', q)" by fastforce
    then show ?thesis using 2 False collect_fix_round [of x s p _ q]
      by (cases o') (auto split: sum.splits)
  qed (use 2 in \<open>cases s; auto\<close>)
qed auto

lemma collect_leftmost: "leftmost t p = Some (c, e, x, q) \<Longrightarrow>
   before p @ collectSymbols t @ after p = before q @ e # collectSymbols x @ after q"
  by (induction t p rule: leftmost.induct) auto

lemma find_plug: "find k t p = (t', p') \<Longrightarrow> plug t' p' = plug t p"
  by (induction k t p rule: find.induct) (auto simp: Let_def split: if_splits)

lemma find_found: "find k t p = (Sym c l e r, p') \<Longrightarrow> name_ok k \<Longrightarrow> \<forall>e\<in>set (collectSymbols t). name_ok (fst e) \<Longrightarrow> fst e = k"
  by (induction k t p rule: find.induct) (auto simp: Let_def name_cmp_less split: if_splits)

lemma find_missing:
  "find k t p = (NIL_SYM, p') \<Longrightarrow> name_ok k \<Longrightarrow> ordered t \<Longrightarrow> \<exists>b a. collectSymbols t = b @ a \<and> before p' = before p @ b \<and> after p' = a @ after p \<and>
    (\<forall>e\<in>set b. fst e < k) \<and> (\<forall>e\<in>set a. k < fst e)"
proof (induction k t p rule: find.induct)
  case (2 key c l e r p)
  have n: "name_ok (fst e)" "ordered l" "ordered r" "\<forall>x\<in>set (collectSymbols l). fst x < fst e" "\<forall>x\<in>set (collectSymbols r). fst e < fst x"
    using 2 by (auto simp: ordered_def sorted_wrt_append)
  have ok: "name_ok key" using "2.prems" by simp
  consider (lt) "key < fst e" | (gt) "fst e < key"
    using "2.prems"(1) name_cmp_less [OF ok n(1)] by (cases "key = fst e") (auto simp: Let_def)
  then show ?case
  proof cases
    case lt
    then have d: "name_cmp key (fst e) < 0" "name_cmp key (fst e) \<noteq> 0" using name_cmp_less [OF ok n(1)] by auto
    then have "find key l (InLeft c e r # p) = (NIL_SYM, p')" using "2.prems"(1) by (simp add: Let_def)
    from "2.IH"(1) [OF refl d(2,1) this ok n(2)]
    obtain b a where "collectSymbols l = b @ a" "before p' = before p @ b" "after p' = a @ e # collectSymbols r @ after p"
      "\<forall>e\<in>set b. fst e < key" "\<forall>e\<in>set a. key < fst e" by auto
    then show ?thesis using n lt by (intro exI [of _ b] exI [of _ "a @ e # collectSymbols r"]) (auto intro: order.strict_trans)
  next
    case gt
    then have d: "\<not> name_cmp key (fst e) < 0" "name_cmp key (fst e) \<noteq> 0" using name_cmp_less [OF ok n(1)] by auto
    then have "find key r (InRight l c e # p) = (NIL_SYM, p')" using "2.prems"(1) by (simp add: Let_def)
    from "2.IH"(2) [OF refl d(2,1) this ok n(3)]
    obtain b a where "collectSymbols r = b @ a" "before p' = before p @ collectSymbols l @ e # b" "after p' = a @ after p"
      "\<forall>e\<in>set b. fst e < key" "\<forall>e\<in>set a. key < fst e" by auto
    then show ?thesis using n gt by (intro exI [of _ "collectSymbols l @ e # b"] exI [of _ a]) (auto intro: order.strict_trans)
  qed
qed auto

section \<open>Balance\<close>

definition pos_inv :: "'v symtree \<Rightarrow> 'v step list \<Rightarrow> bool" where
  "pos_inv t p \<longleftrightarrow> invc t \<and> invh t \<and> path_c p \<and> path_h (bheight t) p \<and>
     (p = [] \<or> parent_color p = RED \<longrightarrow> color_of t = BLACK)"

lemma color_cases: "c = RED \<or> c = BLACK" by (cases c) auto

lemma not_red [simp]: "c \<noteq> RED \<longleftrightarrow> c = BLACK" "c \<noteq> BLACK \<longleftrightarrow> c = RED" by (cases c; simp)+

lemma parent_color_simps [simp]: "parent_color [] = BLACK" "parent_color (s # p) = step_color s"
  by (simp_all add: parent_color_def)

lemma color_paint [simp]: "color_of (paint BLACK t) = BLACK" by (cases t) auto

lemma invc_paint: "invc t \<Longrightarrow> invc (paint BLACK t)" by (cases t) auto

lemma invh_paint [simp]: "invh (paint c t) = invh t" by (cases t) auto

lemma bheight_paint: "bheight (paint BLACK t) = (if color_of t = RED then Suc (bheight t) else bheight t)"
  by (cases t) auto

lemma plug_balanced: "pos_inv t p \<Longrightarrow> balanced (plug t p)"
proof (induction p arbitrary: t)
  case (Cons s p)
  then show ?case by (cases s) (auto simp: pos_inv_def intro!: Cons.IH)
qed (simp add: pos_inv_def balanced_def)

lemma balanced_paint: "balanced t \<Longrightarrow> paint BLACK t = t"
  by (cases t) (auto simp: balanced_def)

lemma pos_inv_down:
  assumes "pos_inv (Sym c l e r) p"
  shows "pos_inv l (InLeft c e r # p)" "pos_inv r (InRight l c e # p)"
  using assms by (cases c; auto simp: pos_inv_def)+

lemma find_pos_inv: "find k t p = (t', p') \<Longrightarrow> pos_inv t p \<Longrightarrow> pos_inv t' p'"
  by (induction k t p rule: find.induct) (auto simp: Let_def pos_inv_down split: if_splits)

lemma leftmost_pos_inv: "leftmost t p = Some (c, e, x, q) \<Longrightarrow> pos_inv t p \<Longrightarrow> pos_inv (Sym c NIL_SYM e x) q"
  by (induction t p rule: leftmost.induct) (auto simp: pos_inv_down)

lemma leftmost_returns: "t \<noteq> NIL_SYM \<Longrightarrow> leftmost t p \<noteq> None"
  by (induction t p rule: leftmost.induct) auto

lemma pos_inv_root: "balanced t \<Longrightarrow> pos_inv t []"
  by (simp add: balanced_def pos_inv_def)

lemma insertFixup_ok:
  "invc x \<Longrightarrow> invh x \<Longrightarrow> color_of x = RED \<Longrightarrow> path_c p \<Longrightarrow> path_h (bheight x) p \<Longrightarrow>
   \<exists>t. insertFixup x p = Some t \<and> balanced t"
proof (induction x p rule: insertFixup.induct)
  case (1 x)
  then show ?case by (auto simp: balanced_def invc_paint)
next
  case (2 x s)
  then show ?case by (cases s) (auto simp: balanced_def)
next
  case (3 x s gc ge y p)
  show ?case
  proof (cases "step_color s = BLACK")
    case True
    then have "balanced (plug x (s # InLeft gc ge y # p))" using 3 by (intro plug_balanced) (auto simp: pos_inv_def)
    then show ?thesis using True by (simp add: balanced_paint del: plug.simps)
  next
    case False
    then have s: "step_color s = RED" "gc = BLACK" "color_of (sibling s) = BLACK" using 3 by auto
    show ?thesis
    proof (cases "color_of y = RED")
      case True
      have "\<exists>t. insertFixup (Sym RED (paint BLACK (up x s)) ge (paint BLACK y)) p = Some t \<and> balanced t"
        using 3 s True False by (intro "3.IH"; cases s) (auto simp: bheight_paint invc_paint)
      then show ?thesis using False True by simp
    next
      case y: False
      let ?P = "case s of InRight _ _ _ \<Rightarrow> rotateLeft (up x s) | _ \<Rightarrow> up x s"
      let ?G = "rotateRight (Sym RED (paint BLACK ?P) ge y)"
      have "pos_inv ?G p" using 3 s y by (cases s; cases x) (auto simp: pos_inv_def)
      then have "balanced (plug ?G p)" by (rule plug_balanced)
      then show ?thesis using False y by (simp add: balanced_paint Let_def)
    qed
  qed
next
  case (4 x s y gc ge p)
  show ?case
  proof (cases "step_color s = BLACK")
    case True
    then have "balanced (plug x (s # InRight y gc ge # p))" using 4 by (intro plug_balanced) (auto simp: pos_inv_def)
    then show ?thesis using True by (simp add: balanced_paint del: plug.simps)
  next
    case False
    then have s: "step_color s = RED" "gc = BLACK" "color_of (sibling s) = BLACK" using 4 by auto
    show ?thesis
    proof (cases "color_of y = RED")
      case True
      have "\<exists>t. insertFixup (Sym RED (paint BLACK y) ge (paint BLACK (up x s))) p = Some t \<and> balanced t"
        using 4 s True False by (intro "4.IH"; cases s) (auto simp: bheight_paint invc_paint)
      then show ?thesis using False True by simp
    next
      case y: False
      let ?P = "case s of InLeft _ _ _ \<Rightarrow> rotateRight (up x s) | _ \<Rightarrow> up x s"
      let ?G = "rotateLeft (Sym RED y ge (paint BLACK ?P))"
      have "pos_inv ?G p" using 4 s y by (cases s; cases x) (auto simp: pos_inv_def)
      then have "balanced (plug ?G p)" by (rule plug_balanced)
      then show ?thesis using False y by (simp add: balanced_paint Let_def)
    qed
  qed
qed

definition fixed :: "color \<Rightarrow> nat \<Rightarrow> 'v symtree + 'v symtree \<Rightarrow> bool" where
  "fixed pc h r = (case r of
      Inl y \<Rightarrow> invh y \<and> Suc (bheight y) = h \<and> invc (paint BLACK y) \<and> color_of y = pc
    | Inr t \<Rightarrow> invh t \<and> bheight t = h \<and> invc t \<and> color_of t = pc)"

lemma fix_left_ok:
  assumes "invc x" "invh x" "color_of x = BLACK" "invc w" "invh w" "bheight w = Suc (bheight x)" "color_of w = BLACK"
  shows "\<exists>r. fix_left x pc pe w = Some r \<and> fixed pc (if pc = BLACK then Suc (bheight w) else bheight w) r"
proof -
  obtain wl we wr where w: "w = Sym BLACK wl we wr" using assms by (cases w) auto
  consider "color_of wl = BLACK" "color_of wr = BLACK" | "color_of wl = RED" "color_of wr = BLACK" | "color_of wr = RED"
    using color_cases by blast
  then show ?thesis
  proof cases
    case 1
    then show ?thesis using assms w by (auto simp: fix_left_def fixed_def)
  next
    case 2
    then show ?thesis using assms w by (cases wl) (auto simp: fix_left_def fixed_def bheight_paint invc_paint)
  next
    case 3
    then show ?thesis using assms w by (cases wr) (auto simp: fix_left_def fixed_def bheight_paint invc_paint)
  qed
qed

lemma fix_right_ok:
  assumes "invc x" "invh x" "color_of x = BLACK" "invc w" "invh w" "bheight w = Suc (bheight x)" "color_of w = BLACK"
  shows "\<exists>r. fix_right w pc pe x = Some r \<and> fixed pc (if pc = BLACK then Suc (bheight w) else bheight w) r"
proof -
  obtain wl we wr where w: "w = Sym BLACK wl we wr" using assms by (cases w) auto
  consider "color_of wl = BLACK" "color_of wr = BLACK" | "color_of wr = RED" "color_of wl = BLACK" | "color_of wl = RED"
    using color_cases by blast
  then show ?thesis
  proof cases
    case 1
    then show ?thesis using assms w by (auto simp: fix_right_def fixed_def)
  next
    case 2
    then show ?thesis using assms w by (cases wr) (auto simp: fix_right_def fixed_def bheight_paint invc_paint)
  next
    case 3
    then show ?thesis using assms w by (cases wl) (auto simp: fix_right_def fixed_def bheight_paint invc_paint)
  qed
qed


definition hole_inv :: "'v symtree \<Rightarrow> 'v step list \<Rightarrow> bool" where
  "hole_inv x p \<longleftrightarrow> invc (paint BLACK x) \<and> invh x \<and> path_c p \<and> path_h (Suc (bheight x)) p"

lemma fixed_hole:
  assumes "fixed pc h r" "path_c p" "path_h h p" "pc = RED \<longrightarrow> p \<noteq> [] \<and> parent_color p = BLACK"
  shows "case r of Inl y \<Rightarrow> hole_inv y p | Inr t \<Rightarrow> pos_inv t p \<or> p = [] \<and> balanced t"
  using assms by (cases r) (auto simp: fixed_def hole_inv_def pos_inv_def balanced_def)

lemma fix_round_ok:
  assumes "hole_inv x (s # p)" "color_of x = BLACK"
  shows "\<exists>r q. fix_round x s p = (Some r, q) \<and> (case r of Inl y \<Rightarrow> hole_inv y q | Inr t \<Rightarrow> pos_inv t q)"
proof -
  have x: "invc x" "invh x" using assms by (cases x; auto simp: hole_inv_def)+
  have path: "path_c (s # p)" "path_h (Suc (bheight x)) (s # p)" using assms by (auto simp: hole_inv_def)
  show ?thesis
  proof (cases s)
    case (InLeft pc pe w)
    have w: "invc w" "invh w" "bheight w = Suc (bheight x)" using path InLeft by auto
    show ?thesis
    proof (cases "color_of w = RED")
      case True
      then obtain wl we wr where w': "w = Sym RED wl we wr" by (cases w) auto
      then have wl: "invc wl" "invh wl" "bheight wl = Suc (bheight x)" "color_of wl = BLACK" "pc = BLACK" using w path InLeft by auto
      obtain r where r: "fix_left x RED pe wl = Some r" "fixed RED (bheight wl) r"
        using fix_left_ok [OF x assms(2) wl(1-4), of RED pe] by auto
      have "path_c (InLeft BLACK we wr # p)" "path_h (bheight wl) (InLeft BLACK we wr # p)"
        using w path InLeft w' wl by auto
      then show ?thesis using fixed_hole [OF r(2), of "InLeft BLACK we wr # p"] InLeft w' r
        by (auto simp: fix_round_def split: sum.splits)
    next
      case False
      then obtain r where r: "fix_left x pc pe w = Some r" "fixed pc (if pc = BLACK then Suc (bheight w) else bheight w) r"
        using fix_left_ok [OF x assms(2) w, of pc pe] by auto
      have "fix_round x s p = (Some r, p)" using InLeft False r by (auto simp: fix_round_def split: symtree.splits color.splits)
      then show ?thesis using fixed_hole [OF r(2), of p] path InLeft w by (cases pc) (auto simp: pos_inv_root split: sum.splits)
    qed
  next
    case (InRight w pc pe)
    have w: "invc w" "invh w" "bheight w = Suc (bheight x)" using path InRight by auto
    show ?thesis
    proof (cases "color_of w = RED")
      case True
      then obtain wl we wr where w': "w = Sym RED wl we wr" by (cases w) auto
      then have wr: "invc wr" "invh wr" "bheight wr = Suc (bheight x)" "color_of wr = BLACK" "pc = BLACK" using w path InRight by auto
      obtain r where r: "fix_right wr RED pe x = Some r" "fixed RED (bheight wr) r"
        using fix_right_ok [OF x assms(2) wr(1-4), of RED pe] by auto
      have "path_c (InRight wl BLACK we # p)" "path_h (bheight wr) (InRight wl BLACK we # p)"
        using w path InRight w' wr by auto
      then show ?thesis using fixed_hole [OF r(2), of "InRight wl BLACK we # p"] InRight w' r
        by (auto simp: fix_round_def split: sum.splits)
    next
      case False
      then obtain r where r: "fix_right w pc pe x = Some r" "fixed pc (if pc = BLACK then Suc (bheight w) else bheight w) r"
        using fix_right_ok [OF x assms(2) w, of pc pe] by auto
      have "fix_round x s p = (Some r, p)" using InRight False r by (auto simp: fix_round_def split: symtree.splits color.splits)
      then show ?thesis using fixed_hole [OF r(2), of p] path InRight w by (cases pc) (auto simp: pos_inv_root split: sum.splits)
    qed
  qed
qed

lemma deleteFixup_ok: "hole_inv x p \<Longrightarrow> \<exists>t. deleteFixup x p = Some t \<and> balanced t"
proof (induction x p rule: deleteFixup.induct)
  case (1 x)
  then show ?case by (auto simp: hole_inv_def balanced_def)
next
  case (2 x s p)
  show ?case
  proof (cases "color_of x = RED")
    case True
    then have "pos_inv (paint BLACK x) (s # p)" using 2 by (auto simp: hole_inv_def pos_inv_def bheight_paint)
    then show ?thesis using True plug_balanced by fastforce
  next
    case False
    then obtain r q where "fix_round x s p = (Some r, q)" "case r of Inl y \<Rightarrow> hole_inv y q | Inr t \<Rightarrow> pos_inv t q"
      using fix_round_ok 2 by force
    then show ?thesis using 2 False plug_balanced balanced_paint by (cases r) fastforce+
  qed
qed

section \<open>The table as a map\<close>

abbreviation table :: "'v symtree \<Rightarrow> string \<rightharpoonup> 'v" where
  "table t \<equiv> map_of (collectSymbols t)"

definition wf_table :: "'v symtree \<Rightarrow> bool" where
  "wf_table t \<longleftrightarrow> ordered t \<and> balanced t"

lemma wf_NIL_SYM: "wf_table NIL_SYM"
  by (simp add: wf_table_def ordered_def balanced_def)

lemma sorted_distinct: "sorted_wrt (<) xs \<Longrightarrow> distinct (xs :: string list)"
  by (induction xs) auto

lemma ordered_distinct: "ordered t \<Longrightarrow> distinct (map fst (collectSymbols t))"
  by (auto simp: ordered_def intro: sorted_distinct)

lemma map_of_insert:
  assumes "\<forall>e\<in>set b. fst e \<noteq> k"
  shows "map_of (b @ (k, v) # a) = (map_of (b @ a))(k \<mapsto> v)"
proof
  fix x
  have "k \<notin> fst ` set b" using assms by auto
  then have "map_of b k = None" by (simp add: map_of_eq_None_iff)
  then show "map_of (b @ (k, v) # a) x = ((map_of (b @ a))(k \<mapsto> v)) x"
    by (auto simp: map_add_def split: option.splits)
qed

lemma map_of_remove:
  assumes "distinct (map fst (b @ e # a))"
  shows "map_of (b @ a) = (map_of (b @ e # a))(fst e := None)"
proof
  fix x
  have "fst e \<notin> fst ` set b" "fst e \<notin> fst ` set a" using assms by auto
  then have "map_of b (fst e) = None" "map_of a (fst e) = None" by (simp_all add: map_of_eq_None_iff)
  then show "map_of (b @ a) x = ((map_of (b @ e # a))(fst e := None)) x"
    by (cases e) (auto simp: map_add_def split: option.splits)
qed

lemma find_in_table:
  assumes "ordered t" "name_ok k"
  shows "table t k = (case fst (find k t []) of NIL_SYM \<Rightarrow> None | Sym c l e r \<Rightarrow> Some (snd e))"
proof -
  obtain t' p where f: "find k t [] = (t', p)" by fastforce
  show ?thesis
  proof (cases t')
    case NIL_SYM
    then obtain b a where "collectSymbols t = b @ a" "\<forall>e\<in>set b. fst e < k" "\<forall>e\<in>set a. k < fst e"
      using find_missing [of k t "[]" p] f assms by auto
    then have "k \<notin> fst ` set (collectSymbols t)" by auto
    then show ?thesis using f NIL_SYM by (simp add: map_of_eq_None_iff)
  next
    case (Sym c l e r)
    then have "fst e = k" using find_found [of k t "[]" c l e r p] f assms by (auto simp: ordered_def)
    moreover have "collectSymbols t = before p @ collectSymbols t' @ after p" using find_plug [OF f] collect_plug [of t' p] by simp
    then have "e \<in> set (collectSymbols t)" using Sym by simp
    ultimately have "table t k = Some (snd e)" using ordered_distinct [OF assms(1)] by (metis map_of_is_SomeI prod.collapse)
    then show ?thesis using f Sym by simp
  qed
qed

lemma findInsert_ok:
  assumes "wf_table t" "name_ok k"
  shows "\<exists>e t'. findInsertSymbol k v force t = Some (e, t') \<and> wf_table t' \<and>
    (case table t k of
       Some u \<Rightarrow> e = Some (k, u) \<and> t' = t
     | None \<Rightarrow> if force then e = Some (k, v) \<and> table t' = (table t)(k \<mapsto> v) else e = None \<and> t' = t)"
proof -
  have o: "ordered t" "balanced t" using assms by (auto simp: wf_table_def)
  obtain t' p where f: "find k t [] = (t', p)" by fastforce
  show ?thesis
  proof (cases t')
    case NIL_SYM
    then obtain b a where ba: "collectSymbols t = b @ a" "before p = b" "after p = a" "\<forall>e\<in>set b. fst e < k" "\<forall>e\<in>set a. k < fst e"
      using find_missing [of k t "[]" p] f assms o by auto
    have tk: "table t k = None" using find_in_table [OF o(1) assms(2)] f NIL_SYM by simp
    have "pos_inv NIL_SYM p" using find_pos_inv [OF f] pos_inv_root [OF o(2)] NIL_SYM by simp
    then obtain s where s: "insertFixup (Sym RED NIL_SYM (k, v) NIL_SYM) p = Some s" "balanced s"
      using insertFixup_ok [of "Sym RED NIL_SYM (k, v) NIL_SYM" p] by (auto simp: pos_inv_def)
    have c: "collectSymbols s = b @ (k, v) # a" using collect_insertFixup [OF s(1)] ba by simp
    have "ordered s" using o(1) ba assms(2) c by (auto simp: ordered_def sorted_wrt_append intro: order.strict_trans)
    moreover have "table s = (table t)(k \<mapsto> v)" using map_of_insert [of b k v a] ba c by auto
    ultimately show ?thesis using f NIL_SYM tk s assms(1) by (cases force) (auto simp: findInsertSymbol_def wf_table_def)
  next
    case (Sym c l e r)
    then have "fst e = k" using find_found [of k t "[]" c l e r p] f assms o by (auto simp: ordered_def)
    moreover have "table t k = Some (snd e)" using find_in_table [OF o(1) assms(2)] f Sym by simp
    ultimately show ?thesis using f Sym assms(1) by (cases e) (auto simp: findInsertSymbol_def)
  qed
qed

lemma remove_child_ok:
  assumes "pos_inv (Sym c l e r) p" "l = NIL_SYM \<or> r = NIL_SYM"
  shows "\<exists>t. (if c = BLACK then deleteFixup (if l \<noteq> NIL_SYM then l else r) p else Some (plug (if l \<noteq> NIL_SYM then l else r) p)) = Some t \<and> balanced t \<and>
     collectSymbols t = before p @ collectSymbols l @ collectSymbols r @ after p"
proof -
  let ?x = "if l \<noteq> NIL_SYM then l else r"
  have col: "collectSymbols ?x = collectSymbols l @ collectSymbols r" using assms(2) by auto
  show ?thesis
  proof (cases "c = BLACK")
    case True
    have "hole_inv ?x p" using assms True by (auto simp: hole_inv_def pos_inv_def invc_paint)
    then show ?thesis using deleteFixup_ok [of ?x p] collect_deleteFixup [of ?x p] True col by (auto simp del: collect_plug)
  next
    case False
    have "pos_inv ?x p" using assms False by (auto simp: pos_inv_def)
    then show ?thesis using plug_balanced [of ?x p] collect_plug [of ?x p] False col by (auto simp del: collect_plug)
  qed
qed

lemma leftmost_path: "leftmost t (q @ p) = map_option (\<lambda>(c, e, x, q'). (c, e, x, q' @ p)) (leftmost t q)"
  by (induction t q rule: leftmost.induct) (auto simp flip: append_Cons)

lemma leftmost_before: "leftmost t p = Some (c, e, x, q) \<Longrightarrow> before q = before p"
  by (induction t p rule: leftmost.induct) auto

lemma path_entry:
  "parent_color (q @ InRight l c e # p) = parent_color (q @ InRight l c e' # p)"
  "path_c (q @ InRight l c e # p) = path_c (q @ InRight l c e' # p)"
  "path_h n (q @ InRight l c e # p) = path_h n (q @ InRight l c e' # p)"
proof -
  have *: "parent_color (q @ InRight l c e # p) = parent_color (q @ InRight l c e' # p)" for q by (cases q) auto
  then show "parent_color (q @ InRight l c e # p) = parent_color (q @ InRight l c e' # p)" .
  show "path_c (q @ InRight l c e # p) = path_c (q @ InRight l c e' # p)"
  proof (induction q)
    case (Cons s q)
    then show ?case using * [of q] by simp
  qed simp
  show "path_h n (q @ InRight l c e # p) = path_h n (q @ InRight l c e' # p)"
    by (induction q arbitrary: n) auto
qed

lemma pos_inv_entry: "pos_inv t (q @ InRight l c e # p) = pos_inv t (q @ InRight l c e' # p)"
  using path_entry(1,2) [of q l c e p e'] path_entry(3) [of _ q l c e p e'] by (simp add: pos_inv_def)

lemma before_append: "before (q @ p) = before p @ before q" "after (q @ p) = after q @ after p"
  by (induction q rule: before.induct; simp)+

lemma deleteSymbol_ok:
  assumes "wf_table t" "name_ok k"
  shows "\<exists>t'. deleteSymbol k t = Some (k \<in> dom (table t), t') \<and> wf_table t' \<and> table t' = (table t)(k := None)"
proof -
  have o: "ordered t" "balanced t" using assms by (auto simp: wf_table_def)
  obtain t0 p where f: "find k t [] = (t0, p)" by fastforce
  show ?thesis
  proof (cases t0)
    case NIL_SYM
    then have "table t k = None" using find_in_table [OF o(1) assms(2)] f by simp
    then show ?thesis using f NIL_SYM assms(1) by (auto simp: deleteSymbol_def)
  next
    case (Sym c l e r)
    have e: "fst e = k" using Sym find_found [of k t "[]" c l e r p] f assms o by (auto simp: ordered_def)
    have tk: "k \<in> dom (table t)" using find_in_table [OF o(1) assms(2)] f Sym by auto
    have inv: "pos_inv (Sym c l e r) p" using find_pos_inv [OF f] pos_inv_root [OF o(2)] Sym by simp
    have col: "collectSymbols t = (before p @ collectSymbols l) @ e # (collectSymbols r @ after p)"
      using find_plug [OF f] collect_plug [of t0 p] Sym by simp
    have "\<exists>t'. deleteSymbol k t = Some (True, t') \<and> balanced t' \<and>
      collectSymbols t' = (before p @ collectSymbols l) @ (collectSymbols r @ after p)"
    proof (cases "l = NIL_SYM \<or> r = NIL_SYM")
      case True
      then show ?thesis using remove_child_ok [OF inv True] f Sym by (auto simp: deleteSymbol_def Let_def)
    next
      case False
      obtain yc ye x q where lm: "leftmost r [] = Some (yc, ye, x, q)" using leftmost_returns [of r "[]"] False by auto
      then have "leftmost r (InRight l c e # p) = Some (yc, ye, x, q @ InRight l c e # p)"
        using leftmost_path [of r "[]" "InRight l c e # p"] by simp
      then have inv': "pos_inv (Sym yc NIL_SYM ye x) (q @ InRight l c ye # p)"
        using leftmost_pos_inv pos_inv_down(2) [OF inv] pos_inv_entry by blast
      have "collectSymbols r = before q @ ye # collectSymbols x @ after q" using collect_leftmost [OF lm] by simp
      moreover have "before q = []" using leftmost_before [OF lm] by simp
      ultimately show ?thesis using remove_child_ok [OF inv'] f Sym lm False
        by (auto simp: deleteSymbol_def Let_def before_append)
    qed
    then obtain t' where t': "deleteSymbol k t = Some (True, t')" "balanced t'"
      "collectSymbols t' = (before p @ collectSymbols l) @ (collectSymbols r @ after p)" by blast
    have "ordered t'" using o(1) col t' by (auto simp: ordered_def sorted_wrt_append)
    moreover have "table t' = (table t)(k := None)"
      using map_of_remove [of "before p @ collectSymbols l" e "collectSymbols r @ after p"] ordered_distinct [OF o(1)] col t' e by simp
    ultimately show ?thesis using t' tk by (auto simp: wf_table_def)
  qed
qed

section \<open>Search depth\<close>

fun depth :: "'v symtree \<Rightarrow> nat" where
  "depth NIL_SYM = 0"
| "depth (Sym c l e r) = Suc (max (depth l) (depth r))"

lemma bheight_size: "invh t \<Longrightarrow> 2 ^ bheight t \<le> Suc (length (collectSymbols t))"
proof (induction t)
  case (Sym c l e r)
  have "(2::nat) ^ bheight l + 2 ^ bheight l \<le> Suc (length (collectSymbols l)) + Suc (length (collectSymbols r))"
    using Sym by (intro add_mono) auto
  then show ?case using Sym by auto
qed simp

lemma depth_bheight: "invc t \<Longrightarrow> invh t \<Longrightarrow> depth t \<le> 2 * bheight t + (if color_of t = RED then 1 else 0)"
proof (induction t)
  case (Sym c l e r)
  then show ?case by (cases c; cases "color_of l"; cases "color_of r") auto
qed simp

lemma find_depth: "find k t p = (t', p') \<Longrightarrow> length p' \<le> length p + depth t"
  by (induction k t p rule: find.induct) (auto simp: Let_def split: if_splits)

section \<open>Interface of a symbol table\<close>

text \<open>What contexts rely on: a finite map from names with a creating lookup and a deletion,
  both of which always return and keep the invariant.\<close>

locale symbol_table =
  fixes inv :: "'t \<Rightarrow> bool" and ok :: "string \<Rightarrow> bool" and tab :: "'t \<Rightarrow> string \<rightharpoonup> 'v" and empty :: 't
    and find_insert :: "string \<Rightarrow> 'v \<Rightarrow> bool \<Rightarrow> 't \<Rightarrow> ((string \<times> 'v) option \<times> 't) option"
    and remove :: "string \<Rightarrow> 't \<Rightarrow> (bool \<times> 't) option"
  assumes empty_law: "inv empty \<and> tab empty = Map.empty"
    and insert_law: "inv t \<Longrightarrow> ok k \<Longrightarrow> \<exists>e t'. find_insert k v force t = Some (e, t') \<and> inv t' \<and>
      (case tab t k of
         Some u \<Rightarrow> e = Some (k, u) \<and> t' = t
       | None \<Rightarrow> if force then e = Some (k, v) \<and> tab t' = (tab t)(k \<mapsto> v) else e = None \<and> t' = t)"
    and remove_law: "inv t \<Longrightarrow> ok k \<Longrightarrow>
      \<exists>t'. remove k t = Some (k \<in> dom (tab t), t') \<and> inv t' \<and> tab t' = (tab t)(k := None)"
begin

lemma lookup: "inv t \<Longrightarrow> ok k \<Longrightarrow> find_insert k v False t = Some (map_option (Pair k) (tab t k), t)"
  using insert_law [of t k v False] by (cases "tab t k") auto

lemma create:
  assumes "inv t" "ok k"
  shows "\<exists>t'. find_insert k v True t = Some (Some (k, case tab t k of Some u \<Rightarrow> u | None \<Rightarrow> v), t') \<and> inv t' \<and>
    tab t' = (tab t)(k \<mapsto> (case tab t k of Some u \<Rightarrow> u | None \<Rightarrow> v))"
  using insert_law [OF assms, of v True] by (auto split: option.splits)

lemma create_twice:
  assumes "inv t" "ok k" "find_insert k v True t = Some (e, t')"
  shows "find_insert k w True t' = Some (e, t')"
proof -
  have t': "inv t'" "tab t' k = map_option snd e" "e \<noteq> None \<and> fst (the e) = k"
    using create [OF assms(1,2), of v] assms(3) by auto
  then show ?thesis using insert_law [OF t'(1) assms(2), of w True] by (cases e) auto
qed

lemma create_remove:
  assumes "inv t" "ok k" "tab t k = None" "find_insert k v True t = Some (e, t')"
  shows "\<exists>t''. remove k t' = Some (True, t'') \<and> inv t'' \<and> tab t'' = tab t"
proof -
  have t': "inv t'" "tab t' = (tab t)(k \<mapsto> v)" using create [OF assms(1,2), of v] assms(3,4) by auto
  show ?thesis using remove_law [OF t'(1) assms(2)] t'(2) assms(3) by (auto simp: fun_upd_idem_iff)
qed

end

lemma table_lookup_ok:
  shows "wf_table NIL_SYM \<and> table NIL_SYM = Map.empty"
  by (simp add: wf_NIL_SYM)

interpretation symtab: symbol_table wf_table name_ok table NIL_SYM findInsertSymbol deleteSymbol
  by (rule symbol_table.intro) (rule table_lookup_ok findInsert_ok deleteSymbol_ok; assumption)+

section \<open>Sequences of operations\<close>

text \<open>A table is used through creating lookups and deletions; the abstract table is a
  map.\<close>

datatype 'v table_op = Create string 'v | Delete string

fun op_name :: "'v table_op \<Rightarrow> string" where
  "op_name (Create k v) = k"
| "op_name (Delete k) = k"

fun table_step :: "'v table_op \<Rightarrow> 'v symtree \<Rightarrow> 'v symtree option" where
  "table_step (Create k v) t = map_option snd (findInsertSymbol k v True t)"
| "table_step (Delete k) t = map_option snd (deleteSymbol k t)"

fun table_run :: "'v table_op list \<Rightarrow> 'v symtree \<Rightarrow> 'v symtree option" where
  "table_run [] t = Some t"
| "table_run (op # ops) t = (case table_step op t of None \<Rightarrow> None | Some t' \<Rightarrow> table_run ops t')"

fun map_step :: "'v table_op \<Rightarrow> (string \<rightharpoonup> 'v) \<Rightarrow> (string \<rightharpoonup> 'v)" where
  "map_step (Create k v) m = (case m k of None \<Rightarrow> m(k \<mapsto> v) | Some _ \<Rightarrow> m)"
| "map_step (Delete k) m = m(k := None)"

lemma table_step_ok:
  assumes "wf_table t" "name_ok (op_name op)"
  shows "\<exists>t'. table_step op t = Some t' \<and> wf_table t' \<and> table t' = map_step op (table t)"
proof (cases op)
  case (Create k v)
  then show ?thesis using symtab.create [of t k v] assms by (auto simp: map_upd_triv split: option.splits)
next
  case (Delete k)
  then show ?thesis using symtab.remove_law [of t k] assms by auto
qed

text \<open>(C26) Any sequence of creating lookups and deletions on an initially empty symbol table
  returns, without a NULL parent being followed or the sentinel being recoloured, and behaves as
  the same sequence on a finite map. The symbols stay in ascending order of their names and the
  tree stays balanced: its depth is at most twice the binary logarithm of their number plus
  one.\<close>

theorem table_refines_map:
  assumes "list_all (\<lambda>op. name_ok (op_name op)) ops"
  shows "\<exists>t. table_run ops NIL_SYM = Some t \<and> table t = fold map_step ops Map.empty \<and>
    sorted_wrt (<) (map fst (collectSymbols t)) \<and> 2 ^ depth t \<le> (Suc (length (collectSymbols t)))\<^sup>2"
proof -
  have "\<exists>t'. table_run ops t = Some t' \<and> wf_table t' \<and> table t' = fold map_step ops (table t)"
    if "wf_table t" for t
    using assms that
  proof (induction ops arbitrary: t)
    case (Cons op ops)
    then obtain t1 where "table_step op t = Some t1" "wf_table t1" "table t1 = map_step op (table t)"
      using table_step_ok [of t op] by auto
    then show ?case using Cons.IH [of t1] Cons.prems by auto
  qed simp
  from this [OF wf_NIL_SYM] obtain t where t: "table_run ops NIL_SYM = Some t" "wf_table t" "table t = fold map_step ops Map.empty"
    by auto
  have "depth t \<le> 2 * bheight t" "2 ^ bheight t \<le> Suc (length (collectSymbols t))"
    using t(2) depth_bheight [of t] bheight_size [of t] by (auto simp: wf_table_def balanced_def)
  then have "(2::nat) ^ depth t \<le> 2 ^ (2 * bheight t)" "((2::nat) ^ bheight t)\<^sup>2 \<le> (Suc (length (collectSymbols t)))\<^sup>2"
    by (auto intro: power_increasing power_mono)
  then have "2 ^ depth t \<le> (Suc (length (collectSymbols t)))\<^sup>2" by (simp add: power_mult power2_eq_square mult.commute power_even_eq)
  then show ?thesis using t by (auto simp: wf_table_def ordered_def)
qed

theorem table_refines_map_witness:
  "\<exists>t. table_run [Create ''b'' (1::int), Create ''a'' 2, Create ''b'' 3, Delete ''a''] NIL_SYM = Some t \<and>
     table t = [''b'' \<mapsto> 1]"
  using table_refines_map [of "[Create ''b'' (1::int), Create ''a'' 2, Create ''b'' 3, Delete ''a'']"]
  by (auto simp: name_ok_def c_string_def)

end
