(* ===== verification/NL_Contexts.thy ===== *)
theory NL_Contexts
  imports NL_SymTree
begin

text \<open>
  Contexts, newLISP's name spaces and dictionaries (\<^verbatim>\<open>nl-symbol.c\<close>): symbol creation
  with inheritance from MAIN (\<^verbatim>\<open>translateCreateSymbol\<close>), lookup, the underscore-prefixed
  keys of dictionaries (\<^verbatim>\<open>makeSafeSymbol\<close>, \<^verbatim>\<open>collectSymbolAssocs\<close>), assignment
  and the deletion of symbols and of whole contexts. The state maps the name of a context to
  its symbol tree; a symbol is the pair of the two names. The lemmas rest on the interface
  \<open>symbol_table\<close>: names resolve to one symbol, creation never disturbs other symbols, a
  dictionary returns what was stored last.
\<close>

section \<open>State\<close>

record sym_info =
  sym_protected :: bool
  sym_global :: bool
  sym_contents :: cell

type_synonym contexts = "string \<Rightarrow> sym_info symtree"

datatype create_type = AS_NIL | AS_CONTEXT | AS_PRIMITIVE

definition MAIN :: string where
  "MAIN = ''MAIN''"

section \<open>Operations\<close>

text \<open>What a new symbol gets: a context symbol of MAIN is bound to its context and protected,
  any other symbol to nil.\<close>

definition new_info :: "create_type \<Rightarrow> string \<Rightarrow> string \<Rightarrow> sym_info" where
  "new_info type context token =
     (if type = AS_CONTEXT \<and> context = MAIN
      then \<lparr>sym_protected = True, sym_global = True,
            sym_contents = CELL_CONTEXT \<lparr>scontext = MAIN, sname = token\<rparr>\<rparr>
      else \<lparr>sym_protected = False, sym_global = False, sym_contents = CELL_NIL\<rparr>)"

text \<open>A symbol of MAIN is inherited when it is global or names its own context.\<close>

definition inherited :: "string \<Rightarrow> sym_info \<Rightarrow> bool" where
  "inherited token i \<longleftrightarrow>
     sym_global i \<or> sym_contents i = CELL_CONTEXT \<lparr>scontext = MAIN, sname = token\<rparr>"

definition lookupSymbol :: "string \<Rightarrow> string \<Rightarrow> contexts \<Rightarrow> sym_info option option" where
  "lookupSymbol token context C =
     map_option (\<lambda>(e, t). map_option snd e)
       (findInsertSymbol token (new_info AS_NIL context token) False (C context))"

definition createSymbol ::
  "string \<Rightarrow> create_type \<Rightarrow> string \<Rightarrow> contexts \<Rightarrow> (symbol \<times> contexts) option" where
  "createSymbol token type context C =
     map_option (\<lambda>(e, t). (\<lparr>scontext = context, sname = token\<rparr>, C(context := t)))
       (findInsertSymbol token (new_info type context token) True (C context))"

definition translateCreateSymbol ::
  "string \<Rightarrow> create_type \<Rightarrow> string \<Rightarrow> bool \<Rightarrow> contexts \<Rightarrow> (symbol \<times> contexts) option" where
  "translateCreateSymbol token type context forceFlag C =
     (if forceFlag then createSymbol token type context C
      else
        (case lookupSymbol token context C of
           None \<Rightarrow> None
         | Some (Some i) \<Rightarrow> Some (\<lparr>scontext = context, sname = token\<rparr>, C)
         | Some None \<Rightarrow>
             if context \<noteq> MAIN
             then
               (case lookupSymbol token MAIN C of
                  None \<Rightarrow> None
                | Some (Some i) \<Rightarrow>
                    if inherited token i then Some (\<lparr>scontext = MAIN, sname = token\<rparr>, C)
                    else createSymbol token type context C
                | Some None \<Rightarrow> createSymbol token type context C)
             else createSymbol token type context C))"

text \<open>The key of a dictionary entry: an underscore and the string, so that keys never meet
  other symbols. Numbers are printed in decimal.\<close>

fun digits :: "nat \<Rightarrow> string" where
  "digits n = (if n < 10 then [char_of (48 + n)] else digits (n div 10) @ [char_of (48 + n mod 10)])"

definition print_int :: "int \<Rightarrow> string" where
  "print_int n = (if n < 0 then CHR ''-'' # digits (nat (- n)) else digits (nat n))"

fun safe_token :: "cell \<Rightarrow> string result" where
  "safe_token (CELL_STRING s) = Inr (CHR ''_'' # s)"
| "safe_token c = map_sum id (\<lambda>n. CHR ''_'' # print_int n) (getInteger64Ext c)"

definition makeSafeSymbol ::
  "cell \<Rightarrow> string \<Rightarrow> contexts \<Rightarrow> (symbol \<times> contexts) result option" where
  "makeSafeSymbol c context C =
     (case safe_token c of
        Inl e \<Rightarrow> Some (Inl e)
      | Inr token \<Rightarrow> map_option Inr (translateCreateSymbol token AS_NIL context True C))"

text \<open>Assignment replaces the contents of a symbol in its place in the tree.\<close>

definition assignSymbol :: "symbol \<Rightarrow> cell \<Rightarrow> contexts \<Rightarrow> contexts" where
  "assignSymbol s content C =
     (case find (sname s) (C (scontext s)) [] of
        (NIL_SYM, p) \<Rightarrow> C
      | (Sym c l e r, p) \<Rightarrow>
          C(scontext s := plug (Sym c l (fst e, (snd e)\<lparr>sym_contents := content\<rparr>) r) p))"

definition deleteAndFreeSymbol :: "symbol \<Rightarrow> contexts \<Rightarrow> contexts option" where
  "deleteAndFreeSymbol s C =
     map_option (\<lambda>(d, t). if d then C(scontext s := t) else C) (deleteSymbol (sname s) (C (scontext s)))"

fun delete_all :: "symbol list \<Rightarrow> contexts \<Rightarrow> contexts option" where
  "delete_all [] C = Some C"
| "delete_all (s # ss) C =
     (case deleteAndFreeSymbol s C of None \<Rightarrow> None | Some C' \<Rightarrow> delete_all ss C')"

definition deleteContextSymbols :: "string \<Rightarrow> contexts \<Rightarrow> contexts option" where
  "deleteContextSymbols context C =
     delete_all (map (\<lambda>e. \<lparr>scontext = context, sname = fst e\<rparr>) (collectSymbols (C context))) C"

text \<open>The entries of a dictionary: the symbols whose name starts with an underscore.\<close>

definition assoc_of :: "string \<times> sym_info \<Rightarrow> (string \<times> cell) list" where
  "assoc_of e =
     (if fst e \<noteq> [] \<and> hd (fst e) = CHR ''_'' then [(tl (fst e), sym_contents (snd e))] else [])"

fun collectSymbolAssocs :: "sym_info symtree \<Rightarrow> (string \<times> cell) list" where
  "collectSymbolAssocs NIL_SYM = []"
| "collectSymbolAssocs (Sym c l e r) =
     collectSymbolAssocs l @ assoc_of e @ collectSymbolAssocs r"

section \<open>Invariant\<close>

definition wf_contexts :: "contexts \<Rightarrow> bool" where
  "wf_contexts C \<longleftrightarrow> (\<forall>c. wf_table (C c))"

section \<open>Resolving names\<close>

declare digits.simps [simp del]

lemma lookupSymbol_eq:
  assumes "wf_contexts C" "name_ok token"
  shows "lookupSymbol token context C = Some (table (C context) token)"
  using symtab.lookup [of "C context" token] assms
  by (auto simp: lookupSymbol_def wf_contexts_def option.map_comp option.map_ident comp_def)

lemma createSymbol_ok:
  assumes "wf_contexts C" "name_ok token"
  shows "\<exists>t. createSymbol token type context C = Some (\<lparr>scontext = context, sname = token\<rparr>, C(context := t)) \<and>
    wf_contexts (C(context := t)) \<and>
    table t = (table (C context))(token \<mapsto> (case table (C context) token of Some u \<Rightarrow> u | None \<Rightarrow> new_info type context token)) \<and>
    (table (C context) token \<noteq> None \<longrightarrow> t = C context)"
proof -
  have "wf_table (C context)" using assms by (simp add: wf_contexts_def)
  from symtab.create [OF this assms(2), of "new_info type context token"] symtab.insert_law [OF this assms(2), of "new_info type context token" True]
  show ?thesis using assms by (auto simp: createSymbol_def wf_contexts_def split: option.splits)
qed

text \<open>(C27) Translating a token to a symbol always returns a symbol of that name in the given
  context, or without the force flag one inherited from MAIN. Afterwards the symbol is found in
  its context, all earlier symbols of all contexts are unchanged, no other context is touched,
  and translating the token again gives the same symbol and changes nothing.\<close>

theorem translateCreateSymbol_resolves:
  assumes "wf_contexts C" "name_ok token"
  shows "\<exists>s C'. translateCreateSymbol token type context forceFlag C = Some (s, C') \<and> wf_contexts C' \<and>
    sname s = token \<and> (scontext s = context \<or> scontext s = MAIN \<and> \<not> forceFlag) \<and>
    lookupSymbol token (scontext s) C' \<noteq> Some None \<and>
    (\<forall>c. table (C c) \<subseteq>\<^sub>m table (C' c)) \<and> (\<forall>c. c \<noteq> context \<longrightarrow> C' c = C c) \<and>
    translateCreateSymbol token type context forceFlag C' = Some (s, C')"
proof -
  obtain t where t: "createSymbol token type context C = Some (\<lparr>scontext = context, sname = token\<rparr>, C(context := t))"
    "wf_contexts (C(context := t))"
    "table t = (table (C context))(token \<mapsto> (case table (C context) token of Some u \<Rightarrow> u | None \<Rightarrow> new_info type context token))"
    using createSymbol_ok [OF assms] by blast
  let ?C = "C(context := t)"
  obtain u where u: "createSymbol token type context ?C = Some (\<lparr>scontext = context, sname = token\<rparr>, ?C(context := u))"
    "table (?C context) token \<noteq> None \<longrightarrow> u = ?C context"
    using createSymbol_ok [OF t(2) assms(2)] by blast
  have u': "?C(context := u) = ?C" using u(2) t(3) by simp
  have look: "lookupSymbol token c C = Some (table (C c) token)" "lookupSymbol token c ?C = Some (table (?C c) token)" for c
    using lookupSymbol_eq assms t(2) by blast+
  have sub: "table (C c) \<subseteq>\<^sub>m table (?C c)" for c
    using t(3) by (auto simp: map_le_def split: option.splits)
  show ?thesis
  proof (cases "translateCreateSymbol token type context forceFlag C = createSymbol token type context C")
    case True
    have "translateCreateSymbol token type context forceFlag ?C = Some (\<lparr>scontext = context, sname = token\<rparr>, ?C)"
      using u(1) u' look(2) t(3) by (auto simp: translateCreateSymbol_def)
    then show ?thesis using True t look(2) sub by (intro exI [of _ "\<lparr>scontext = context, sname = token\<rparr>"] exI [of _ ?C]) auto
  next
    case False
    then obtain s where s: "translateCreateSymbol token type context forceFlag C = Some (s, C)" "sname s = token" "\<not> forceFlag"
      "scontext s = context \<or> scontext s = MAIN" "table (C (scontext s)) token \<noteq> None"
      using look(1) by (auto simp: translateCreateSymbol_def split: option.splits if_splits)
    then show ?thesis using assms look(1) by (intro exI [of _ s] exI [of _ C]) auto
  qed
qed

theorem translateCreateSymbol_resolves_witness:
  "\<exists>s C'. translateCreateSymbol ''foo'' AS_NIL ''Ctx'' False (\<lambda>c. NIL_SYM) = Some (s, C') \<and>
     sname s = ''foo'' \<and> translateCreateSymbol ''foo'' AS_NIL ''Ctx'' False C' = Some (s, C')"
  using translateCreateSymbol_resolves [of "\<lambda>c. NIL_SYM" "''foo''" AS_NIL "''Ctx''" False]
  by (auto simp: wf_contexts_def wf_NIL_SYM name_ok_def c_string_def)

section \<open>Dictionaries\<close>

lemma assign_tree:
  assumes "wf_table t" "find k t [] = (Sym c l e r, p)" "name_ok k"
  shows "wf_table (plug (Sym c l (fst e, v) r) p) \<and> table (plug (Sym c l (fst e, v) r) p) = (table t)(k \<mapsto> v)"
proof -
  have o: "ordered t" "balanced t" using assms by (auto simp: wf_table_def)
  have e: "fst e = k" using find_found [OF assms(2,3)] o by (simp add: ordered_def)
  have col: "collectSymbols t = (before p @ collectSymbols l) @ e # (collectSymbols r @ after p)"
    using find_plug [OF assms(2)] collect_plug [of "Sym c l e r" p] by simp
  have col': "collectSymbols (plug (Sym c l (fst e, v) r) p) = (before p @ collectSymbols l) @ (k, v) # (collectSymbols r @ after p)"
    using e by simp
  have "pos_inv (Sym c l e r) p" using find_pos_inv [OF assms(2)] pos_inv_root [OF o(2)] by simp
  then have "pos_inv (Sym c l (fst e, v) r) p" by (simp add: pos_inv_def)
  then have "balanced (plug (Sym c l (fst e, v) r) p)" by (rule plug_balanced)
  moreover have "map fst (collectSymbols (plug (Sym c l (fst e, v) r) p)) = map fst (collectSymbols t)" using col col' e by simp
  then have "ordered (plug (Sym c l (fst e, v) r) p)"
    using o(1) unfolding ordered_def by (metis (no_types, lifting) image_iff list.set_map)
  moreover have "table (plug (Sym c l (fst e, v) r) p) = (table t)(k \<mapsto> v)"
  proof -
    let ?b = "before p @ collectSymbols l" and ?a = "collectSymbols r @ after p"
    have k: "\<forall>e\<in>set ?b. fst e \<noteq> k" using ordered_distinct [OF o(1)] col e by (force simp: image_iff)
    have "e = (k, snd e)" using e by (cases e) simp
    then have "collectSymbols t = ?b @ (k, snd e) # ?a" using col by metis
    then show ?thesis unfolding col' using map_of_insert [OF k, of v ?a] map_of_insert [OF k, of "snd e" ?a] by simp
  qed
  ultimately show ?thesis by (simp add: wf_table_def)
qed

lemma assignSymbol_ok:
  assumes "wf_contexts C" "name_ok (sname s)" "table (C (scontext s)) (sname s) = Some i"
  shows "wf_contexts (assignSymbol s v C) \<and>
    table (assignSymbol s v C (scontext s)) = (table (C (scontext s)))(sname s \<mapsto> i\<lparr>sym_contents := v\<rparr>) \<and>
    (\<forall>c. c \<noteq> scontext s \<longrightarrow> assignSymbol s v C c = C c)"
proof -
  have wf: "wf_table (C (scontext s))" using assms by (simp add: wf_contexts_def)
  obtain c l e r p where f: "find (sname s) (C (scontext s)) [] = (Sym c l e r, p)" "snd e = i"
    using find_in_table [of "C (scontext s)" "sname s"] wf assms(2,3)
    by (cases "find (sname s) (C (scontext s)) []"; cases "fst (find (sname s) (C (scontext s)) [])") (auto simp: wf_table_def)
  show ?thesis using assign_tree [OF wf f(1) assms(2), of "i\<lparr>sym_contents := v\<rparr>"] f assms(1)
    by (auto simp: assignSymbol_def wf_contexts_def)
qed

lemma collectSymbolAssocs_eq: "collectSymbolAssocs t = concat (map assoc_of (collectSymbols t))"
  by (induction t) simp_all

lemma map_of_assocs:
  "distinct (map fst es) \<Longrightarrow> map_of (concat (map assoc_of es)) k = map_option sym_contents (map_of es (CHR ''_'' # k))"
proof (induction es)
  case (Cons e es)
  obtain n i where e: "e = (n, i)" by fastforce
  show ?case using Cons e by (cases n) (auto simp: assoc_of_def)
qed simp



lemma delete_all_ok:
  assumes "wf_contexts C" "\<forall>e\<in>set es. name_ok (fst e)"
  shows "\<exists>C'. delete_all (map (\<lambda>e. \<lparr>scontext = context, sname = fst e\<rparr>) es) C = Some C' \<and> wf_contexts C' \<and>
    (\<forall>c. c \<noteq> context \<longrightarrow> C' c = C c) \<and> (\<forall>k. table (C' context) k = (if k \<in> fst ` set es then None else table (C context) k))"
  using assms
proof (induction es arbitrary: C)
  case (Cons e es)
  obtain t where t: "deleteSymbol (fst e) (C context) = Some (fst e \<in> dom (table (C context)), t)" "wf_table t"
    "table t = (table (C context))(fst e := None)" using deleteSymbol_ok [of "C context" "fst e"] Cons.prems by (auto simp: wf_contexts_def)
  define C1 where "C1 = (if fst e \<in> dom (table (C context)) then C(context := t) else C)"
  have d: "deleteAndFreeSymbol \<lparr>scontext = context, sname = fst e\<rparr> C = Some C1" using t(1) by (simp add: deleteAndFreeSymbol_def C1_def)
  have w: "wf_contexts C1" using t(2) Cons.prems by (simp add: C1_def wf_contexts_def)
  have tab: "table (C1 context) = (table (C context))(fst e := None)" using t(3) by (auto simp: C1_def)
  have oth: "\<forall>c. c \<noteq> context \<longrightarrow> C1 c = C c" by (simp add: C1_def)
  show ?case using Cons.IH [OF w] Cons.prems d tab oth by auto
qed auto



end
