(* ===== verification/NL_Web.thy ===== *)
theory NL_Web
  imports NL_Codec NL_Contexts
begin

text \<open>
The parts of \<^verbatim>\<open>nl-web.c\<close> that decide: taking URLs apart (\<^verbatim>\<open>parseUrl\<close>,
  \<^verbatim>\<open>parsePath\<close>, \<^verbatim>\<open>parseValue\<close>) and the request handler of the HTTP server
  (\<^verbatim>\<open>executeHTTPrequest\<close> with \<^verbatim>\<open>readHeader\<close>, \<^verbatim>\<open>readPayLoad\<close>,
  \<^verbatim>\<open>handleHTTPcgi\<close>, \<^verbatim>\<open>sendHTTPpage\<close>, \<^verbatim>\<open>getMediaType\<close>). The operating system and
  the client are the record \<open>server\<close>; the handler returns the list of what it does to files and
  sends back. The lemmas show that a request cannot leave the start-up directory and that it is
  answered, and that \<^verbatim>\<open>parseUrl\<close> recovers the parts of a composed URL.
\<close>


section \<open>C string functions\<close>

definition toupper :: "char \<Rightarrow> char" where
  "toupper c = (if byte CHR ''a'' \<le> byte c \<and> byte c \<le> byte CHR ''z'' then char_of (byte c - 32) else c)"

text \<open>\<^verbatim>\<open>my_strnicmp(s1, s2, size) == 0\<close>, for a literal \<open>s2\<close> of \<open>size\<close>
  characters: the loop stops at the end of \<open>s1\<close>, whose NUL differs.\<close>

definition starts_nocase :: "string \<Rightarrow> string \<Rightarrow> bool" where
  "starts_nocase s1 s2 \<longleftrightarrow> map toupper (take (length s2) s1) = map toupper s2"

definition strchr :: "string \<Rightarrow> char \<Rightarrow> nat option" where
  "strchr s c = (if c \<in> set s then Some (length (takeWhile (\<lambda>d. d \<noteq> c) s)) else None)"

definition is_digit :: "char \<Rightarrow> bool" where
  "is_digit c \<longleftrightarrow> byte CHR ''0'' \<le> byte c \<and> byte c \<le> byte CHR ''9''"

definition is_space :: "char \<Rightarrow> bool" where
  "is_space c \<longleftrightarrow> byte c = 32 \<or> (9 \<le> byte c \<and> byte c \<le> 13)"

text \<open>\<^verbatim>\<open>strtol\<close> in base 10, which \<^verbatim>\<open>atoi\<close> and \<^verbatim>\<open>atol\<close> call: it stops at the
  bounds of a \<^verbatim>\<open>long\<close>, and \<^verbatim>\<open>atoi\<close> cuts the result to 32 bits.\<close>

definition atol :: "string \<Rightarrow> int" where
  "atol s =
     (let s = dropWhile is_space s;
          neg = (s \<noteq> [] \<and> hd s = CHR ''-'');
          t = (if s \<noteq> [] \<and> (hd s = CHR ''-'' \<or> hd s = CHR ''+'') then tl s else s);
          v = foldl (\<lambda>n c. 10 * n + (byte c - 48)) 0 (takeWhile is_digit t)
      in max (- (2 ^ 63)) (min (2 ^ 63 - 1) (if neg then - v else v)))"

definition atoi :: "string \<Rightarrow> int" where
  "atoi s = signed_take_bit 31 (atol s)"

section \<open>Parsing URLs\<close>

text \<open>Blanks at the end are cut off, the first character is always kept. A \<^verbatim>\<open>char\<close> is
  signed, so bytes above 127 count as blanks.\<close>

definition trim_url :: "string \<Rightarrow> string" where
  "trim_url s = (case s of [] \<Rightarrow> [] | c # t \<Rightarrow> c # rev (dropWhile (\<lambda>c. sbyte c \<le> 32) (rev t)))"

record url =
  protocol :: string
  host :: string
  port :: int
  path :: string

text \<open>The characters before the first \<open>c\<close>, and what follows it.\<close>

definition until_char :: "char \<Rightarrow> string \<Rightarrow> string" where
  "until_char c s = takeWhile (\<lambda>d. d \<noteq> c) s"

definition after_char :: "char \<Rightarrow> string \<Rightarrow> string" where
  "after_char c s = tl (dropWhile (\<lambda>d. d \<noteq> c) s)"

definition char_before :: "char \<Rightarrow> char \<Rightarrow> string \<Rightarrow> bool" where
  "char_before c d s \<longleftrightarrow>
     (case strchr s c of None \<Rightarrow> False
      | Some i \<Rightarrow> (case strchr s d of None \<Rightarrow> True | Some j \<Rightarrow> i < j))"

text \<open>Host name and port of the text behind the protocol; \<open>inet6\<close> tells the address
  family.\<close>

definition host_port :: "bool \<Rightarrow> string \<Rightarrow> string \<times> int" where
  "host_port inet6 h =
     (if inet6 \<and> char_before CHR '']'' CHR ''/'' h
      then (until_char CHR '']'' h,
            (case after_char CHR '']'' h of
               c # p \<Rightarrow> if c = CHR '':'' then atoi p else 80
             | [] \<Rightarrow> 80))
      else if char_before CHR '':'' CHR ''/'' h
      then (until_char CHR '':'' h, atoi (after_char CHR '':'' h))
      else (h, 80))"

text \<open>A host longer than its buffer would not be terminated. Without a buffer for the path
  (\<open>with_path\<close>) the host is not cut at the slash.\<close>

definition parse_host :: "bool \<Rightarrow> bool \<Rightarrow> nat \<Rightarrow> string \<Rightarrow> string \<Rightarrow> url option result" where
  "parse_host inet6 with_path bufflen proto rest =
     (let h = (if inet6 \<and> rest \<noteq> [] \<and> hd rest = CHR ''['' then tl rest else rest)
      in if bufflen \<le> length h then Inl C_UNDEFINED
         else let (name, p) = host_port inet6 h
              in Inr (Some (if \<not> with_path then \<lparr>protocol = proto, host = name, port = p, path = []\<rparr>
                    else \<lparr>protocol = proto, host = until_char CHR ''/'' name, port = p,
                          path = after_char CHR ''/'' h\<rparr>)))"

definition parseUrl :: "bool \<Rightarrow> bool \<Rightarrow> nat \<Rightarrow> string \<Rightarrow> url option result" where
  "parseUrl inet6 with_path bufflen s =
     (let s = trim_url s
      in if starts_nocase s ''http://'' then parse_host inet6 with_path bufflen ''http'' (drop 7 s)
         else if starts_nocase s ''https://'' then parse_host inet6 with_path bufflen ''https'' (drop 8 s)
         else Inr None)"

text \<open>A blank string has no first visible character: the loop leaves the buffer.\<close>

definition parsePath :: "nat \<Rightarrow> string \<Rightarrow> string result" where
  "parsePath bufflen s =
     (let t = dropWhile (\<lambda>c. sbyte c \<le> 32) (trim_url s)
      in if t = [] then Inl C_UNDEFINED else Inr (take bufflen t))"

definition parseValue :: "string \<Rightarrow> int" where
  "parseValue s = atol (dropWhile (\<lambda>c. \<not> is_digit c) s)"

section \<open>The HTTP server\<close>

datatype http_type = HTTP_GET | HTTP_HEAD | HTTP_PUT | HTTP_POST | HTTP_DELETE

record response =
  status :: string
  media :: "string option"
  content :: string

text \<open>What the handler does to the outside: every access to the file system with the current
  directory at that moment.\<close>

datatype http_effect =
    Run_cgi string string string string
  | Read_file string string
  | File_size string string
  | Unlink_file string string
  | Write_file string string string string
  | Reply response

text \<open>What the handler finds outside: start-up directory and mode of the server, the directory
  \<^verbatim>\<open>chdir\<close> reaches from the start-up directory, whether \<^verbatim>\<open>realpath\<close> and the
  file operations succeed there, what they return, the lines of the request header, the results
  of the successive reads from the socket, and the memory below the buffer of the decoded
  request.\<close>

record server =
  startupDir :: string
  httpSafe :: bool
  root_ok :: bool
  enter :: "string \<Rightarrow> string option"
  resolves :: "string \<Rightarrow> bool"
  exists_file :: "string \<Rightarrow> string \<Rightarrow> bool"
  file_data :: "string \<Rightarrow> string \<Rightarrow> string option"
  file_length :: "string \<Rightarrow> string \<Rightarrow> int"
  can_unlink :: "string \<Rightarrow> string \<Rightarrow> bool"
  can_open :: "string \<Rightarrow> string \<Rightarrow> bool"
  can_write :: bool
  tmp_exists :: bool
  tmp_file :: "string option"
  can_pipe :: bool
  cgi_output :: "string \<Rightarrow> string \<Rightarrow> string \<Rightarrow> string option"
  header_lines :: "string list"
  payload :: "string list"
  below :: string

text \<open>\<^verbatim>\<open>str + size - len\<close> lies before a string shorter than the extension: the comparison
  then reads the bytes of memory in front of the string, given as \<open>mem\<close>.\<close>

definition endsWith :: "string \<Rightarrow> string \<Rightarrow> string \<Rightarrow> bool" where
  "endsWith mem str ext \<longleftrightarrow> drop (length (mem @ str) - length ext) (mem @ str) = ext"

definition mediaType :: "(string \<times> string) list" where
  "mediaType =
     [(''.avi'', ''video/x-msvideo''), (''.css'', ''text/css''), (''.gif'', ''image/gif''),
      (''.htm'', ''text/html''), (''.html'', ''text/html''), (''.jpg'', ''image/jpeg''),
      (''.js'', ''application/javascript''), (''.mov'', ''video/quicktime''),
      (''.mp3'', ''audio/mpeg''), (''.mpg'', ''video/mpeg''), (''.pdf'', ''application/pdf''),
      (''.png'', ''image/png''), (''.wav'', ''audio/x-wav''), (''.zip'', ''application/zip'')]"

definition MEDIA_TEXT :: string where
  "MEDIA_TEXT = ''text/plain''"

definition getMediaType :: "string \<Rightarrow> string \<Rightarrow> string" where
  "getMediaType mem request =
     (case List.find (\<lambda>m. endsWith mem request (fst m)) mediaType of
        None \<Rightarrow> MEDIA_TEXT
      | Some m \<Rightarrow> snd m)"

definition crlf :: string where
  "crlf = [CHR 0x0D, CHR 0x0A]"

text \<open>Content that starts with a status line replaces the status; the status buffer has 128
  bytes.\<close>

definition sendHTTPpage :: "string \<Rightarrow> string option \<Rightarrow> http_effect result" where
  "sendHTTPpage text med =
     (if take 7 text = ''Status:'' then
        let pos = length (takeWhile (\<lambda>c. 32 \<le> sbyte c) text)
        in if 128 \<le> pos - 7 then Inl C_UNDEFINED
           else Inr (Reply \<lparr>status = drop 7 (take pos text), media = med,
                            content = dropWhile (\<lambda>c. c \<in> set crlf) (drop pos text)\<rparr>)
      else Inr (Reply \<lparr>status = ''200 OK'', media = med, content = text\<rparr>))"

definition sendHTTPmessage :: "int \<Rightarrow> string \<Rightarrow> string \<Rightarrow> http_effect result" where
  "sendHTTPmessage n desc req =
     sendHTTPpage (take 255 (''Status:'' @ print_int n @ '' '' @ desc @ crlf @
                             ''ERR:'' @ print_int n @ '' '' @ desc @ '': '' @ req @ crlf)) (Some MEDIA_TEXT)"

definition ERROR_404 :: string where
  "ERROR_404 = ''File or Directory not found''"

definition ERROR_411 :: string where
  "ERROR_411 = ''Length required for''"

text \<open>The effects before the reply, and the reply.\<close>

definition then_reply :: "http_effect list \<Rightarrow> http_effect result \<Rightarrow> http_effect list result" where
  "then_reply es r = (case r of Inl e \<Rightarrow> Inl e | Inr x \<Rightarrow> Inr (es @ [x]))"

definition handleHTTPcgi :: "server \<Rightarrow> string \<Rightarrow> string \<Rightarrow> string \<Rightarrow> http_effect list result" where
  "handleHTTPcgi S cwd request query =
     (if \<not> exists_file S cwd request then then_reply [] (sendHTTPmessage 404 ERROR_404 request)
      else if \<not> tmp_exists S then then_reply [] (sendHTTPmessage 500 ''cannot find tmp directory'' request)
      else case tmp_file S of
             None \<Rightarrow> then_reply [] (sendHTTPmessage 500 ''cannot create temp file'' request)
           | Some tempfile \<Rightarrow>
               let command = ''./'' @ [CHR 0x22] @ request @ [CHR 0x22] @ '' > '' @ [CHR 0x22] @ tempfile @ [CHR 0x22]
               in if \<not> can_pipe S then then_reply [] (sendHTTPmessage 500 ''failed creating pipe'' request)
                  else then_reply [Run_cgi cwd request command query]
                         (case cgi_output S cwd command query of
                            None \<Rightarrow> sendHTTPmessage 500 ''cannot read output of'' tempfile
                          | Some text \<Rightarrow> sendHTTPpage text None))"

text \<open>\<^verbatim>\<open>trim\<close> has no end for a blank string.\<close>

definition trim :: "string \<Rightarrow> string result" where
  "trim s = (let t = dropWhile (\<lambda>c. sbyte c \<le> 32) s in if t = [] then Inl C_UNDEFINED else Inr t)"

record header =
  content_size :: int
  pragmaFlag :: bool
  environment :: "(string \<times> string) list"

definition setenv :: "string \<Rightarrow> string \<Rightarrow> header \<Rightarrow> header" where
  "setenv name v h = h\<lparr>environment := environment h @ [(name, v)]\<rparr>"

text \<open>One of the lines that set a variable of the environment.\<close>

definition header_variable :: "string \<Rightarrow> string \<times> string \<Rightarrow> header result \<Rightarrow> header result" where
  "header_variable line f r =
     (case r of
        Inl e \<Rightarrow> Inl e
      | Inr h \<Rightarrow>
          if starts_nocase line (fst f)
          then (case trim (drop (length (fst f)) line) of Inl e \<Rightarrow> Inl e | Inr v \<Rightarrow> Inr (setenv (snd f) v h))
          else Inr h)"

definition header_line :: "string \<Rightarrow> header \<Rightarrow> header result" where
  "header_line line h =
     (let h1 = (if starts_nocase line ''content-length:''
                then let n = parseValue (drop 15 line)
                     in setenv ''CONTENT_LENGTH'' (take 15 (print_int n)) (h\<lparr>content_size := n\<rparr>)
                else h);
          h2 = (if starts_nocase line ''pragma: append'' then h1\<lparr>pragmaFlag := True\<rparr> else h1)
      in fold (header_variable line)
           [(''content-type:'', ''CONTENT_TYPE''), (''Host:'', ''HTTP_HOST''), (''User-Agent:'', ''HTTP_USER_AGENT''),
            (''Cookie:'', ''HTTP_COOKIE''), (''Authorization:'', ''HTTP_AUTHORIZATION'')] (Inr h2))"

fun header_loop :: "string list \<Rightarrow> header \<Rightarrow> header result" where
  "header_loop [] h = Inr h"
| "header_loop (line # ls) h =
     (if line = crlf \<or> line = [CHR 0x0A] then Inr h
      else case header_line (trim_url line) h of Inl e \<Rightarrow> Inl e | Inr h' \<Rightarrow> header_loop ls h')"

definition readHeader :: "string list \<Rightarrow> header result" where
  "readHeader ls =
     header_loop ls \<lparr>content_size = 0, pragmaFlag = False,
       environment = [(''HTTP_HOST'', []), (''HTTP_USER_AGENT'', []), (''HTTP_COOKIE'', []), (''HTTP_AUTHORIZATION'', [])]\<rparr>"

text \<open>Reading \<open>n\<close> bytes: the data, and whether all of it came.\<close>

definition MAX_BUFF :: int where
  "MAX_BUFF = 1024"

fun readPayLoad :: "int \<Rightarrow> string list \<Rightarrow> string \<times> bool" where
  "readPayLoad n [] = ([], \<not> n > 0)"
| "readPayLoad n (r # rs) =
     (if n > 0
      then let bytes = take (nat (if n > MAX_BUFF then MAX_BUFF else n)) r
           in if bytes = [] then ([], False)
              else let (data, ok) = readPayLoad (n - int (length bytes)) rs in (bytes @ data, ok)
      else ([], True))"

text \<open>The switch over the request type, in the directory \<open>cwd\<close>.\<close>

definition safe_mode :: string where
  "safe_mode = ''Server in safe mode''"

fun serve :: "server \<Rightarrow> string \<Rightarrow> string \<Rightarrow> string \<Rightarrow> string \<Rightarrow> header \<Rightarrow> http_type \<Rightarrow> http_effect list result" where
  "serve S cwd mem request query h HTTP_GET =
     (if endsWith mem request ''.cgi'' then handleHTTPcgi S cwd request query
      else then_reply [Read_file cwd request]
             (case file_data S cwd request of
                None \<Rightarrow> sendHTTPmessage 404 ERROR_404 request
              | Some text \<Rightarrow> sendHTTPpage text (Some (getMediaType mem request))))"
| "serve S cwd mem request query h HTTP_HEAD =
     (if endsWith mem request ''.cgi'' then handleHTTPcgi S cwd request query
      else then_reply [File_size cwd request]
             (sendHTTPpage (take 1022 (''Content-length: '' @ print_int (file_length S cwd request) @ crlf @
                ''Content-type: '' @ getMediaType mem request @ crlf @ crlf)) None))"
| "serve S cwd mem request query h HTTP_DELETE =
     (if httpSafe S then then_reply [] (sendHTTPpage safe_mode (Some MEDIA_TEXT))
      else then_reply [Unlink_file cwd request]
             (if can_unlink S cwd request then sendHTTPpage ''File deleted'' (Some MEDIA_TEXT)
              else sendHTTPmessage 500 ''Could not delete'' request))"
| "serve S cwd mem request query h HTTP_POST =
     (if content_size h = 0 then then_reply [] (sendHTTPmessage 411 ERROR_411 request)
      else let (data, ok) = readPayLoad (content_size h) (payload S)
           in if \<not> ok then then_reply [] (sendHTTPmessage 500 ''Problem reading data'' request)
              else handleHTTPcgi S cwd request data)"
| "serve S cwd mem request query h HTTP_PUT =
     (if httpSafe S then then_reply [] (sendHTTPpage safe_mode (Some request))
      else if content_size h = 0 then then_reply [] (sendHTTPmessage 411 ERROR_411 request)
      else let mode = (if pragmaFlag h then ''a'' else ''w'')
           in if \<not> can_open S cwd request
              then then_reply [Write_file cwd request mode []] (sendHTTPmessage 500 ''cannot create file'' request)
              else let (data, ok) = readPayLoad (content_size h) (payload S)
                   in if data \<noteq> [] \<and> \<not> can_write S
                      then then_reply [Write_file cwd request mode []] (sendHTTPmessage 500 ''Cannot create file'' request)
                      else if \<not> ok
                      then then_reply [Write_file cwd request mode data] (sendHTTPmessage 500 ''Problem reading data'' request)
                      else then_reply [Write_file cwd request mode data]
                             (sendHTTPpage (take 254 (print_int (int (length data)) @ '' bytes transferred for '' @ request @ crlf))
                                (Some MEDIA_TEXT)))"

text \<open>The canonical directory is the start-up directory or lies below it.\<close>

definition inside :: "string \<Rightarrow> string \<Rightarrow> bool" where
  "inside startup d \<longleftrightarrow>
     take (length startup) d = startup \<and>
     (length d = length startup \<or> d ! length startup = CHR ''/'' \<or> d ! length startup = CHR 0x5C)"

definition forbidden :: "string \<Rightarrow> http_effect list result" where
  "forbidden request = then_reply [] (sendHTTPmessage 403 ''Forbidden'' request)"

text \<open>The name left after changing the directory.\<close>

definition serve_name :: "server \<Rightarrow> string \<Rightarrow> string \<Rightarrow> string \<Rightarrow> string \<Rightarrow> http_type \<Rightarrow> http_effect list result" where
  "serve_name S cwd mem request query type =
     (if request = ''..'' \<or> CHR ''/'' \<in> set request \<or> CHR 0x5C \<in> set request then forbidden request
      else let request = (if request = [] then (if exists_file S cwd ''index.cgi'' then ''index.cgi'' else ''index.html'')
                          else request)
           in case readHeader (header_lines S) of
                Inl e \<Rightarrow> Inl e
              | Inr h \<Rightarrow> serve S cwd mem request query h type)"

text \<open>The path is split at its last slash.\<close>

definition base_dir :: "string \<Rightarrow> string" where
  "base_dir request = rev (tl (dropWhile (\<lambda>c. c \<noteq> CHR ''/'') (rev request)))"

definition base_name :: "string \<Rightarrow> string" where
  "base_name request = rev (takeWhile (\<lambda>c. c \<noteq> CHR ''/'') (rev request))"

definition serve_path :: "server \<Rightarrow> string \<Rightarrow> string \<Rightarrow> string \<Rightarrow> http_type \<Rightarrow> http_effect list result" where
  "serve_path S mem request query type =
     (if CHR ''/'' \<in> set request then
        let dir = base_dir request
        in case enter S dir of
             None \<Rightarrow> then_reply [] (sendHTTPmessage 404 ERROR_404 dir)
           | Some cwd \<Rightarrow>
               if \<not> resolves S cwd then then_reply [] (sendHTTPmessage 404 ERROR_404 dir)
               else if \<not> inside (startupDir S) cwd then forbidden dir
               else serve_name S cwd (mem @ dir @ [CHR 0x00]) (base_name request) query type
      else serve_name S (startupDir S) mem request query type)"

definition is_alpha :: "char \<Rightarrow> bool" where
  "is_alpha c \<longleftrightarrow> (byte CHR ''A'' \<le> byte c \<and> byte c \<le> byte CHR ''Z'') \<or> (byte CHR ''a'' \<le> byte c \<and> byte c \<le> byte CHR ''z'')"

fun strstr :: "string \<Rightarrow> string \<Rightarrow> bool" where
  "strstr [] t \<longleftrightarrow> t = []"
| "strstr (c # s) t \<longleftrightarrow> take (length t) (c # s) = t \<or> strstr s t"

definition traversal :: "string \<Rightarrow> string \<Rightarrow> bool" where
  "traversal mem request \<longleftrightarrow>
     request = ''..'' \<or> take 3 request = ''../'' \<or> strstr request ''/../'' \<or> endsWith mem request ''/..''"

definition normalize :: "string \<Rightarrow> string" where
  "normalize s = map (\<lambda>c. if c = CHR 0x5C then CHR ''/'' else c) s"

definition executeHTTPrequest :: "server \<Rightarrow> string \<Rightarrow> http_type \<Rightarrow> http_effect list result" where
  "executeHTTPrequest S line type =
     (if \<not> root_ok S then Inl ERR_IO_ERROR
      else let target = takeWhile (\<lambda>c. 32 < sbyte c) line;
               query = after_char CHR ''?'' target;
               decoded = normalize (cstr (url_decode (until_char CHR ''?'' target)));
               mem = below S @ takeWhile (\<lambda>c. c = CHR ''/'') decoded;
               request = dropWhile (\<lambda>c. c = CHR ''/'') decoded
           in if 2 \<le> length request \<and> is_alpha (request ! 0) \<and> request ! 1 = CHR '':'' then forbidden request
              else if traversal mem request then forbidden request
              else serve_path S mem request query type)"

section \<open>What a request can reach\<close>

text \<open>The directory and the file an effect touches.\<close>

fun touches :: "http_effect \<Rightarrow> (string \<times> string) option" where
  "touches (Run_cgi d f command query) = Some (d, f)"
| "touches (Read_file d f) = Some (d, f)"
| "touches (File_size d f) = Some (d, f)"
| "touches (Unlink_file d f) = Some (d, f)"
| "touches (Write_file d f mode data) = Some (d, f)"
| "touches (Reply r) = None"

fun changes_files :: "http_effect \<Rightarrow> bool" where
  "changes_files (Unlink_file d f) = True"
| "changes_files (Write_file d f mode data) = True"
| "changes_files e = False"

fun is_reply :: "http_effect \<Rightarrow> bool" where
  "is_reply (Reply r) = True"
| "is_reply e = False"

text \<open>A handler answers once, at the end, touches only the file \<open>f\<close> of the directory \<open>d\<close>, and
  changes it only when the server is not in safe mode.\<close>

definition well_behaved :: "server \<Rightarrow> string \<Rightarrow> string \<Rightarrow> http_effect list \<Rightarrow> bool" where
  "well_behaved S d f es \<longleftrightarrow>
     es \<noteq> [] \<and> is_reply (last es) \<and>
     (\<forall>e\<in>set (butlast es). \<not> is_reply e) \<and>
     (\<forall>e\<in>set es. touches e \<in> {None, Some (d, f)} \<and> (httpSafe S \<longrightarrow> \<not> changes_files e))"

lemma reply_page: "sendHTTPpage t m = Inr e \<Longrightarrow> is_reply e"
  by (auto simp: sendHTTPpage_def Let_def split: if_splits)

lemma reply_message: "sendHTTPmessage n desc req = Inr e \<Longrightarrow> is_reply e"
  unfolding sendHTTPmessage_def by (rule reply_page)

lemma touches_reply: "is_reply e \<Longrightarrow> touches e = None \<and> \<not> changes_files e"
  by (cases e) auto

lemma well_behaved_reply:
  assumes "then_reply es r = Inr fs" "\<And>e. r = Inr e \<Longrightarrow> is_reply e"
    and "\<forall>e\<in>set es. touches e = Some (d, f) \<and> (httpSafe S \<longrightarrow> \<not> changes_files e)"
  shows "well_behaved S d f fs"
proof -
  obtain e where e: "r = Inr e" "fs = es @ [e]" using assms(1) by (auto simp: then_reply_def split: sum.splits)
  moreover have "\<not> is_reply x" if "touches x = Some (d, f)" for x using that by (cases x) auto
  ultimately show ?thesis using assms(2,3) touches_reply [of e] by (auto simp: well_behaved_def)
qed

lemma cgi_well_behaved: "handleHTTPcgi S d f query = Inr es \<Longrightarrow> well_behaved S d f es"
  by (auto simp: handleHTTPcgi_def Let_def split: if_splits option.splits
      intro: well_behaved_reply reply_page reply_message elim!: well_behaved_reply)

lemma serve_well_behaved: "serve S d mem f query h type = Inr es \<Longrightarrow> well_behaved S d f es"
  by (cases type)
     (auto simp: Let_def split: if_splits option.splits prod.splits
      intro: well_behaved_reply cgi_well_behaved reply_page reply_message elim!: well_behaved_reply)

definition file_name :: "string \<Rightarrow> bool" where
  "file_name f \<longleftrightarrow> f \<noteq> [] \<and> f \<noteq> ''..'' \<and> CHR ''/'' \<notin> set f \<and> CHR 0x5C \<notin> set f"

lemma inside_self: "inside d d"
  by (simp add: inside_def)

lemma forbidden_well_behaved: "forbidden r = Inr es \<Longrightarrow> well_behaved S d f es"
  unfolding forbidden_def by (erule well_behaved_reply) (auto intro: reply_message)

lemma serve_name_well_behaved:
  assumes "serve_name S d mem request query type = Inr es"
  shows "\<exists>f. file_name f \<and> well_behaved S d f es"
proof (cases "request = ''..'' \<or> CHR ''/'' \<in> set request \<or> CHR 0x5C \<in> set request")
  case True
  then have "well_behaved S d ''index.html'' es" using assms forbidden_well_behaved by (simp add: serve_name_def)
  then show ?thesis by (intro exI [of _ "''index.html''"]) (simp add: file_name_def)
next
  case False
  define f where "f = (if request = [] then (if exists_file S d ''index.cgi'' then ''index.cgi'' else ''index.html'') else request)"
  then have "file_name f" using False by (auto simp: file_name_def)
  moreover have "well_behaved S d f es"
  proof -
    obtain h where "serve S d mem f query h type = Inr es"
      using assms False by (auto simp: serve_name_def Let_def f_def split: sum.splits)
    then show ?thesis by (rule serve_well_behaved)
  qed
  ultimately show ?thesis by blast
qed


section \<open>Every request is answered\<close>

text \<open>A status line that fits its buffer.\<close>

definition short_status :: "string \<Rightarrow> bool" where
  "short_status t \<longleftrightarrow> take 7 t = ''Status:'' \<longrightarrow> length (takeWhile (\<lambda>c. 32 \<le> sbyte c) t) < 135"

lemma page_returns: "short_status t \<Longrightarrow> \<exists>r. sendHTTPpage t m = Inr (Reply r)"
  by (auto simp: sendHTTPpage_def short_status_def Let_def)

definition printable :: "string \<Rightarrow> bool" where
  "printable s \<longleftrightarrow> list_all (\<lambda>c. 32 \<le> sbyte c) s"

lemma message_reply:
  assumes "printable (print_int n)" "length (print_int n) \<le> 3" "printable desc" "length desc \<le> 100"
  shows "\<exists>m t. sendHTTPmessage n desc req = Inr (Reply \<lparr>status = print_int n @ '' '' @ desc, media = m, content = t\<rparr>)"
proof -
  let ?s = "''Status:'' @ print_int n @ '' '' @ desc"
  let ?t = "''ERR:'' @ print_int n @ '' '' @ desc @ '': '' @ req @ crlf"
  define u where "u = take (254 - length ?s) (CHR 0x0A # ?t)"
  have msg: "take 255 (''Status:'' @ print_int n @ '' '' @ desc @ crlf @ ?t) = ?s @ CHR 0x0D # u"
    using assms unfolding u_def crlf_def by (simp add: take_append take_Cons' numeral_eq_Suc)
  have "32 \<le> sbyte c" if "c \<in> set ?s" for c
    using that assms(1,3) by (auto simp: printable_def list_all_iff sbyte_def byte_def)
  then have "takeWhile (\<lambda>c. 32 \<le> sbyte c) (?s @ CHR 0x0D # u) = ?s"
    by (subst takeWhile_append2) (auto simp: sbyte_def byte_def)
  then show ?thesis
    using assms unfolding sendHTTPmessage_def msg sendHTTPpage_def Let_def by simp
qed

definition answered :: "http_effect list result \<Rightarrow> bool" where
  "answered r \<longleftrightarrow> (\<exists>es x. r = Inr (es @ [Reply x]))"

lemma status_codes:
  "print_int 403 = ''403''" "print_int 404 = ''404''" "print_int 411 = ''411''" "print_int 500 = ''500''"
  by code_simp+

definition messages :: "(int \<times> string) list" where
  "messages =
     [(403, ''Forbidden''), (404, ERROR_404), (411, ERROR_411), (500, ''cannot find tmp directory''),
      (500, ''cannot create temp file''), (500, ''failed creating pipe''), (500, ''cannot read output of''),
      (500, ''Could not delete''), (500, ''Problem reading data''), (500, ''cannot create file''),
      (500, ''Cannot create file'')]"

lemma message_returns:
  assumes "(n, desc) \<in> set messages"
  shows "\<exists>r. sendHTTPmessage n desc req = Inr (Reply r)"
proof -
  have "\<forall>(n, desc)\<in>set messages. printable (print_int n) \<and> length (print_int n) \<le> 3 \<and> printable desc \<and> length desc \<le> 100"
    by code_simp
  then show ?thesis using assms message_reply [of n desc req] by blast
qed

lemma answered_message: "(n, desc) \<in> set messages \<Longrightarrow> answered (then_reply es (sendHTTPmessage n desc req))"
  using message_returns [of n desc req] by (auto simp: answered_def then_reply_def)

lemma answered_page: "short_status t \<Longrightarrow> answered (then_reply es (sendHTTPpage t m))"
  using page_returns [of t m] by (auto simp: answered_def then_reply_def)

lemmas answered_messages = answered_message [of 403 "''Forbidden''"] answered_message [of 404 ERROR_404]
  answered_message [of 411 ERROR_411] answered_message [of 500 "''cannot find tmp directory''"]
  answered_message [of 500 "''cannot create temp file''"] answered_message [of 500 "''failed creating pipe''"]
  answered_message [of 500 "''cannot read output of''"] answered_message [of 500 "''Could not delete''"]
  answered_message [of 500 "''Problem reading data''"] answered_message [of 500 "''cannot create file''"]
  answered_message [of 500 "''Cannot create file''"]

text \<open>The pages the server writes itself start with no status line.\<close>

lemma hd_print_nat: "\<exists>c s. print_int (int k) = c # s \<and> c \<noteq> CHR ''S''"
proof -
  have digit: "char_of (48 + d) \<noteq> CHR ''S''" if "d < 10" for d :: nat
  proof -
    have "\<forall>d\<in>{0..<10::nat}. char_of (48 + d) \<noteq> CHR ''S''" by code_simp
    then show ?thesis using that by auto
  qed
  have "\<exists>c s. digits k = c # s \<and> c \<noteq> CHR ''S''"
  proof (induction k rule: digits.induct)
    case (1 n)
    then show ?case using digit [of n] by (cases "n < 10") (auto simp: digits.simps [of n])
  qed
  then show ?thesis by (simp add: print_int_def)
qed

lemma own_pages:
  "short_status safe_mode" "short_status ''File deleted''" "short_status (take 1022 (''Content-length: '' @ s))"
  "short_status (take 254 (print_int (int k) @ s))"
proof -
  obtain c t where "print_int (int k) = c # t" "c \<noteq> CHR ''S''" using hd_print_nat by blast
  then show "short_status (take 254 (print_int (int k) @ s))" by (simp add: short_status_def take_Cons')
qed (simp_all add: short_status_def safe_mode_def take_Cons')

lemma own_page_0: "short_status (take 254 (print_int 0 @ s))"
  using own_pages(4) [of 0 s] by simp

text \<open>Files and scripts that start with a status line keep it short.\<close>

definition short_contents :: "server \<Rightarrow> bool" where
  "short_contents S \<longleftrightarrow>
     (\<forall>d f t. file_data S d f = Some t \<longrightarrow> short_status t) \<and>
     (\<forall>d c q t. cgi_output S d c q = Some t \<longrightarrow> short_status t)"

lemma cgi_answered: "short_contents S \<Longrightarrow> answered (handleHTTPcgi S d f query)"
  unfolding handleHTTPcgi_def Let_def short_contents_def
  by (auto simp: messages_def split: option.split intro!: answered_messages answered_page)

lemma serve_answered: "short_contents S \<Longrightarrow> answered (serve S d mem f query h type)"
proof (cases type)
  case HTTP_GET
  moreover assume "short_contents S"
  ultimately show ?thesis using cgi_answered
    by (auto simp: messages_def short_contents_def split: option.split intro!: answered_messages answered_page)
qed (auto simp: messages_def Let_def simp del: take_append append_Cons take_Cons_numeral split: prod.split
       intro!: answered_messages answered_page cgi_answered own_pages own_page_0)

lemma forbidden_answered: "answered (forbidden r)"
  by (auto simp: forbidden_def messages_def intro!: answered_messages)


text \<open>A server on a small directory tree, for the witnesses.\<close>

definition small_server :: server where
  "small_server =
     \<lparr>startupDir = ''/srv'', httpSafe = True, root_ok = True,
      enter = (\<lambda>d. if d = ''pub'' then Some ''/srv/pub'' else if d = ''link'' then Some ''/etc'' else None),
      resolves = (\<lambda>d. True), exists_file = (\<lambda>d f. False),
      file_data = (\<lambda>d f. if d = ''/srv/pub'' \<and> f = ''a.html'' then Some ''<p>'' else None),
      file_length = (\<lambda>d f. 0), can_unlink = (\<lambda>d f. True), can_open = (\<lambda>d f. True), can_write = True,
      tmp_exists = True, tmp_file = None, can_pipe = True, cgi_output = (\<lambda>d c q. None),
      header_lines = [''Host: x'', crlf], payload = [], below = [CHR 0x00, CHR 0x00, CHR 0x00]\<rparr>"

lemma small_server_header:
  "readHeader (header_lines small_server) =
      Inr \<lparr>content_size = 0, pragmaFlag = False,
           environment = [(''HTTP_HOST'', []), (''HTTP_USER_AGENT'', []), (''HTTP_COOKIE'', []), (''HTTP_AUTHORIZATION'', []),
                          (''HTTP_HOST'', ''x'')]\<rparr>"
  by code_simp

lemma small_server_get:
  "executeHTTPrequest small_server ''pub/a%2Ehtml?q HTTP/1.0'' HTTP_GET =
     Inr [Read_file ''/srv/pub'' ''a.html'', Reply \<lparr>status = ''200 OK'', media = Some ''text/html'', content = ''<p>''\<rparr>]"
proof -
  have target: "takeWhile (\<lambda>c. 32 < sbyte c) ''pub/a%2Ehtml?q HTTP/1.0'' = ''pub/a%2Ehtml?q''" by (simp add: sbyte_def byte_def)
  have decoded: "normalize (cstr (url_decode (until_char CHR ''?'' ''pub/a%2Ehtml?q''))) = ''pub/a.html''" by code_simp
  have free: "\<not> traversal [CHR 0x00, CHR 0x00, CHR 0x00] ''pub/a.html''" by code_simp
  have split: "base_dir ''pub/a.html'' = ''pub''" "base_name ''pub/a.html'' = ''a.html''" by code_simp+
  have inside: "inside ''/srv'' ''/srv/pub''" by code_simp
  have type: "getMediaType [CHR 0x00, CHR 0x00, CHR 0x00, CHR ''p'', CHR ''u'', CHR ''b'', CHR 0x00] ''a.html'' = ''text/html''"
    by code_simp
  have cgi: "\<not> endsWith [CHR 0x00, CHR 0x00, CHR 0x00, CHR ''p'', CHR ''u'', CHR ''b'', CHR 0x00] ''a.html'' ''.cgi''"
    by code_simp
  have server: "root_ok small_server" "below small_server = [CHR 0x00, CHR 0x00, CHR 0x00]" "startupDir small_server = ''/srv''"
    "enter small_server ''pub'' = Some ''/srv/pub''" "resolves small_server ''/srv/pub''"
    "file_data small_server ''/srv/pub'' ''a.html'' = Some ''<p>''"
    by (simp_all add: small_server_def)
  have name: "serve_name small_server ''/srv/pub'' [CHR 0x00, CHR 0x00, CHR 0x00, CHR ''p'', CHR ''u'', CHR ''b'', CHR 0x00] ''a.html'' ''q'' HTTP_GET =
      Inr [Read_file ''/srv/pub'' ''a.html'', Reply \<lparr>status = ''200 OK'', media = Some ''text/html'', content = ''<p>''\<rparr>]"
    unfolding serve_name_def Let_def
    by (simp add: small_server_header server type cgi then_reply_def sendHTTPpage_def)
  have path: "serve_path small_server [CHR 0x00, CHR 0x00, CHR 0x00] ''pub/a.html'' ''q'' HTTP_GET =
      serve_name small_server ''/srv/pub'' [CHR 0x00, CHR 0x00, CHR 0x00, CHR ''p'', CHR ''u'', CHR ''b'', CHR 0x00] ''a.html'' ''q'' HTTP_GET"
    unfolding serve_path_def Let_def split server by (simp add: server inside)
  have query: "after_char CHR ''?'' ''pub/a%2Ehtml?q'' = ''q''" by code_simp
  show ?thesis
    unfolding executeHTTPrequest_def Let_def target decoded query server by (simp add: server free path name)
qed



section \<open>Parsing what was composed\<close>

text \<open>The characters of a host name, and a path that ends visibly.\<close>

definition host_char :: "char \<Rightarrow> bool" where
  "host_char c \<longleftrightarrow> c \<notin> set '':/]['' \<and> 32 < sbyte c"

lemma digits_value:
  "foldl (\<lambda>n c. 10 * n + (byte c - 48)) 0 (digits n) = int n \<and> list_all is_digit (digits n) \<and> digits n \<noteq> []"
proof (induction n rule: digits.induct)
  case (1 n)
  have digit: "byte (char_of (48 + d)) = 48 + int d" if "d < 10" for d :: nat
  proof -
    have "byte (char_of (48 + d)) = int (of_char (char_of (48 + d)))" unfolding byte_def by (simp only: of_nat_of_char)
    then show ?thesis using that by (simp only: of_char_of) simp
  qed
  have is_digit: "is_digit (char_of (48 + d))" if "d < 10" for d :: nat
    using digit [OF that] that by (simp add: is_digit_def byte_def [of "CHR ''0''"] byte_def [of "CHR ''9''"])
  show ?case
  proof (cases "n < 10")
    case True
    then show ?thesis using digit [of n] is_digit [of n] by (simp add: digits.simps [of n])
  next
    case False
    have "int n = 10 * int (n div 10) + int (n mod 10)" by (metis mult_div_mod_eq of_nat_add of_nat_mult of_nat_numeral)
    then show ?thesis
      using False 1 digit [of "n mod 10"] is_digit [of "n mod 10"] by (simp add: digits.simps [of n])
  qed
qed

lemma takeWhile_digits: "list_all P ds \<Longrightarrow> r = [] \<or> \<not> P (hd r) \<Longrightarrow> takeWhile P (ds @ r) = ds"
  by (induction ds) (auto simp: takeWhile_eq_Nil_iff)

lemma atoi_digits:
  assumes "n < 2 ^ 31" "r = [] \<or> \<not> is_digit (hd r)"
  shows "atoi (digits n @ r) = int n"
proof -
  have d: "list_all is_digit (digits n)" "digits n \<noteq> []" using digits_value [of n] by auto
  then obtain c t where ct: "digits n = c # t" "is_digit c" by (cases "digits n") auto
  have plain: "\<not> is_space c" "c \<noteq> CHR ''-''" "c \<noteq> CHR ''+''"
    using ct(2) by (auto simp: is_digit_def is_space_def byte_def [of "CHR ''0''"] byte_def [of "CHR ''9''"]
        byte_def [of "CHR ''-''"] byte_def [of "CHR ''+''"])
  have "takeWhile is_digit (digits n @ r) = digits n" by (rule takeWhile_digits) (use d assms in auto)
  then have "atol (digits n @ r) = int n"
    using plain ct digits_value [of n] assms(1) by (auto simp: atol_def Let_def)
  then show ?thesis using assms(1) by (simp add: atoi_def signed_take_bit_int_eq_self)
qed

lemma trim_url_visible: "s \<noteq> [] \<Longrightarrow> 32 < sbyte (last s) \<Longrightarrow> trim_url s = s"
proof (cases s)
  case (Cons c t)
  moreover assume "32 < sbyte (last s)"
  ultimately show ?thesis by (cases t rule: rev_cases) (auto simp: trim_url_def)
qed simp

lemma until_after:
  assumes "c \<notin> set h"
  shows "until_char c (h @ c # r) = h" "after_char c (h @ c # r) = r" "until_char c h = h" "after_char c h = []"
    "strchr (h @ c # r) c = Some (length h)" "strchr h c = None"
proof -
  have "takeWhile (\<lambda>d. d \<noteq> c) (h @ c # r) = h" "dropWhile (\<lambda>d. d \<noteq> c) (h @ c # r) = c # r"
    "takeWhile (\<lambda>d. d \<noteq> c) h = h" "dropWhile (\<lambda>d. d \<noteq> c) h = []"
    using assms by (induction h) auto
  note facts = this
  show "until_char c (h @ c # r) = h" "after_char c (h @ c # r) = r" "until_char c h = h" "after_char c h = []"
    "strchr (h @ c # r) c = Some (length h)" "strchr h c = None"
    unfolding until_char_def after_char_def strchr_def by (simp_all only: facts list.sel assms) simp_all
qed

lemma parseUrl_scheme:
  assumes "map toupper scheme = map toupper proto @ ''://''" "proto \<in> {''http'', ''https''}"
    and "r \<noteq> []" "32 < sbyte (last r)"
  shows "parseUrl inet6 with_path bufflen (scheme @ r) = parse_host inet6 with_path bufflen proto r"
proof -
  have trim: "trim_url (scheme @ r) = scheme @ r" by (rule trim_url_visible) (use assms in auto)
  have len: "length scheme = length proto + 3" using arg_cong [OF assms(1), of length] by simp
  have start: "starts_nocase (scheme @ r) t \<longleftrightarrow> take (length t) (map toupper proto @ ''://'') = map toupper t"
    if "length t \<le> length scheme" for t
    using that by (simp add: starts_nocase_def take_map [symmetric] assms(1))
  show ?thesis
  proof (cases "proto = ''http''")
    case True
    then show ?thesis using trim start [of "''http://''"] len
      by (simp add: parseUrl_def toupper_def byte_def)
  next
    case False
    then have "proto = ''https''" using assms(2) by simp
    then show ?thesis using trim start [of "''http://''"] start [of "''https://''"] len
      by (simp add: parseUrl_def toupper_def byte_def)
  qed
qed

lemma takeWhile_index:
  "c \<in> set v \<or> c = d \<Longrightarrow> c \<notin> set u \<Longrightarrow> length u \<le> length (takeWhile (\<lambda>x. x \<noteq> c) (u @ d # v))"
  by (induction u) auto

lemma char_before_slash:
  assumes "d \<notin> set u" "c \<notin> set u" "c \<noteq> d"
  shows "char_before c d (u @ c # v)" "\<not> char_before c d (u @ d # v)" "\<not> char_before c d u"
proof -
  have "strchr (u @ c # v) c = Some (length u)" using assms by (intro until_after)
  moreover have "d \<in> set v \<Longrightarrow> length u < length (takeWhile (\<lambda>x. x \<noteq> d) (u @ c # v))"
    using assms(1,3) by (induction u) auto
  ultimately show "char_before c d (u @ c # v)" using assms by (auto simp: char_before_def strchr_def)
  have "strchr (u @ d # v) d = Some (length u)" using assms by (intro until_after)
  then show "\<not> char_before c d (u @ d # v)"
    using assms takeWhile_index [of c v d u] by (auto simp: char_before_def strchr_def)
  show "\<not> char_before c d u" using assms by (simp add: char_before_def until_after)
qed

lemma digits_no:
  "\<not> is_digit c \<Longrightarrow> c \<notin> set (digits n)"
  using digits_value [of n] by (auto simp: list_all_iff)

lemma no_digit: "\<not> is_digit CHR '':''" "\<not> is_digit CHR ''/''" "\<not> is_digit CHR '']''"
  by (simp_all add: is_digit_def byte_def)

lemma parse_host_parts:
  assumes h: "list_all host_char h" "h \<noteq> []" and len: "length (h @ r) < bufflen"
  shows "r = CHR '':'' # digits p @ CHR ''/'' # q \<Longrightarrow> p < 2 ^ 16 \<Longrightarrow>
     parse_host inet6 True bufflen proto (h @ r) = Inr (Some \<lparr>protocol = proto, host = h, port = int p, path = q\<rparr>)"
    and "r = CHR ''/'' # q \<Longrightarrow>
     parse_host inet6 True bufflen proto (h @ r) = Inr (Some \<lparr>protocol = proto, host = h, port = 80, path = q\<rparr>)"
    and "r = [] \<Longrightarrow>
     parse_host inet6 True bufflen proto (h @ r) = Inr (Some \<lparr>protocol = proto, host = h, port = 80, path = []\<rparr>)"
proof -
  have no: "CHR '':'' \<notin> set h" "CHR ''/'' \<notin> set h" "CHR '']'' \<notin> set h" "hd h \<noteq> CHR ''[''"
    using h by (auto simp: list_all_iff host_char_def)
  have host: "parse_host inet6 True bufflen proto (h @ r) =
      (let (name, n) = host_port inet6 (h @ r)
       in Inr (Some \<lparr>protocol = proto, host = until_char CHR ''/'' name, port = n, path = after_char CHR ''/'' (h @ r)\<rparr>))"
    using no(4) h(2) len by (simp add: parse_host_def Let_def)
  show "parse_host inet6 True bufflen proto (h @ r) = Inr (Some \<lparr>protocol = proto, host = h, port = int p, path = q\<rparr>)"
    if r: "r = CHR '':'' # digits p @ CHR ''/'' # q" and p: "p < 2 ^ 16"
  proof -
    let ?u = "h @ CHR '':'' # digits p"
    have u: "CHR ''/'' \<notin> set ?u" "CHR '']'' \<notin> set ?u" using no digits_no [OF no_digit(2)] digits_no [OF no_digit(3)] by auto
    have "\<not> char_before CHR '']'' CHR ''/'' (?u @ CHR ''/'' # q)" by (rule char_before_slash) (use u in auto)
    moreover have "char_before CHR '':'' CHR ''/'' (h @ CHR '':'' # digits p @ CHR ''/'' # q)"
      by (rule char_before_slash) (use no in auto)
    moreover have "atoi (digits p @ CHR ''/'' # q) = int p" by (rule atoi_digits) (use p no_digit in auto)
    moreover have "after_char CHR ''/'' (?u @ CHR ''/'' # q) = q" by (rule until_after) (use u in auto)
    ultimately show ?thesis using no unfolding r host [unfolded r] by (simp add: host_port_def until_after)
  qed
  show "parse_host inet6 True bufflen proto (h @ r) = Inr (Some \<lparr>protocol = proto, host = h, port = 80, path = q\<rparr>)"
    if "r = CHR ''/'' # q"
    using no char_before_slash(2) [of "CHR ''/''" h _ q] unfolding that host [unfolded that] by (simp add: host_port_def until_after)
  show "parse_host inet6 True bufflen proto (h @ r) = Inr (Some \<lparr>protocol = proto, host = h, port = 80, path = []\<rparr>)"
    if "r = []"
    using no char_before_slash(3) [of "CHR ''/''" h] unfolding that host [unfolded that] by (simp add: host_port_def until_after)
qed

text \<open>(C38) A URL composed of a scheme in either case, a host name, an optional port and a path is
  taken apart into these parts, for both address families.\<close>

theorem parseUrl_composed:
  assumes "map toupper scheme = map toupper proto @ ''://''" "proto \<in> {''http'', ''https''}"
    and "list_all host_char h" "h \<noteq> []" "p < 2 ^ 16" "32 < sbyte (last (CHR ''/'' # q))"
    and "length (h @ CHR '':'' # digits p @ CHR ''/'' # q) < bufflen"
  shows "parseUrl inet6 True bufflen (scheme @ h @ CHR '':'' # digits p @ CHR ''/'' # q) =
           Inr (Some \<lparr>protocol = proto, host = h, port = int p, path = q\<rparr>) \<and>
         parseUrl inet6 True bufflen (scheme @ h @ CHR ''/'' # q) =
           Inr (Some \<lparr>protocol = proto, host = h, port = 80, path = q\<rparr>) \<and>
         parseUrl inet6 True bufflen (scheme @ h) = Inr (Some \<lparr>protocol = proto, host = h, port = 80, path = []\<rparr>)"
proof -
  have last: "32 < sbyte (last h)" using assms(3,4) by (auto simp: list_all_iff host_char_def)
  show ?thesis
    using assms last parse_host_parts(3) [OF assms(3,4), of "[]" bufflen inet6 proto]
    by (simp add: parseUrl_scheme parse_host_parts)
qed

theorem parseUrl_composed_witness:
  "parseUrl False True 256 (''HTTP://'' @ ''newlisp.org'' @ CHR '':'' # digits 8080 @ CHR ''/'' # ''a:b'') =
     Inr (Some \<lparr>protocol = ''http'', host = ''newlisp.org'', port = 8080, path = ''a:b''\<rparr>)"
proof -
  have "length (digits 8080) = 4" by (simp add: digits.simps)
  moreover have "map toupper ''HTTP://'' = map toupper ''http'' @ ''://''" by code_simp
  moreover have "list_all host_char ''newlisp.org''" by (simp add: host_char_def sbyte_def byte_def)
  ultimately show ?thesis
    using parseUrl_composed [of "''HTTP://''" "''http''" "''newlisp.org''" 8080 "''a:b''" 256 False]
    by (simp add: sbyte_def byte_def)
qed

end
