(* ===== verification/NL_Utf8.thy ===== *)
theory NL_Utf8
  imports NL_Crypt
begin

text \<open>
UTF-8 (\<^verbatim>\<open>nl-utf8.c\<close>): the tables, the encoder \<^verbatim>\<open>wchar_utf8\<close>, the decoder
  (\<^verbatim>\<open>GETCHARINC\<close>, \<^verbatim>\<open>utf8_wchar\<close>), the functions on strings and the primitives
  \<^verbatim>\<open>unicode\<close>, \<^verbatim>\<open>utf8\<close>, \<^verbatim>\<open>utf8len\<close> and \<^verbatim>\<open>read-utf8\<close>. The locale
  \<open>prefix_code\<close> states what a client relies on: a decoder reads back one encoded value in
  front of any rest.
\<close>


section \<open>Prefix codes\<close>

locale prefix_code =
  fixes ok :: "'a \<Rightarrow> bool" and enc :: "'a \<Rightarrow> string" and dec :: "string \<Rightarrow> ('a \<times> string) result"
  assumes dec_enc: "ok x \<Longrightarrow> dec (enc x @ r) = Inr (x, r)"
      and enc_nonempty: "ok x \<Longrightarrow> enc x \<noteq> []"
begin

lemma prefix_free: "ok x \<Longrightarrow> ok y \<Longrightarrow> enc x @ r = enc y @ s \<Longrightarrow> x = y \<and> r = s"
  by (metis dec_enc prod.inject sum.inject(2))

lemma concat_inj:
  "list_all ok xs \<Longrightarrow> list_all ok ys \<Longrightarrow> concat (map enc xs) = concat (map enc ys) \<Longrightarrow> xs = ys"
proof (induction xs arbitrary: ys)
  case Nil
  then show ?case using enc_nonempty by (cases ys) auto
next
  case (Cons x xs)
  obtain y zs where ys: "ys = y # zs" using Cons.prems enc_nonempty by (cases ys) auto
  have "x = y \<and> concat (map enc xs) = concat (map enc zs)"
    by (rule prefix_free) (use Cons.prems ys in auto)
  then show ?case using Cons ys by auto
qed

end

section \<open>Definitions\<close>

unbundle bit_operations_syntax

text \<open>The breakpoints for the number of bytes of a character; indicator bits and data mask of its
  first byte, by the number of additional bytes; that number by the lower bits of the first
  byte.\<close>

definition utf8_table1 :: "int list" where
  "utf8_table1 = [0x7f, 0x7ff, 0xffff, 0x1fffff, 0x3ffffff, 0x7fffffff]"

definition utf8_table2 :: "int list" where
  "utf8_table2 = [0, 0xc0, 0xe0, 0xf0, 0xf8, 0xfc]"

definition utf8_table3 :: "int list" where
  "utf8_table3 = [0xff, 0x1f, 0x0f, 0x07, 0x03, 0x01]"

definition utf8_table4 :: "nat list" where
  "utf8_table4 = replicate 32 1 @ replicate 16 2 @ replicate 8 3 @ replicate 4 4 @ replicate 4 5"

text \<open>The additional bytes a first byte announces.\<close>

definition is_lead :: "int \<Rightarrow> bool" where
  "is_lead c \<longleftrightarrow> c AND 0xc0 = 0xc0"

definition gcaa :: "int \<Rightarrow> nat" where
  "gcaa c = utf8_table4 ! nat (c AND 0x3f)"

text \<open>A pointer into a string is the rest of its buffer, the terminating NUL included. Reading
  at the end of the buffer is \<open>C_UNDEFINED\<close>.\<close>

fun getcharinc_tail :: "nat \<Rightarrow> int \<Rightarrow> string \<Rightarrow> (int \<times> string) result" where
  "getcharinc_tail 0 c p = Inr (c, p)"
| "getcharinc_tail (Suc g) c [] = Inl C_UNDEFINED"
| "getcharinc_tail (Suc g) c (x # p) = getcharinc_tail g (c OR push_bit (6 * g) (byte x AND 0x3f)) p"

fun utf8_wchar :: "string \<Rightarrow> (int \<times> string) result" where
  "utf8_wchar [] = Inl C_UNDEFINED"
| "utf8_wchar (x # p) =
     (if is_lead (byte x)
      then getcharinc_tail (gcaa (byte x))
             (push_bit (6 * gcaa (byte x)) (byte x AND utf8_table3 ! gcaa (byte x))) p
      else Inr (byte x, p))"

fun extra_bytes :: "int \<Rightarrow> int list \<Rightarrow> nat" where
  "extra_bytes v [] = 0"
| "extra_bytes v (t # ts) = (if v \<le> t then 0 else Suc (extra_bytes v ts))"

fun wchar_tail :: "nat \<Rightarrow> int \<Rightarrow> string \<Rightarrow> int \<times> string" where
  "wchar_tail 0 v buffer = (v, buffer)"
| "wchar_tail (Suc j) v buffer =
     wchar_tail j (drop_bit 6 v) (char_of (0x80 OR (v AND 0x3f)) # buffer)"

definition wchar_utf8 :: "int \<Rightarrow> string" where
  "wchar_utf8 v =
     (let i = extra_bytes v utf8_table1; (w, buffer) = wchar_tail i v []
      in char_of (utf8_table2 ! i OR w) # buffer)"

text \<open>The pointer \<open>limit\<close> is given by its distance from the string pointer.\<close>

function utf8_wlen :: "string \<Rightarrow> int \<Rightarrow> nat \<Rightarrow> nat result" where
  "utf8_wlen [] limit n = Inl C_UNDEFINED"
| "utf8_wlen (c # p) limit n =
     (if c = CHR 0x00 \<or> \<not> 1 < limit then Inr n
      else if is_lead (byte c)
        then utf8_wlen (drop (gcaa (byte c)) p) (limit - 1 - int (gcaa (byte c))) (Suc n)
      else utf8_wlen p (limit - 1) (Suc n))"
  by pat_completeness auto
termination by (relation "measure (\<lambda>(p, _, _). length p)") auto

function utf8_index :: "string \<Rightarrow> int \<Rightarrow> string result" where
  "utf8_index [] idx = Inl C_UNDEFINED"
| "utf8_index (c # p) idx =
     (if c = CHR 0x00 \<or> idx = 0 then Inr (c # p)
      else if is_lead (byte c) then utf8_index (drop (gcaa (byte c)) p) (idx - 1)
      else utf8_index p (idx - 1))"
  by pat_completeness auto
termination by (relation "measure (\<lambda>(p, _). length p)") auto

fun utf8_1st_len :: "string \<Rightarrow> nat result" where
  "utf8_1st_len [] = Inl C_UNDEFINED"
| "utf8_1st_len (c # p) =
     Inr (if c = CHR 0x00 then 0 else if is_lead (byte c) then gcaa (byte c) + 1 else 1)"

fun utf8_wstr :: "string \<Rightarrow> nat \<Rightarrow> int list result" where
  "utf8_wstr p 0 = Inr []"
| "utf8_wstr [] (Suc maxwc) = Inl C_UNDEFINED"
| "utf8_wstr (c # p) (Suc maxwc) =
     (if c = CHR 0x00 then Inr []
      else case utf8_wchar (c # p) of
             Inl e \<Rightarrow> Inl e
           | Inr (w, q) \<Rightarrow> (case utf8_wstr q maxwc of Inl e \<Rightarrow> Inl e | Inr ws \<Rightarrow> Inr (w # ws)))"

fun wstr_utf8 :: "int list \<Rightarrow> nat \<Rightarrow> nat \<Rightarrow> string result" where
  "wstr_utf8 [] siz maxstr = Inl C_UNDEFINED"
| "wstr_utf8 (u # us) siz maxstr =
     (if u = 0 \<or> \<not> siz < maxstr then Inr []
      else case wstr_utf8 us (siz + length (wchar_utf8 u)) maxstr of
             Inl e \<Rightarrow> Inl e
           | Inr s \<Rightarrow> Inr (wchar_utf8 u @ s))"

text \<open>How an \<^verbatim>\<open>int\<close> lies in memory depends on the processor: \<open>put\<close> gives its
  four bytes, \<open>get\<close> reads them.\<close>

definition p_unicode :: "(int \<Rightarrow> string) \<Rightarrow> machine \<Rightarrow> cell \<Rightarrow> cell result" where
  "p_unicode put M c =
     (case getStringSize M c of
        Inl e \<Rightarrow> Inl e
      | Inr s \<Rightarrow>
          (case utf8_wstr (s @ [CHR 0x00]) (length s) of
             Inl e \<Rightarrow> Inl e
           | Inr ws \<Rightarrow> Inr (CELL_STRING (concat (map put (ws @ [0]))))))"

fun int_vector :: "(string \<Rightarrow> int) \<Rightarrow> string \<Rightarrow> int list" where
  "int_vector get (a # b # c # d # p) = get [a, b, c, d] # int_vector get p"
| "int_vector get p = []"

definition p_utf8 :: "(string \<Rightarrow> int) \<Rightarrow> machine \<Rightarrow> cell \<Rightarrow> cell result" where
  "p_utf8 get M c =
     (case getStringSize M c of
        Inl e \<Rightarrow> Inl e
      | Inr s \<Rightarrow>
          (case wstr_utf8 (int_vector get (s @ [CHR 0x00])) 0 (length s) of
             Inl e \<Rightarrow> Inl e
           | Inr u \<Rightarrow> Inr (CELL_STRING u)))"

definition p_utf8len :: "machine \<Rightarrow> cell \<Rightarrow> cell result" where
  "p_utf8len M c =
     (case getStringSize M c of
        Inl e \<Rightarrow> Inl e
      | Inr s \<Rightarrow>
          (case utf8_wlen (s @ [CHR 0x00]) (int (length s) + 1) 0 of
             Inl e \<Rightarrow> Inl e
           | Inr n \<Rightarrow> Inr (CELL_LONG (int n))))"

text \<open>Reading a character from a file: the bytes left in the file are an argument, and are
  returned with the result. A byte is a signed \<^verbatim>\<open>char\<close> here.\<close>

fun readUTF8_tail :: "nat \<Rightarrow> int \<Rightarrow> string \<Rightarrow> cell \<times> string" where
  "readUTF8_tail 0 u f = (CELL_LONG u, f)"
| "readUTF8_tail (Suc g) u [] = (CELL_NIL, [])"
| "readUTF8_tail (Suc g) u (x # f) = readUTF8_tail g (u OR push_bit (6 * g) (byte x AND 0x3f)) f"

fun p_readUTF8 :: "string \<Rightarrow> cell \<times> string" where
  "p_readUTF8 [] = (CELL_NIL, [])"
| "p_readUTF8 (x # f) =
     (if is_lead (byte x)
      then readUTF8_tail (gcaa (byte x))
             (push_bit (6 * gcaa (byte x)) (byte x AND utf8_table3 ! gcaa (byte x))) f
      else (CELL_LONG (signed_take_bit 7 (byte x)), f))"

section \<open>One character\<close>

definition wide_char :: "int \<Rightarrow> bool" where
  "wide_char v \<longleftrightarrow> 0 \<le> v \<and> v \<le> 0x7fffffff"

definition tail_bytes :: "nat \<Rightarrow> int \<Rightarrow> string" where
  "tail_bytes j v = map (\<lambda>k. char_of (0x80 OR (drop_bit (6 * k) v AND 0x3f))) (rev [0..<j])"

lemma tail_bytes_Suc [simp]:
  "tail_bytes 0 v = []"
  "tail_bytes (Suc j) v = char_of (0x80 OR (drop_bit (6 * j) v AND 0x3f)) # tail_bytes j v"
  by (simp_all add: tail_bytes_def)

lemma tail_bytes_snoc: "tail_bytes (Suc j) v = tail_bytes j (drop_bit 6 v) @ [char_of (0x80 OR (v AND 0x3f))]"
  by (induction j) (simp_all add: drop_bit_drop_bit add.commute)

lemma wchar_tail_eq: "wchar_tail j v buffer = (drop_bit (6 * j) v, tail_bytes j v @ buffer)"
  by (induction j arbitrary: v buffer) (simp_all add: tail_bytes_snoc drop_bit_drop_bit add.commute del: tail_bytes_Suc(2))

lemma mask_6: "w AND 0x3f = take_bit 6 (w::int)"
  by (simp add: take_bit_eq_mask mask_eq_exp_minus_1)

lemma byte_char_of: "byte (char_of x) = take_bit 8 x"
  by (simp add: byte_def take_bit_eq_mod)

lemma tail_byte: "byte (char_of (0x80 OR (w AND 0x3f))) AND 0x3f = take_bit 6 w"
proof -
  have "take_bit 6 (0x80 :: int) = 0" by (simp add: take_bit_eq_mod)
  then show ?thesis by (simp add: byte_char_of mask_6)
qed

lemma or_take_bit_step:
  "(c OR push_bit k (take_bit 6 (drop_bit k v))) OR take_bit k v = c OR take_bit (k + 6) (v::int)"
  by (rule bit_eqI) (auto simp: bit_simps)

lemma getcharinc_tail_bytes:
  "getcharinc_tail j c (tail_bytes j v @ r) = Inr (c OR take_bit (6 * j) v, r)"
  by (induction j arbitrary: c) (simp_all add: tail_byte or_take_bit_step add.commute)

lemma readUTF8_tail_bytes:
  "readUTF8_tail j c (tail_bytes j v @ r) = (CELL_LONG (c OR take_bit (6 * j) v), r)"
  by (induction j arbitrary: c) (simp_all add: tail_byte or_take_bit_step add.commute)

text \<open>The tables fit together: the first byte tells the number of additional bytes.\<close>

lemma lead_byte:
  assumes "0 < i" "i < 6" "0 \<le> w" "w < 2 ^ (6 - i)"
  shows "is_lead (byte (char_of (utf8_table2 ! i OR w)))"
    and "gcaa (byte (char_of (utf8_table2 ! i OR w))) = i"
    and "byte (char_of (utf8_table2 ! i OR w)) AND utf8_table3 ! i = w"
proof -
  have "\<forall>i\<in>{1,2,3,4,5}. \<forall>w\<in>set [0..2 ^ (6 - i) - 1].
      let b = byte (char_of (utf8_table2 ! i OR w)) in is_lead b \<and> gcaa b = i \<and> b AND utf8_table3 ! i = w"
    by code_simp
  moreover have "i \<in> {1,2,3,4,5}" "w \<in> set [0..2 ^ (6 - i) - 1]" using assms by auto
  ultimately show "is_lead (byte (char_of (utf8_table2 ! i OR w)))"
    and "gcaa (byte (char_of (utf8_table2 ! i OR w))) = i"
    and "byte (char_of (utf8_table2 ! i OR w)) AND utf8_table3 ! i = w"
    unfolding Let_def by blast+
qed


lemma byte_nul: "byte (CHR 0x00) = 0"
  by (simp add: byte_def)

lemma ascii_byte:
  assumes "0 \<le> v" "v \<le> 0x7f"
  shows "byte (char_of v) = v" "\<not> is_lead v"
proof -
  show "byte (char_of v) = v" using assms by (simp add: byte_def)
  have "\<forall>v\<in>set [0..0x7f]. \<not> is_lead v" by code_simp
  then show "\<not> is_lead v" using assms by auto
qed

lemma wchar_utf8_cases:
  assumes "wide_char v"
  obtains (ascii) "v \<le> 0x7f" "wchar_utf8 v = [char_of v]"
  | (multi) i w where "0 < i" "i < 6" "0 < v" "w = drop_bit (6 * i) v" "0 \<le> w" "w < 2 ^ (6 - i)"
      "wchar_utf8 v = char_of (utf8_table2 ! i OR w) # tail_bytes i v"
proof (cases "v \<le> 0x7f")
  case True
  then have "wchar_utf8 v = [char_of v]"
    by (simp add: wchar_utf8_def utf8_table1_def utf8_table2_def)
  with True show ?thesis by (rule ascii)
next
  case False
  let ?i = "extra_bytes v utf8_table1"
  have i: "0 < ?i" "?i < 6" "0 \<le> v div 2 ^ (6 * ?i)" "v div 2 ^ (6 * ?i) < 2 ^ (6 - ?i)"
    using False assms by (auto simp: utf8_table1_def wide_char_def)
  show ?thesis
  proof (rule multi [of ?i "drop_bit (6 * ?i) v"])
    show "wchar_utf8 v = char_of (utf8_table2 ! ?i OR drop_bit (6 * ?i) v) # tail_bytes ?i v"
      by (simp add: wchar_utf8_def wchar_tail_eq Let_def)
  qed (use i False in \<open>simp_all add: drop_bit_eq_div\<close>)
qed

lemma push_drop_take: "push_bit k (drop_bit k v) OR take_bit k v = (v::int)"
  by (rule bit_eqI) (auto simp: bit_simps)

lemma utf8_wchar_encode: "wide_char v \<Longrightarrow> utf8_wchar (wchar_utf8 v @ r) = Inr (v, r)"
  by (cases v rule: wchar_utf8_cases)
     (simp_all add: lead_byte getcharinc_tail_bytes push_drop_take ascii_byte wide_char_def)

lemma p_readUTF8_encode: "wide_char v \<Longrightarrow> p_readUTF8 (wchar_utf8 v @ r) = (CELL_LONG v, r)"
  by (cases v rule: wchar_utf8_cases)
     (simp_all add: lead_byte readUTF8_tail_bytes push_drop_take ascii_byte wide_char_def signed_take_bit_int_eq_self)

interpretation utf8: prefix_code wide_char wchar_utf8 utf8_wchar
proof
  fix v r assume v: "wide_char v"
  show "utf8_wchar (wchar_utf8 v @ r) = Inr (v, r)" using v by (rule utf8_wchar_encode)
  show "wchar_utf8 v \<noteq> []" by (simp add: wchar_utf8_def Let_def split: prod.split)
qed

section \<open>Strings of characters\<close>

text \<open>The first byte of a character other than 0, and the bytes that follow it.\<close>

lemma wchar_utf8_parts:
  assumes "wide_char v" "v \<noteq> 0"
  obtains c t where "wchar_utf8 v = c # t" "c \<noteq> CHR 0x00"
    "length t = (if is_lead (byte c) then gcaa (byte c) else 0)"
  using assms(1)
proof (cases v rule: wchar_utf8_cases)
  case ascii
  then have "byte (char_of v) = v" using assms ascii_byte(1) [of v] by (simp add: wide_char_def)
  then have "char_of v \<noteq> CHR 0x00" using assms(2) by (metis byte_nul)
  then show ?thesis
    using that [of "char_of v" "[]"] ascii assms ascii_byte [of v] by (simp add: wide_char_def)
next
  case (multi i w)
  then have "char_of (utf8_table2 ! i OR w) \<noteq> CHR 0x00"
    using lead_byte(1) [of i w] byte_nul by (metis (no_types) is_lead_def and_zero_eq bit.conj_zero_left zero_neq_numeral)
  then show ?thesis
    using that [of "char_of (utf8_table2 ! i OR w)" "tail_bytes i v"] multi lead_byte [of i w]
    by (simp add: tail_bytes_def)
qed

abbreviation utf8_string :: "int list \<Rightarrow> string" where
  "utf8_string us \<equiv> concat (map wchar_utf8 us)"

abbreviation wide_text :: "int list \<Rightarrow> bool" where
  "wide_text us \<equiv> list_all (\<lambda>u. wide_char u \<and> u \<noteq> 0) us"

lemma utf8_wstr_string:
  "wide_text us \<Longrightarrow> length us \<le> maxwc \<Longrightarrow> utf8_wstr (utf8_string us @ CHR 0x00 # r) maxwc = Inr us"
proof (induction us arbitrary: maxwc)
  case Nil
  then show ?case by (cases maxwc) auto
next
  case (Cons u us)
  then obtain k where k: "maxwc = Suc k" "length us \<le> k" by (cases maxwc) auto
  obtain c t where ct: "wchar_utf8 u = c # t" "c \<noteq> CHR 0x00"
    by (rule wchar_utf8_parts [of u]) (use Cons.prems in auto)
  have "utf8_wchar (wchar_utf8 u @ utf8_string us @ CHR 0x00 # r) = Inr (u, utf8_string us @ CHR 0x00 # r)"
    by (rule utf8_wchar_encode) (use Cons.prems in simp)
  then show ?case using Cons k ct by simp
qed

lemma wstr_utf8_string:
  "wide_text us \<Longrightarrow> siz + length (utf8_string us) \<le> maxstr \<Longrightarrow> wstr_utf8 (us @ 0 # r) siz maxstr = Inr (utf8_string us)"
proof (induction us arbitrary: siz)
  case (Cons u us)
  then have "siz < maxstr" using utf8.enc_nonempty [of u] by (cases "wchar_utf8 u") auto
  then show ?case using Cons by simp
qed simp

lemma utf8_wlen_string:
  "wide_text us \<Longrightarrow> int (length (utf8_string us)) < limit \<Longrightarrow>
   utf8_wlen (utf8_string us @ CHR 0x00 # r) limit n = Inr (n + length us)"
proof (induction us arbitrary: limit n)
  case (Cons u us)
  obtain c t where ct: "wchar_utf8 u = c # t" "c \<noteq> CHR 0x00"
    "length t = (if is_lead (byte c) then gcaa (byte c) else 0)"
    by (rule wchar_utf8_parts [of u]) (use Cons.prems in auto)
  have "utf8_wlen (utf8_string us @ CHR 0x00 # r) (limit - 1 - int (length t)) (Suc n) = Inr (Suc n + length us)"
    by (rule Cons.IH) (use Cons.prems ct in auto)
  then show ?case using Cons.prems ct by (auto split: if_splits)
qed simp

lemma utf8_index_string:
  "wide_text us \<Longrightarrow> i \<le> length us \<Longrightarrow>
   utf8_index (utf8_string us @ CHR 0x00 # r) (int i) = Inr (utf8_string (drop i us) @ CHR 0x00 # r)"
proof (induction us arbitrary: i)
  case (Cons u us)
  obtain c t where ct: "wchar_utf8 u = c # t" "c \<noteq> CHR 0x00"
    "length t = (if is_lead (byte c) then gcaa (byte c) else 0)"
    by (rule wchar_utf8_parts [of u]) (use Cons.prems in auto)
  show ?case
  proof (cases i)
    case 0
    then show ?thesis using ct by simp
  next
    case (Suc k)
    then show ?thesis using Cons ct by (auto split: if_splits)
  qed
qed simp

lemma utf8_1st_len_string:
  "wide_char u \<Longrightarrow> u \<noteq> 0 \<Longrightarrow> utf8_1st_len (wchar_utf8 u @ r) = Inr (length (wchar_utf8 u))"
  by (elim wchar_utf8_parts) auto

lemma wchar_utf8_length: "wide_char v \<Longrightarrow> length (wchar_utf8 v) \<le> 6"
  by (cases v rule: wchar_utf8_cases) (simp_all add: tail_bytes_def)

lemma wchar_utf8_length4: "0 \<le> v \<Longrightarrow> v \<le> 0x1fffff \<Longrightarrow> length (wchar_utf8 v) \<le> 4"
  by (simp add: wchar_utf8_def wchar_tail_eq utf8_table1_def tail_bytes_def)

lemma utf8_string_length:
  assumes "\<And>u. P u \<Longrightarrow> length (wchar_utf8 u) \<le> k"
  shows "list_all P us \<Longrightarrow> length (utf8_string us) \<le> k * length us"
  using assms by (induction us) (auto simp: algebra_simps intro: add_mono)

text \<open>(C32) Encoding a zero-terminated vector of characters up to 0x7fffffff and decoding it
  gives the vector back; the length and index functions on the encoded string count characters;
  different vectors have different encodings.\<close>

theorem utf8_strings:
  assumes "wide_text us" and "i \<le> length us" and "wide_text ws"
  shows "wstr_utf8 (us @ [0]) 0 (6 * length us) = Inr (utf8_string us) \<and>
    utf8_wstr (utf8_string us @ [CHR 0x00]) (length us) = Inr us \<and>
    utf8_wlen (utf8_string us @ [CHR 0x00]) (int (length (utf8_string us)) + 1) 0 = Inr (length us) \<and>
    utf8_index (utf8_string us @ [CHR 0x00]) (int i) = Inr (utf8_string (drop i us) @ [CHR 0x00]) \<and>
    (utf8_string us = utf8_string ws \<longrightarrow> us = ws)"
proof -
  have ok: "list_all wide_char us" "list_all wide_char ws" using assms by (auto simp: list_all_iff)
  have "wstr_utf8 (us @ [0]) 0 (6 * length us) = Inr (utf8_string us)"
    by (rule wstr_utf8_string [where r = "[]"])
       (use assms utf8_string_length [of wide_char 6, OF wchar_utf8_length] ok in auto)
  moreover have "utf8_string us = utf8_string ws \<longrightarrow> us = ws" using utf8.concat_inj [OF ok] by blast
  ultimately show ?thesis
    using assms utf8_wstr_string [of us "length us" "[]"] utf8_wlen_string [of us _ "[]" 0]
      utf8_index_string [of us i "[]"] by simp
qed

theorem utf8_strings_witness:
  "utf8_string [0x41, 0xe9, 0x20ac, 0x1f600] = map char_of [0x41, 0xc3, 0xa9, 0xe2, 0x82, 0xac, 0xf0, 0x9f, 0x98, 0x80 :: nat] \<and>
   utf8_wstr (utf8_string [0x41, 0xe9, 0x20ac, 0x1f600] @ [CHR 0x00]) (length [0x41, 0xe9, 0x20ac, 0x1f600 :: int]) = Inr [0x41, 0xe9, 0x20ac, 0x1f600]"
proof -
  have "utf8_string [0x41, 0xe9, 0x20ac, 0x1f600] = map char_of [0x41, 0xc3, 0xa9, 0xe2, 0x82, 0xac, 0xf0, 0x9f, 0x98, 0x80 :: nat]"
    by code_simp
  moreover have ok: "wide_text [0x41, 0xe9, 0x20ac, 0x1f600]" by (simp add: wide_char_def)
  moreover have "utf8_wstr (utf8_string [0x41, 0xe9, 0x20ac, 0x1f600] @ [CHR 0x00]) (length [0x41, 0xe9, 0x20ac, 0x1f600 :: int]) =
      Inr [0x41, 0xe9, 0x20ac, 0x1f600]"
    using utf8_strings [OF ok le0 ok] by blast
  ultimately show ?thesis by blast
qed

lemma int_vector_put:
  assumes "\<And>u. u \<in> set us \<Longrightarrow> length (put u) = 4 \<and> get (put u) = u" and "length r < 4"
  shows "int_vector get (concat (map put us) @ r) = us"
  using assms(1)
proof (induction us)
  case Nil
  then show ?case using assms(2) by (auto simp: numeral_eq_Suc less_Suc_eq length_Suc_conv)
next
  case (Cons u us)
  have "length (put u) = 4" "get (put u) = u" using Cons.prems [of u] by auto
  then obtain a b c d where "put u = [a, b, c, d]" "get (put u) = u"
    by (auto simp: numeral_eq_Suc length_Suc_conv)
  then show ?case using Cons by auto
qed

text \<open>(C33) The primitives: \<^verbatim>\<open>utf8\<close> undoes \<^verbatim>\<open>unicode\<close> on every
  string of characters of at most four bytes, for every layout of integers in memory;
  \<^verbatim>\<open>utf8len\<close> counts the characters, and \<^verbatim>\<open>read-utf8\<close> reads them one by one.\<close>

theorem p_utf8_unicode:
  assumes "list_all (\<lambda>u. 0 < u \<and> u \<le> 0x1fffff) us"
    and "\<And>v. 0 \<le> v \<Longrightarrow> v \<le> 0x7fffffff \<Longrightarrow> length (put v) = 4 \<and> get (put v) = v"
  shows "(\<exists>c. p_unicode put M (CELL_STRING (utf8_string us)) = Inr c \<and>
             p_utf8 get M c = Inr (CELL_STRING (utf8_string us))) \<and>
         p_utf8len M (CELL_STRING (utf8_string us)) = Inr (CELL_LONG (int (length us))) \<and>
         (\<forall>u\<in>set us. \<forall>r. p_readUTF8 (wchar_utf8 u @ r) = (CELL_LONG u, r))"
proof -
  have us: "wide_text us" using assms(1) by (auto simp: list_all_iff wide_char_def)
  have ge: "length us \<le> length (utf8_string us)"
    using us
  proof (induction us)
    case (Cons u us)
    then have "wchar_utf8 u \<noteq> []" using utf8.enc_nonempty [of u] by simp
    then show ?case using Cons by (cases "wchar_utf8 u") auto
  qed simp
  have le: "length (utf8_string us) \<le> 4 * length us"
    by (rule utf8_string_length [of "\<lambda>u. 0 < u \<and> u \<le> 0x1fffff"]) (use assms(1) wchar_utf8_length4 in auto)
  have vec: "int_vector get (concat (map put (us @ [0])) @ [CHR 0x00]) = us @ [0]"
    by (rule int_vector_put) (use assms us in \<open>auto simp: list_all_iff wide_char_def\<close>)
  have len: "length (concat (map put (us @ [0]))) = 4 * Suc (length us)"
    using assms(2) us by (induction us) (auto simp: wide_char_def)
  have wstr: "utf8_wstr (utf8_string us @ [CHR 0x00]) (length (utf8_string us)) = Inr us"
    by (rule utf8_wstr_string) (use us ge in auto)
  have str: "wstr_utf8 (us @ [0]) 0 (length (concat (map put (us @ [0])))) = Inr (utf8_string us)"
    by (rule wstr_utf8_string [where r = "[]"]) (use us le len in auto)
  have "p_utf8 get M (CELL_STRING (concat (map put (us @ [0])))) = Inr (CELL_STRING (utf8_string us))"
    unfolding p_utf8_def by (simp only: getStringSize_def cell.case sum.case vec str)
  then show ?thesis
    using us wstr utf8_wlen_string [of us _ "[]" 0] p_readUTF8_encode
    by (auto simp: p_unicode_def p_utf8len_def getStringSize_def list_all_iff)
qed

text \<open>The layout of the processors with the low byte first.\<close>

definition little_endian :: "int \<Rightarrow> string" where
  "little_endian v = [char_of v, char_of (v div 256), char_of (v div 256 ^ 2), char_of (v div 256 ^ 3)]"

fun from_little_endian :: "string \<Rightarrow> int" where
  "from_little_endian [a, b, c, d] = byte a + byte b * 256 + byte c * 256 ^ 2 + byte d * 256 ^ 3"
| "from_little_endian _ = 0"

lemma byte_char_mod: "byte (char_of x) = x mod 256"
  by (simp add: byte_def)

lemma little_endian_layout:
  assumes "0 \<le> v" "v \<le> 0x7fffffff"
  shows "length (little_endian v) = 4 \<and> from_little_endian (little_endian v) = v"
proof -
  have digits: "v = 256 * a + r \<Longrightarrow> a = 256 * b + s \<Longrightarrow> b = 256 * c + t \<Longrightarrow>
      r + s * 256 + t * 256 ^ 2 + c * 256 ^ 3 = v" for a b c r s t
    by simp
  have div: "v div 256 ^ 2 = v div 256 div 256" "v div 256 ^ 3 = v div 256 div 256 div 256"
    by (simp_all add: zdiv_zmult2_eq [symmetric])
  have last: "v div 256 div 256 div 256 mod 256 = v div 256 div 256 div 256"
    using assms by (intro mod_pos_pos_trivial) (simp_all add: zdiv_zmult2_eq [symmetric])
  have "v mod 256 + (v div 256) mod 256 * 256 + (v div 256 ^ 2) mod 256 * 256 ^ 2 + (v div 256 ^ 3) mod 256 * 256 ^ 3 = v"
    unfolding div last by (rule digits) simp_all
  then have "from_little_endian (little_endian v) = v"
    by (simp only: little_endian_def from_little_endian.simps byte_char_mod)
  then show ?thesis by (simp add: little_endian_def)
qed

theorem p_utf8_unicode_witness:
  "\<forall>M. \<exists>c. p_unicode little_endian M (CELL_STRING (utf8_string [0x20ac])) = Inr c \<and>
     p_utf8 from_little_endian M c = Inr (CELL_STRING (utf8_string [0x20ac]))"
proof
  fix M
  show "\<exists>c. p_unicode little_endian M (CELL_STRING (utf8_string [0x20ac])) = Inr c \<and>
     p_utf8 from_little_endian M c = Inr (CELL_STRING (utf8_string [0x20ac]))"
    by (rule conjunct1 [OF p_utf8_unicode]) (simp_all add: little_endian_layout)
qed

end
