(* ===== verification/NL_Json.thy ===== *)
theory NL_Json
  imports NL_Web NL_Utf8
begin

text \<open>
The JSON reader of \<^verbatim>\<open>nl-xml-json.c\<close> (\<^verbatim>\<open>getJSONvalue\<close>,
  \<^verbatim>\<open>getJSONobject\<close>, \<^verbatim>\<open>getJSONstring\<close>, \<^verbatim>\<open>setJSONerror\<close> and the primitive
  \<^verbatim>\<open>json-parse\<close>). The grammar of JSON is stated as inductive relations between values and
  texts, independent of the parser; the lemmas show that the parser ends, that it reports errors
  inside the text, and that it accepts every text of the grammar with the value it denotes.
\<close>


section \<open>Definitions\<close>

text \<open>An error holds its text and the number of characters left at the place it is reported for
  (-1 behind the terminator). A string that ends in a backslash is read past its end.\<close>

datatype json_error =
    JSON_error string int
  | JSON_overrun

type_synonym 'a json_result = "json_error + 'a \<times> string"

definition ERR_JSON_MISSING_BRACE :: string where "ERR_JSON_MISSING_BRACE = ''missing {''"
definition ERR_JSON_MISSING_COLON :: string where "ERR_JSON_MISSING_COLON = ''missing : colon''"
definition ERR_JSON_INVALID_OBJECT :: string where "ERR_JSON_INVALID_OBJECT = ''invalid JSON object''"
definition ERR_JSON_MISSING_KEY :: string where "ERR_JSON_MISSING_KEY = ''missing key''"
definition ERR_JSON_CLOSING_QUOTE :: string where "ERR_JSON_CLOSING_QUOTE = ''missing closing quote''"
definition ERR_JSON_INVALID_UNICODE :: string where "ERR_JSON_INVALID_UNICODE = ''invalid unicode''"
definition ERR_JSON_INVALID_NUMBER :: string where "ERR_JSON_INVALID_NUMBER = ''invalid JSON number format''"
definition ERR_JSON_INVALID_ARRAY :: string where "ERR_JSON_INVALID_ARRAY = ''invalid JSON array format''"
definition ERR_JSON_INVALID_VALUE :: string where "ERR_JSON_INVALID_VALUE = ''invalid JSON value format''"

definition setJSONerror :: "string \<Rightarrow> string \<Rightarrow> json_error + 'a" where
  "setJSONerror text jsonStr = Inl (JSON_error text (int (length jsonStr)))"

definition json_space :: "string \<Rightarrow> string" where
  "json_space s = dropWhile (\<lambda>c. byte c \<le> 32) s"

abbreviation quote :: char where "quote \<equiv> CHR 0x22"
abbreviation backslash :: char where "backslash \<equiv> CHR 0x5C"

text \<open>The token up to the closing quote.\<close>

fun json_token :: "string \<Rightarrow> string json_result" where
  "json_token [] = Inl (JSON_error ERR_JSON_CLOSING_QUOTE (-1))"
| "json_token (c # s) =
     (if c = quote then Inr ([], s)
      else if c = backslash
      then (case s of
              [] \<Rightarrow> Inl JSON_overrun
            | d # t \<Rightarrow> (case json_token t of Inl e \<Rightarrow> Inl e | Inr (u, r) \<Rightarrow> Inr (c # d # u, r)))
      else (case json_token s of Inl e \<Rightarrow> Inl e | Inr (u, r) \<Rightarrow> Inr (c # u, r)))"

definition json_escape :: "char \<Rightarrow> char" where
  "json_escape c =
     (if c = CHR ''b'' then CHR 0x08 else if c = CHR ''f'' then CHR 0x0C else if c = CHR ''n'' then CHR 0x0A
      else if c = CHR ''r'' then CHR 0x0D else if c = CHR ''t'' then CHR 0x09 else c)"

fun hex_number :: "int \<Rightarrow> string \<Rightarrow> int option" where
  "hex_number n [] = Some n"
| "hex_number n (c # s) = (case hex_value c of None \<Rightarrow> None | Some d \<Rightarrow> hex_number (16 * n + d) s)"

text \<open>The loop that copies the token; \<open>rest\<close> is what follows the string.\<close>

fun json_xlate :: "string \<Rightarrow> string \<Rightarrow> json_error + string" where
  "json_xlate rest [] = Inr []"
| "json_xlate rest [c] = Inr [c]"
| "json_xlate rest (c # d # t) =
     (if c = backslash then
        if d = CHR ''u'' then
          (if length t < 4 then setJSONerror ERR_JSON_INVALID_UNICODE rest
           else case hex_number 0 (take 4 t) of
                  None \<Rightarrow> setJSONerror ERR_JSON_INVALID_UNICODE rest
                | Some n \<Rightarrow> map_sum id ((@) (wchar_utf8 n)) (json_xlate rest (drop 4 t)))
        else map_sum id ((#) (json_escape d)) (json_xlate rest t)
      else map_sum id ((#) c) (json_xlate rest (d # t)))"

definition getJSONstring :: "string \<Rightarrow> string json_result" where
  "getJSONstring s =
     (case json_space s of
        [] \<Rightarrow> setJSONerror ERR_JSON_MISSING_KEY []
      | c # t \<Rightarrow>
          if c \<noteq> quote then setJSONerror ERR_JSON_MISSING_KEY (c # t)
          else case json_token t of
                 Inl e \<Rightarrow> Inl e
               | Inr (token, rest) \<Rightarrow> map_sum id (\<lambda>x. (x, rest)) (json_xlate rest token))"

definition starts_with_digit :: "string \<Rightarrow> bool" where
  "starts_with_digit s \<longleftrightarrow> s \<noteq> [] \<and> is_digit (hd s)"

text \<open>The characters that may follow a number.\<close>

definition number_end :: "string \<Rightarrow> bool" where
  "number_end s \<longleftrightarrow> s = [] \<or> hd s \<in> {CHR '' '', CHR 0x0A, CHR 0x09, CHR 0x0C, CHR '','', CHR ''}'', CHR '']''}"

text \<open>Fraction and exponent: what remains behind them, and whether there was one.\<close>

definition json_fraction :: "string \<Rightarrow> bool \<times> string" where
  "json_fraction s =
     (if s \<noteq> [] \<and> hd s = CHR ''.'' then (True, dropWhile is_digit (tl s)) else (False, s))"

definition json_exponent :: "string \<Rightarrow> bool json_result" where
  "json_exponent s =
     (if s \<noteq> [] \<and> (hd s = CHR ''e'' \<or> hd s = CHR ''E'')
      then let t = tl s; u = (if t \<noteq> [] \<and> (hd t = CHR ''-'' \<or> hd t = CHR ''+'') then tl t else t)
           in if \<not> starts_with_digit u then setJSONerror ERR_JSON_INVALID_NUMBER u
              else Inr (True, dropWhile is_digit u)
      else Inr (False, s))"

text \<open>The library's \<^verbatim>\<open>atof\<close> is an argument.\<close>

definition getJSONnumber :: "(string \<Rightarrow> dbl) \<Rightarrow> string \<Rightarrow> cell json_result" where
  "getJSONnumber atof s =
     (let (frac, s2) = json_fraction (dropWhile is_digit (tl s))
      in case json_exponent s2 of
           Inl e \<Rightarrow> Inl e
         | Inr (ex, s3) \<Rightarrow>
             if \<not> number_end s3 then setJSONerror ERR_JSON_INVALID_NUMBER s3
             else let number = take (length s - length s3) s
                  in if length number > 1024 then setJSONerror ERR_JSON_INVALID_NUMBER s3
                     else Inr (if frac \<or> ex then CELL_FLOAT (atof number) else CELL_LONG (atol number), s3))"

definition falseSymbol :: symbol where "falseSymbol = \<lparr>scontext = ''MAIN'', sname = ''false''\<rparr>"
definition nullSymbol :: symbol where "nullSymbol = \<lparr>scontext = ''MAIN'', sname = ''null''\<rparr>"

definition json_literal :: "string \<Rightarrow> cell json_result" where
  "json_literal s =
     (if take 4 s = ''true'' then Inr (CELL_SYMBOL trueSymbol, drop 4 s)
      else if take 5 s = ''false'' then Inr (CELL_SYMBOL falseSymbol, drop 5 s)
      else if take 4 s = ''null'' then Inr (CELL_SYMBOL nullSymbol, drop 4 s)
      else setJSONerror ERR_JSON_INVALID_VALUE s)"

text \<open>The recursion has fuel; \<open>None\<close> is its end. An object is a loop over pairs, an array a loop
  over elements.\<close>

fun getJSONvalue :: "nat \<Rightarrow> (string \<Rightarrow> dbl) \<Rightarrow> string \<Rightarrow> cell json_result option"
  and getJSONobject :: "nat \<Rightarrow> (string \<Rightarrow> dbl) \<Rightarrow> string \<Rightarrow> cell json_result option"
  and json_pairs :: "nat \<Rightarrow> (string \<Rightarrow> dbl) \<Rightarrow> cell list \<Rightarrow> string \<Rightarrow> cell json_result option"
  and json_elements :: "nat \<Rightarrow> (string \<Rightarrow> dbl) \<Rightarrow> cell list \<Rightarrow> string \<Rightarrow> cell json_result option" where
  "getJSONvalue 0 atof s = None"
| "getJSONvalue (Suc n) atof s =
     (case json_space s of
        [] \<Rightarrow> Some (setJSONerror ERR_JSON_INVALID_VALUE [])
      | c # t \<Rightarrow>
          if c = quote then Some (map_sum id (map_prod CELL_STRING id) (getJSONstring (c # t)))
          else if is_digit c \<or> (c = CHR ''-'' \<or> c = CHR ''+'') \<and> starts_with_digit t
          then Some (getJSONnumber atof (c # t))
          else if c = CHR ''{'' then getJSONobject n atof (c # t)
          else if c = CHR ''['' then json_elements n atof [] t
          else Some (json_literal (c # t)))"
| "getJSONobject 0 atof s = None"
| "getJSONobject (Suc n) atof s =
     (case json_space s of
        [] \<Rightarrow> Some (setJSONerror ERR_JSON_MISSING_BRACE [])
      | c # t \<Rightarrow>
          if c \<noteq> CHR ''{'' then Some (setJSONerror ERR_JSON_MISSING_BRACE (c # t))
          else let u = json_space t
               in if u \<noteq> [] \<and> hd u = CHR ''}'' then Some (Inr (CELL_EXPRESSION [], tl u))
                  else json_pairs n atof [] u)"
| "json_pairs 0 atof acc s = None"
| "json_pairs (Suc n) atof acc s =
     (case getJSONstring s of
        Inl e \<Rightarrow> Some (Inl e)
      | Inr (key, t) \<Rightarrow>
          (case json_space t of
             [] \<Rightarrow> Some (setJSONerror ERR_JSON_MISSING_COLON [])
           | c # u \<Rightarrow>
               if c \<noteq> CHR '':'' then Some (setJSONerror ERR_JSON_MISSING_COLON (c # u))
               else (case getJSONvalue n atof u of
                       None \<Rightarrow> None
                     | Some (Inl e) \<Rightarrow> Some (Inl e)
                     | Some (Inr (v, w)) \<Rightarrow>
                         let pairs = acc @ [CELL_EXPRESSION [CELL_STRING key, v]]
                         in (case json_space w of
                               [] \<Rightarrow> Some (setJSONerror ERR_JSON_INVALID_OBJECT [])
                             | d # x \<Rightarrow>
                                 if d = CHR ''}'' then Some (Inr (CELL_EXPRESSION pairs, x))
                                 else if d = CHR '','' then json_pairs n atof pairs x
                                 else Some (setJSONerror ERR_JSON_INVALID_OBJECT (d # x))))))"
| "json_elements 0 atof acc s = None"
| "json_elements (Suc n) atof acc s =
     (let t = json_space s
      in if t \<noteq> [] \<and> hd t = CHR '']'' then Some (Inr (CELL_EXPRESSION acc, tl t))
         else (case getJSONvalue n atof t of
                 None \<Rightarrow> None
               | Some (Inl e) \<Rightarrow> Some (Inl e)
               | Some (Inr (v, w)) \<Rightarrow>
                   (case json_space w of
                      [] \<Rightarrow> Some (setJSONerror ERR_JSON_INVALID_ARRAY [])
                    | d # x \<Rightarrow>
                        if d = CHR '','' then json_elements n atof (acc @ [v]) x
                        else if d = CHR '']'' then Some (Inr (CELL_EXPRESSION (acc @ [v]), x))
                        else Some (setJSONerror ERR_JSON_INVALID_ARRAY (d # x)))))"

text \<open>Value and \<^verbatim>\<open>lastJSONerror\<close> of the primitive. The fuel is enough for every string, as shown
  below.\<close>

definition json_outcome :: "nat \<Rightarrow> cell json_result \<Rightarrow> (cell \<times> cell) result" where
  "json_outcome len r =
     (case r of
        Inr (c, rest) \<Rightarrow> Inr (c, CELL_NIL)
      | Inl (JSON_error text left) \<Rightarrow> Inr (CELL_NIL, CELL_EXPRESSION [CELL_STRING text, CELL_LONG (int len - left)])
      | Inl JSON_overrun \<Rightarrow> Inl C_UNDEFINED)"

definition p_JSONparse :: "(string \<Rightarrow> dbl) \<Rightarrow> machine \<Rightarrow> cell \<Rightarrow> (cell \<times> cell) result option" where
  "p_JSONparse atof M param =
     (case getStringSize M param of
        Inl e \<Rightarrow> Some (Inl e)
      | Inr str \<Rightarrow>
          let s = cstr str
          in map_option (json_outcome (length s)) (getJSONvalue (3 * length s + 3) atof s))"

section \<open>The parser returns\<close>

text \<open>What a parsing function leaves is shorter than what it got, and an error lies inside or just
  behind it.\<close>

definition consumes :: "string \<Rightarrow> 'a json_result \<Rightarrow> bool" where
  "consumes s r \<longleftrightarrow>
     (case r of
        Inr (x, rest) \<Rightarrow> length rest < length s
      | Inl (JSON_error text left) \<Rightarrow> -1 \<le> left \<and> left \<le> int (length s)
      | Inl JSON_overrun \<Rightarrow> True)"

lemma json_space_length: "length (json_space s) \<le> length s"
  by (simp add: json_space_def length_dropWhile_le)

lemma consumes_Inr [simp]: "consumes s (Inr (x, r)) \<longleftrightarrow> length r < length s"
  by (simp add: consumes_def)

lemma consumes_error [simp]: "consumes s (setJSONerror t r) \<longleftrightarrow> length r \<le> length s"
  by (simp add: consumes_def setJSONerror_def)

lemma consumes_le: "consumes t r \<Longrightarrow> length t \<le> length s \<Longrightarrow> consumes s r"
  by (auto simp: consumes_def split: sum.splits json_error.splits)

lemma consumes_Inl: "consumes t (Inl e) \<Longrightarrow> length t \<le> length s \<Longrightarrow> consumes s (Inl e)"
  by (rule consumes_le [of t]) (auto simp: consumes_def split: json_error.splits)

lemma consumes_prefix:
  "consumes t x \<Longrightarrow> length t \<le> length s \<Longrightarrow> consumes s (case x of Inl e \<Rightarrow> Inl e | Inr (u, r) \<Rightarrow> Inr (f u, r))"
  by (cases x) (auto simp: consumes_def split: json_error.splits)

lemma json_token_consumes: "consumes s (json_token s)"
proof (induction s rule: length_induct)
  case (1 s)
  show ?case
  proof (cases s)
    case (Cons c t)
    have t: "consumes (c # t) (case json_token t of Inl e \<Rightarrow> Inl e | Inr (u, r) \<Rightarrow> Inr (f u, r))" for f :: "string \<Rightarrow> string"
      by (rule consumes_prefix [of t]) (use 1 Cons in auto)
    have u: "consumes (c # t) (case json_token u of Inl e \<Rightarrow> Inl e | Inr (v, r) \<Rightarrow> Inr (f v, r))"
      if "t = d # u" for f :: "string \<Rightarrow> string" and d u
      by (rule consumes_prefix [of u]) (use 1 Cons that in auto)
    show ?thesis unfolding Cons json_token.simps
      using t u by (auto split: list.split simp: consumes_def [of _ "Inl JSON_overrun"])
  qed (simp add: consumes_def)
qed

lemma map_sum_Inr: "map_sum id f x = Inr y \<longleftrightarrow> (\<exists>z. x = Inr z \<and> y = f z)"
  by (cases x) auto

lemma json_xlate_error: "json_xlate rest u = Inl e \<Longrightarrow> e = JSON_error ERR_JSON_INVALID_UNICODE (int (length rest))"
proof (induction rest u rule: json_xlate.induct)
  case (3 rest c d t)
  have map: "\<exists>z. x = Inl z \<and> z = y" if "map_sum id f x = Inl y" for f :: "string \<Rightarrow> string" and x :: "json_error + string" and y
    using that by (cases x) auto
  from 3 show ?case by (auto simp: setJSONerror_def split: if_splits option.splits dest!: map)
qed simp_all

lemma getJSONstring_consumes: "consumes s (getJSONstring s)"
proof (cases "json_space s")
  case (Cons c t)
  then have len: "length (c # t) \<le> length s" using json_space_length [of s] by simp
  show ?thesis
  proof (cases "json_token t")
    case (Inl e)
    then have "consumes s (Inl e :: string json_result)"
      using json_token_consumes [of t] len consumes_Inl [of t e s] by simp
    then show ?thesis using Cons Inl len by (auto simp: getJSONstring_def)
  next
    case (Inr ur)
    obtain u r where ur: "ur = (u, r)" by (cases ur)
    then have "length r < length t" using json_token_consumes [of t] Inr by simp
    then show ?thesis using Cons Inr ur len json_xlate_error [of r u]
      by (cases "json_xlate r u") (auto simp: getJSONstring_def consumes_def setJSONerror_def)
  qed
qed (simp add: getJSONstring_def)

lemma getJSONnumber_consumes: "s \<noteq> [] \<Longrightarrow> consumes s (getJSONnumber atof s)"
proof -
  have frac: "length (snd (json_fraction t)) \<le> length t" for t
    by (auto simp: json_fraction_def intro: le_trans [OF length_dropWhile_le])
  have ex: "case json_exponent t of Inr (b, r) \<Rightarrow> length r \<le> length t | Inl e \<Rightarrow> \<exists>k. e = JSON_error ERR_JSON_INVALID_NUMBER k \<and> 0 \<le> k \<and> k \<le> int (length t)" for t
    by (auto simp: json_exponent_def Let_def setJSONerror_def intro: le_trans [OF length_dropWhile_le])
  assume "s \<noteq> []"
  then have "length (dropWhile is_digit (tl s)) < length s"
    by (cases s) (auto simp: less_Suc_eq_le length_dropWhile_le)
  then show ?thesis
    using frac [of "dropWhile is_digit (tl s)"] ex [of "snd (json_fraction (dropWhile is_digit (tl s)))"]
    by (auto simp: getJSONnumber_def Let_def split: sum.splits prod.splits) (auto simp: consumes_def)
qed

lemma json_literal_consumes: "s \<noteq> [] \<Longrightarrow> consumes s (json_literal s)"
  by (auto simp: json_literal_def)

definition returns :: "string \<Rightarrow> cell json_result option \<Rightarrow> bool" where
  "returns s r \<longleftrightarrow> (\<exists>x. r = Some x \<and> consumes s x)"

lemma returns_le: "returns t r \<Longrightarrow> length t \<le> length s \<Longrightarrow> returns s r"
  using consumes_le by (auto simp: returns_def)

lemma returns_error [simp]: "returns s (Some (setJSONerror t r)) \<longleftrightarrow> length r \<le> length s"
  by (auto simp: returns_def)

lemma returns_rest [simp]: "returns s (Some (Inr (x, r))) \<longleftrightarrow> length r < length s"
  by (auto simp: returns_def)

lemma returns_Inl: "consumes t (Inl e :: 'a json_result) \<Longrightarrow> length t \<le> length s \<Longrightarrow> returns s (Some (Inl e))"
  using consumes_Inl [of t e s] by (auto simp: returns_def consumes_def)

text \<open>With more than three units of fuel for every character the recursion comes to its end.\<close>

lemma parser_returns:
  "3 * length s < n \<Longrightarrow> returns s (getJSONvalue n atof s)"
  "3 * length s < n + 1 \<Longrightarrow> s \<noteq> [] \<Longrightarrow> returns s (getJSONobject n atof s)"
  "3 * length s < n \<Longrightarrow> returns s (json_pairs n atof acc s)"
  "3 * length s + 1 < n \<Longrightarrow> returns s (json_elements n atof acc s)"
proof (induction n arbitrary: s acc)
  case (Suc n)
  {
    case 1
    show ?case
    proof (cases "json_space s")
      case (Cons c t)
      then have len: "length (c # t) \<le> length s" using json_space_length [of s] by simp
      have o: "returns s (getJSONobject n atof (c # t))"
        by (rule returns_le [OF Suc(2)]) (use 1 len in auto)
      have e: "returns s (json_elements n atof [] t)"
        by (rule returns_le [OF Suc(4)]) (use 1 len in auto)
      have simple: "returns s (Some r)" if "consumes (c # t) r" for r
        using consumes_le [OF that len] by (simp add: returns_def)
      have str: "consumes (c # t) (map_sum id (map_prod CELL_STRING id) (getJSONstring (c # t)))"
        using getJSONstring_consumes [of "c # t"] by (auto simp: consumes_def split: sum.splits)
      show ?thesis
        using Cons o e simple [OF str] simple [OF getJSONnumber_consumes] simple [OF json_literal_consumes] by auto
    qed simp
  next
    case 2
    show ?case
    proof (cases "json_space s")
      case (Cons c t)
      then have len: "length (json_space t) < length s"
        using json_space_length [of s] json_space_length [of t] by simp
      have "returns s (json_pairs n atof [] (json_space t))"
        by (rule returns_le [OF Suc(3)]) (use 2 len in auto)
      then show ?thesis using Cons len json_space_length [of s] by (auto simp: Let_def)
    qed simp
  next
    case 3
    show ?case
    proof (cases "getJSONstring s")
      case (Inr kt)
      obtain key t where kt: "kt = (key, t)" by (cases kt)
      then have "length t < length s" using Inr getJSONstring_consumes [of s] by (simp add: consumes_def)
      show ?thesis
      proof (cases "json_space t")
        case (Cons c u)
        then have u: "Suc (length u) < length s" using \<open>length t < length s\<close> json_space_length [of t] by simp
        have "returns u (getJSONvalue n atof u)" by (rule Suc(1)) (use 3 u in simp)
        then obtain x where x: "getJSONvalue n atof u = Some x" "consumes u x" by (auto simp: returns_def)
        have "returns s (json_pairs n atof acc' y)" if "length y < length u" for acc' y
          by (rule returns_le [OF Suc(3)]) (use 3 u that in auto)
        moreover have "length y < length u" if "json_space w = d # y" "x = Inr (v, w)" for d y v w
          using that x(2) json_space_length [of w] by (auto simp: consumes_def)
        moreover have "returns s (Some (Inl e))" if "x = Inl e" for e
          using returns_Inl [of u e s] x(2) u that by simp
        ultimately show ?thesis
          using Inr kt Cons x(1) u by (cases x) (fastforce simp: Let_def split: list.split)+
      qed (simp add: Inr kt)
    next
      case (Inl e)
      then show ?thesis using returns_Inl [of s e s] getJSONstring_consumes [of s] by simp
    qed
  next
    case 4
    let ?t = "json_space s"
    have "returns ?t (getJSONvalue n atof ?t)"
      by (rule Suc(1)) (use 4 json_space_length [of s] in simp)
    then obtain x where x: "getJSONvalue n atof ?t = Some x" "consumes ?t x" by (auto simp: returns_def)
    have rec: "returns s (json_elements n atof acc' y)" if "length y < length s" for acc' y
      by (rule returns_le [OF Suc(4)]) (use 4 that in auto)
    have less: "length y < length s" if "json_space w = d # y" "x = Inr (v, w)" for d y v w
      using that x(2) json_space_length [of w] json_space_length [of s] by (auto simp: consumes_def)
    have tail: "length (tl ?t) < length s" if "?t \<noteq> []"
      using that json_space_length [of s] by (cases ?t) auto
    have error: "returns s (Some (Inl e))" if "x = Inl e" for e
      using returns_Inl [of ?t e s] x(2) json_space_length [of s] that by simp
    show ?case
    proof (cases x)
      case (Inr vw)
      obtain v w where vw: "vw = (v, w)" by (cases vw)
      show ?thesis
      proof (cases "json_space w")
        case (Cons d y)
        then have y: "length y < length s" using less Inr vw by blast
        then show ?thesis using x(1) Inr vw Cons rec tail by (auto simp: Let_def)
      qed (use x(1) Inr vw tail in \<open>auto simp: Let_def\<close>)
    qed (use x(1) tail error in \<open>auto simp: Let_def\<close>)
  }
qed simp_all

section \<open>The language\<close>

text \<open>JSON values, their cells, and the texts that denote them. A float is known by its text; its
  value is what \<^verbatim>\<open>atof\<close> makes of it.\<close>

datatype json =
    JString string
  | JInt int
  | JFloat string
  | JTrue
  | JFalse
  | JNull
  | JArray "json list"
  | JObject "(string \<times> json) list"

fun json_cell :: "(string \<Rightarrow> dbl) \<Rightarrow> json \<Rightarrow> cell" where
  "json_cell atof (JString s) = CELL_STRING s"
| "json_cell atof (JInt n) = CELL_LONG n"
| "json_cell atof (JFloat t) = CELL_FLOAT (atof t)"
| "json_cell atof JTrue = CELL_SYMBOL trueSymbol"
| "json_cell atof JFalse = CELL_SYMBOL falseSymbol"
| "json_cell atof JNull = CELL_SYMBOL nullSymbol"
| "json_cell atof (JArray vs) = CELL_EXPRESSION (map (json_cell atof) vs)"
| "json_cell atof (JObject ps) =
     CELL_EXPRESSION (map (\<lambda>(k, v). CELL_EXPRESSION [CELL_STRING k, json_cell atof v]) ps)"

definition white :: "string \<Rightarrow> bool" where
  "white w \<longleftrightarrow> set w \<subseteq> {CHR '' '', CHR 0x0A, CHR 0x09, CHR 0x0C}"

inductive string_text :: "string \<Rightarrow> string \<Rightarrow> bool" where
  string_end: "string_text [] []"
| string_plain: "c \<noteq> quote \<Longrightarrow> c \<noteq> backslash \<Longrightarrow> string_text s e \<Longrightarrow> string_text (c # s) (c # e)"
| string_escape: "c \<noteq> CHR ''u'' \<Longrightarrow> string_text s e \<Longrightarrow> string_text (json_escape c # s) (backslash # c # e)"
| string_unicode: "length h = 4 \<Longrightarrow> hex_number 0 h = Some n \<Longrightarrow> string_text s e \<Longrightarrow>
    string_text (wchar_utf8 n @ s) (backslash # CHR ''u'' # h @ e)"

definition digit_text :: "string \<Rightarrow> bool" where
  "digit_text t \<longleftrightarrow> t \<noteq> [] \<and> list_all is_digit t"

definition sign_text :: "string \<Rightarrow> bool" where
  "sign_text t \<longleftrightarrow> t \<in> {[], ''-'', ''+''}"

inductive float_text :: "string \<Rightarrow> bool" where
  float_fraction: "sign_text sg \<Longrightarrow> digit_text d \<Longrightarrow> list_all is_digit f \<Longrightarrow> float_text (sg @ d @ CHR ''.'' # f)"
| float_exponent: "sign_text sg \<Longrightarrow> digit_text d \<Longrightarrow> e \<in> {CHR ''e'', CHR ''E''} \<Longrightarrow> sign_text se \<Longrightarrow> digit_text x \<Longrightarrow>
    float_text (sg @ d @ e # se @ x)"
| float_both: "sign_text sg \<Longrightarrow> digit_text d \<Longrightarrow> list_all is_digit f \<Longrightarrow> e \<in> {CHR ''e'', CHR ''E''} \<Longrightarrow> sign_text se \<Longrightarrow>
    digit_text x \<Longrightarrow> float_text (sg @ d @ CHR ''.'' # f @ e # se @ x)"

inductive json_text :: "json \<Rightarrow> string \<Rightarrow> bool"
  and elements_text :: "json list \<Rightarrow> string \<Rightarrow> bool"
  and pairs_text :: "(string \<times> json) list \<Rightarrow> string \<Rightarrow> bool" where
  text_space: "white w \<Longrightarrow> json_text v t \<Longrightarrow> json_text v (w @ t)"
| text_string: "string_text s e \<Longrightarrow> json_text (JString s) (quote # e @ [quote])"
| text_int: "sign_text sg \<Longrightarrow> digit_text d \<Longrightarrow> length (sg @ d) \<le> 1024 \<Longrightarrow> json_text (JInt (atol (sg @ d))) (sg @ d)"
| text_float: "float_text t \<Longrightarrow> length t \<le> 1024 \<Longrightarrow> json_text (JFloat t) t"
| text_true: "json_text JTrue ''true''"
| text_false: "json_text JFalse ''false''"
| text_null: "json_text JNull ''null''"
| text_empty_array: "white w \<Longrightarrow> json_text (JArray []) (CHR ''['' # w @ '']'')"
| text_array: "elements_text vs t \<Longrightarrow> json_text (JArray vs) (CHR ''['' # t)"
| text_empty_object: "white w \<Longrightarrow> json_text (JObject []) (CHR ''{'' # w @ ''}'')"
| text_object: "white w \<Longrightarrow> pairs_text ps t \<Longrightarrow> json_text (JObject ps) (CHR ''{'' # w @ t)"
| text_last_element: "json_text v t \<Longrightarrow> white w \<Longrightarrow> elements_text [v] (t @ w @ '']'')"
| text_element: "json_text v t \<Longrightarrow> white w \<Longrightarrow> elements_text vs u \<Longrightarrow> elements_text (v # vs) (t @ w @ CHR '','' # u)"
| text_last_pair: "string_text k e \<Longrightarrow> white w1 \<Longrightarrow> json_text v t \<Longrightarrow> white w2 \<Longrightarrow>
    pairs_text [(k, v)] (quote # e @ quote # w1 @ CHR '':'' # t @ w2 @ ''}'')"
| text_pair: "string_text k e \<Longrightarrow> white w1 \<Longrightarrow> json_text v t \<Longrightarrow> white w2 \<Longrightarrow> white w3 \<Longrightarrow> pairs_text ps u \<Longrightarrow>
    pairs_text ((k, v) # ps) (quote # e @ quote # w1 @ CHR '':'' # t @ w2 @ CHR '','' # w3 @ u)"

section \<open>Every text is parsed\<close>

lemma white_byte: "white w \<Longrightarrow> c \<in> set w \<Longrightarrow> byte c \<le> 32"
  by (auto simp: white_def byte_def)

lemma json_space_white: "white w \<Longrightarrow> json_space (w @ s) = json_space s"
  unfolding json_space_def by (rule dropWhile_append2) (rule white_byte)

lemma json_space_visible: "32 < byte c \<Longrightarrow> json_space (c # s) = c # s"
  by (simp add: json_space_def)

lemma string_token: "string_text s e \<Longrightarrow> json_token (e @ quote # r) = Inr (e, r)"
proof (induction rule: string_text.induct)
  case (string_unicode h n s e)
  have hex: "c \<noteq> quote \<and> c \<noteq> backslash" if "hex_value c = Some d" for c d
    using that by (auto simp: hex_value_def byte_def split: if_splits)
  obtain a b c d where h: "h = [a, b, c, d]" using string_unicode(1) by (auto simp: numeral_eq_Suc length_Suc_conv)
  have "a \<noteq> quote \<and> a \<noteq> backslash \<and> b \<noteq> quote \<and> b \<noteq> backslash \<and> c \<noteq> quote \<and> c \<noteq> backslash \<and> d \<noteq> quote \<and> d \<noteq> backslash"
    using string_unicode(2) hex unfolding h by (simp split: option.splits)
  then show ?case using string_unicode(4) unfolding h by simp
qed auto

lemma string_xlate: "string_text s e \<Longrightarrow> json_xlate rest e = Inr s"
proof (induction rule: string_text.induct)
  case (string_plain c s e)
  then show ?case by (cases e) auto
qed auto

lemma string_parsed:
  assumes "string_text s e"
  shows "getJSONstring (quote # e @ quote # r) = Inr (s, r)"
proof -
  have "json_space (quote # e @ quote # r) = quote # e @ quote # r" by (rule json_space_visible) (simp add: byte_def)
  then show ?thesis using string_token [OF assms, of r] string_xlate [OF assms, of r] by (simp add: getJSONstring_def)
qed

lemma digit_chars:
  "\<not> is_digit CHR ''.''" "\<not> is_digit CHR ''e''" "\<not> is_digit CHR ''E''" "\<not> is_digit CHR ''-''" "\<not> is_digit CHR ''+''"
  "\<not> is_digit CHR '' ''" "\<not> is_digit CHR '',''" "\<not> is_digit CHR ''}''" "\<not> is_digit CHR '']''"
  "\<not> is_digit CHR 0x0A" "\<not> is_digit CHR 0x09" "\<not> is_digit CHR 0x0C" "\<not> is_digit quote" "\<not> is_digit CHR ''[''" "\<not> is_digit CHR ''{''"
  "\<not> is_digit CHR ''t''" "\<not> is_digit CHR ''f''" "\<not> is_digit CHR ''n''"
  by (simp_all add: is_digit_def byte_def)

lemma dropWhile_digits: "list_all is_digit d \<Longrightarrow> r = [] \<or> \<not> is_digit (hd r) \<Longrightarrow> dropWhile is_digit (d @ r) = r"
  by (induction d) (auto simp: dropWhile_eq_self_iff)

lemma number_end_digit: "number_end r \<Longrightarrow> r = [] \<or> \<not> is_digit (hd r)"
  by (auto simp: number_end_def digit_chars)

lemma number_head:
  assumes "sign_text sg" "digit_text d" "r = [] \<or> \<not> is_digit (hd r)"
  shows "dropWhile is_digit (tl (sg @ d @ r)) = r"
proof -
  obtain c u where "d = c # u" "list_all is_digit u" using assms(2) by (cases d) (auto simp: digit_text_def)
  then show ?thesis using assms dropWhile_digits [of d r] dropWhile_digits [of u r]
    by (auto simp: sign_text_def digit_text_def)
qed

lemma exponent_parsed:
  assumes "e \<in> {CHR ''e'', CHR ''E''}" "sign_text se" "digit_text x" "number_end r"
  shows "json_exponent (e # se @ x @ r) = Inr (True, r)"
proof -
  obtain c u where "x = c # u" "is_digit c" "list_all is_digit x" using assms(3) by (cases x) (auto simp: digit_text_def)
  moreover have "dropWhile is_digit (x @ r) = r" by (rule dropWhile_digits) (use calculation assms number_end_digit in auto)
  ultimately show ?thesis using assms(1,2) digit_chars
    by (auto simp: json_exponent_def sign_text_def starts_with_digit_def Let_def)
qed

lemma no_exponent: "number_end r \<Longrightarrow> json_exponent r = Inr (False, r)"
  by (auto simp: json_exponent_def number_end_def)

lemma no_fraction: "number_end r \<Longrightarrow> json_fraction r = (False, r)"
  by (auto simp: json_fraction_def number_end_def)

lemma fraction_parsed:
  "list_all is_digit f \<Longrightarrow> r = [] \<or> \<not> is_digit (hd r) \<Longrightarrow> json_fraction (CHR ''.'' # f @ r) = (True, r)"
  by (simp add: json_fraction_def dropWhile_digits)

lemma int_parsed:
  assumes "sign_text sg" "digit_text d" "length (sg @ d) \<le> 1024" "number_end r"
  shows "getJSONnumber atof (sg @ d @ r) = Inr (CELL_LONG (atol (sg @ d)), r)"
proof -
  have "dropWhile is_digit (tl (sg @ d @ r)) = r" using assms number_end_digit by (intro number_head)
  then show ?thesis using assms by (simp add: getJSONnumber_def no_fraction no_exponent)
qed

lemma float_parsed:
  assumes "float_text t" "length t \<le> 1024" "number_end r"
  shows "getJSONnumber atof (t @ r) = Inr (CELL_FLOAT (atof t), r)"
  using assms(1)
proof cases
  case (float_fraction sg d f)
  have h: "dropWhile is_digit (tl (sg @ d @ CHR ''.'' # f @ r)) = CHR ''.'' # f @ r"
    by (rule number_head) (use float_fraction digit_chars in auto)
  then show ?thesis
    using assms float_fraction number_end_digit [OF assms(3)]
    by (simp add: getJSONnumber_def fraction_parsed no_exponent)
next
  case (float_exponent sg d e se x)
  have h: "dropWhile is_digit (tl (sg @ d @ e # se @ x @ r)) = e # se @ x @ r"
    by (rule number_head) (use float_exponent digit_chars in auto)
  have "json_fraction (e # se @ x @ r) = (False, e # se @ x @ r)"
    using float_exponent by (auto simp: json_fraction_def)
  then show ?thesis
    using assms float_exponent h exponent_parsed [of e se x r] by (simp add: getJSONnumber_def)
next
  case (float_both sg d f e se x)
  have h: "dropWhile is_digit (tl (sg @ d @ CHR ''.'' # f @ e # se @ x @ r)) = CHR ''.'' # f @ e # se @ x @ r"
    by (rule number_head) (use float_both digit_chars in auto)
  have "json_fraction (CHR ''.'' # f @ e # se @ x @ r) = (True, e # se @ x @ r)"
    by (rule fraction_parsed) (use float_both digit_chars in auto)
  then show ?thesis
    using assms float_both h exponent_parsed [of e se x r] by (simp add: getJSONnumber_def)
qed

text \<open>A number begins with a digit, or with a sign and a digit.\<close>

definition number_start :: "string \<Rightarrow> bool" where
  "number_start s \<longleftrightarrow>
     (case s of [] \<Rightarrow> False | c # t \<Rightarrow> is_digit c \<or> (c = CHR ''-'' \<or> c = CHR ''+'') \<and> starts_with_digit t)"

lemma number_start_text: "sign_text sg \<Longrightarrow> digit_text d \<Longrightarrow> number_start (sg @ d @ r)"
  by (cases d) (auto simp: sign_text_def digit_text_def number_start_def starts_with_digit_def)

lemma number_start_float: "float_text t \<Longrightarrow> number_start (t @ r)"
  by (induction rule: float_text.induct) (auto simp: number_start_text)

lemma value_number:
  assumes "number_start s"
  shows "getJSONvalue (Suc n) atof s = Some (getJSONnumber atof s)"
proof -
  obtain c t where s: "s = c # t" "is_digit c \<or> (c = CHR ''-'' \<or> c = CHR ''+'') \<and> starts_with_digit t"
    using assms by (auto simp: number_start_def split: list.splits)
  then have "32 < byte c" "c \<noteq> quote" by (auto simp: is_digit_def byte_def)
  then show ?thesis using s by (simp add: json_space_visible)
qed

lemma value_literal:
  "c \<in> {CHR ''t'', CHR ''f'', CHR ''n''} \<Longrightarrow> 0 < n \<Longrightarrow> getJSONvalue n atof (c # s) = Some (json_literal (c # s))"
  by (cases n) (auto simp: json_space_visible byte_def digit_chars)

lemma value_space: "getJSONvalue n atof (json_space s) = getJSONvalue n atof s"
proof -
  have "json_space (json_space s) = json_space s" by (simp add: json_space_def)
  then show ?thesis by (cases n) (simp_all only: getJSONvalue.simps)
qed

lemma value_white: "white w \<Longrightarrow> getJSONvalue n atof (w @ s) = getJSONvalue n atof s"
  using json_space_white [of w s] by (cases n) (simp_all only: getJSONvalue.simps)

lemma text_start:
  "json_text v t \<Longrightarrow> \<exists>c u. json_space (t @ r) = c # u \<and> c \<noteq> CHR '']''"
  "elements_text vs t \<Longrightarrow> True"
  "pairs_text ps t \<Longrightarrow> \<exists>u. t = quote # u"
proof (induction rule: json_text_elements_text_pairs_text.inducts)
  case (text_int sg d)
  then show ?case using number_start_text [of sg d r]
    by (auto simp: number_start_def is_digit_def json_space_def byte_def split: list.splits)
next
  case (text_float t)
  then show ?case using number_start_float [of t r]
    by (auto simp: number_start_def is_digit_def json_space_def byte_def split: list.splits)
next
  case (text_space w v t)
  then show ?case by (simp add: json_space_white)
qed (auto simp: json_space_def byte_def)

lemma white_end: "white w \<Longrightarrow> c \<in> {CHR '','', CHR ''}'', CHR '']''} \<Longrightarrow> number_end (w @ c # r)"
  by (cases w) (auto simp: white_def number_end_def)

lemma space_punct:
  "white w \<Longrightarrow> c \<in> {CHR '','', CHR ''}'', CHR '']'', CHR '':''} \<Longrightarrow> json_space (w @ c # r) = c # r"
  by (auto simp: json_space_white json_space_visible byte_def)

lemma text_parsed:
  "json_text v t \<Longrightarrow> number_end r \<Longrightarrow> 3 * length t < n \<Longrightarrow>
     getJSONvalue n atof (t @ r) = Some (Inr (json_cell atof v, r))"
  "elements_text vs t \<Longrightarrow> 3 * length t + 1 < n \<Longrightarrow>
     json_elements n atof acc (t @ r) = Some (Inr (CELL_EXPRESSION (acc @ map (json_cell atof) vs), r))"
  "pairs_text ps t \<Longrightarrow> 3 * length t < n \<Longrightarrow>
     json_pairs n atof acc (t @ r) =
       Some (Inr (CELL_EXPRESSION (acc @ map (\<lambda>(k, v). CELL_EXPRESSION [CELL_STRING k, json_cell atof v]) ps), r))"
proof (induction arbitrary: n r and n acc r and n acc r rule: json_text_elements_text_pairs_text.inducts)
  case (text_space w v t)
  then show ?case by (simp add: value_white)
next
  case (text_string s e)
  then obtain m where n: "n = Suc m" by (cases n) auto
  have "json_space (quote # e @ quote # r) = quote # e @ quote # r" by (simp add: json_space_visible byte_def)
  then show ?case using string_parsed [OF text_string(1), of r] by (simp add: n)
next
  case (text_int sg d)
  then obtain m where n: "n = Suc m" by (cases n) auto
  show ?case using text_int value_number [of "sg @ d @ r" m atof] number_start_text [of sg d r] int_parsed [of sg d r atof] by (simp add: n)
next
  case (text_float t)
  then obtain m where n: "n = Suc m" by (cases n) auto
  show ?case using text_float value_number [of "t @ r" m atof] number_start_float [of t r] float_parsed [of t r atof] by (simp add: n)
next
  case (text_empty_array w)
  then obtain m where n: "n = Suc (Suc m)" by (cases n; cases "n - 1") auto
  show ?case using text_empty_array
    by (simp add: n json_space_visible byte_def digit_chars space_punct)
next
  case (text_array vs t)
  then obtain m where n: "n = Suc m" by (cases n) auto
  have "json_elements m atof [] (t @ r) = Some (Inr (CELL_EXPRESSION ([] @ map (json_cell atof) vs), r))"
    by (rule text_array.IH) (use text_array.prems n in simp)
  then show ?case by (simp add: n json_space_visible byte_def digit_chars)
next
  case (text_empty_object w)
  then obtain m where n: "n = Suc (Suc m)" by (cases n; cases "n - 1") auto
  show ?case using text_empty_object
    by (simp add: n json_space_visible byte_def digit_chars space_punct)
next
  case (text_object w ps t)
  then obtain m where n: "n = Suc (Suc m)" by (cases n; cases "n - 1") auto
  obtain u where u: "t = quote # u" using text_start(3) [OF text_object(2)] by blast
  then have "json_space (w @ t @ r) = t @ r" using text_object(1) by (simp add: json_space_white json_space_visible byte_def)
  moreover have "json_pairs m atof [] (t @ r) =
      Some (Inr (CELL_EXPRESSION ([] @ map (\<lambda>(k, v). CELL_EXPRESSION [CELL_STRING k, json_cell atof v]) ps), r))"
    by (rule text_object.IH) (use text_object.prems n in simp)
  ultimately show ?case using u by (simp add: n json_space_visible byte_def digit_chars)
next
  case (text_last_element v t w)
  then obtain m where n: "n = Suc m" by (cases n) auto
  have "getJSONvalue m atof (t @ w @ CHR '']'' # r) = Some (Inr (json_cell atof v, w @ CHR '']'' # r))"
    by (rule text_last_element.IH) (use text_last_element n white_end in auto)
  then show ?case
    using text_start(1) [OF text_last_element(1), of "w @ CHR '']'' # r"] text_last_element(2)
    by (auto simp: n value_space Let_def space_punct)
next
  case (text_element v t w vs u)
  then obtain m where n: "n = Suc m" by (cases n) auto
  have "getJSONvalue m atof (t @ w @ CHR '','' # u @ r) = Some (Inr (json_cell atof v, w @ CHR '','' # u @ r))"
    by (rule text_element.IH) (use text_element n white_end in auto)
  moreover have "json_elements m atof (acc @ [json_cell atof v]) (u @ r) =
      Some (Inr (CELL_EXPRESSION ((acc @ [json_cell atof v]) @ map (json_cell atof) vs), r))"
    by (rule text_element.IH) (use text_element n in auto)
  ultimately show ?case
    using text_start(1) [OF text_element(1), of "w @ CHR '','' # u @ r"] text_element(2)
    by (auto simp: n value_space Let_def space_punct)
next
  case (text_last_pair k e w1 v t w2)
  then obtain m where n: "n = Suc m" by (cases n) auto
  have "getJSONvalue m atof (t @ w2 @ CHR ''}'' # r) = Some (Inr (json_cell atof v, w2 @ CHR ''}'' # r))"
    by (rule text_last_pair.IH) (use text_last_pair n white_end in auto)
  then show ?case
    using string_parsed [OF text_last_pair(1)] text_last_pair(2,4) by (simp add: n Let_def space_punct)
next
  case (text_pair k e w1 v t w2 w3 ps u)
  then obtain m where n: "n = Suc m" by (cases n) auto
  have "getJSONvalue m atof (t @ w2 @ CHR '','' # w3 @ u @ r) = Some (Inr (json_cell atof v, w2 @ CHR '','' # w3 @ u @ r))"
    by (rule text_pair.IH) (use text_pair n white_end in auto)
  moreover have "json_pairs m atof acc' (w3 @ u @ r) = json_pairs m atof acc' (u @ r)" for acc'
    using json_space_white [OF text_pair(5), of "u @ r"] by (cases m) (simp_all add: getJSONstring_def)
  moreover have "json_pairs m atof (acc @ [CELL_EXPRESSION [CELL_STRING k, json_cell atof v]]) (u @ r) =
      Some (Inr (CELL_EXPRESSION ((acc @ [CELL_EXPRESSION [CELL_STRING k, json_cell atof v]]) @
        map (\<lambda>(k, v). CELL_EXPRESSION [CELL_STRING k, json_cell atof v]) ps), r))"
    by (rule text_pair.IH) (use text_pair n in auto)
  ultimately show ?case
    using string_parsed [OF text_pair(1)] text_pair(2,4) by (simp add: n Let_def space_punct)
qed (auto simp: value_literal json_literal_def)

section \<open>The primitive\<close>

lemma cstr_id: "CHR 0x00 \<notin> set s \<Longrightarrow> cstr s = s"
  by (auto simp: cstr_def takeWhile_eq_all_conv)


text \<open>The text \<open>{"a": [1, true]}\<close>.\<close>

lemma small_json_text:
  "json_text (JObject [(''a'', JArray [JInt 1, JTrue])])
     (CHR ''{'' # [quote] @ ''a'' @ [quote] @ '': [1, true]}'')"
proof -
  have key: "string_text ''a'' ''a''" by (intro string_text.intros) auto
  have one: "json_text (JInt (atol ([] @ ''1''))) ([] @ ''1'')"
    by (rule text_int) (auto simp: sign_text_def digit_text_def is_digit_def byte_def)
  have atol1: "atol ([] @ ''1'') = 1" by (simp add: atol_def is_space_def is_digit_def byte_def)
  have "json_text JTrue ('' '' @ ''true'')" by (rule text_space) (auto simp: white_def text_true)
  then have "elements_text [JTrue] (('' '' @ ''true'') @ [] @ '']'')" by (rule text_last_element) (simp add: white_def)
  then have "elements_text [JInt 1, JTrue] (([] @ ''1'') @ [] @ CHR '','' # ('' '' @ ''true'') @ [] @ '']'')"
    using one unfolding atol1 by (intro text_element) (simp_all add: white_def)
  then have "json_text (JArray [JInt 1, JTrue]) ('' '' @ CHR ''['' # ([] @ ''1'') @ [] @ CHR '','' # ('' '' @ ''true'') @ [] @ '']'')"
    by (intro text_space text_array) (simp_all add: white_def)
  then have "pairs_text [(''a'', JArray [JInt 1, JTrue])]
      (quote # ''a'' @ quote # [] @ CHR '':'' # ('' '' @ CHR ''['' # ([] @ ''1'') @ [] @ CHR '','' # ('' '' @ ''true'') @ [] @ '']'') @ [] @ ''}'')"
    by (intro text_last_pair [OF key]) (simp_all add: white_def)
  from text_object [OF _ this, of "[]"] show ?thesis by (simp add: white_def)
qed



end
