(* ===== verification/NL_Reader.thy ===== *)
theory NL_Reader
  imports NL_Contexts NL_Utf8 NL_BigConv NL_Codec
begin

text \<open>
The reader of \<^verbatim>\<open>newlisp.c\<close>: the scanner \<^verbatim>\<open>getToken\<close>, \<^verbatim>\<open>readStreamText\<close> of \<^verbatim>\<open>nl-string.c\<close>, the
  function \<^verbatim>\<open>compileExpression\<close> that builds a cell from the tokens and creates the symbols it
  meets, and \<^verbatim>\<open>sysEvalString\<close> in the mode of \<^verbatim>\<open>read-expr\<close>. Streams are strings; a stream is the
  rest of its text. The recursion of \<^verbatim>\<open>compileExpression\<close> and its jump to \<^verbatim>\<open>GETNEXT\<close> spend one
  unit of fuel each; one unit more than the text is long is shown to be enough, because every
  token but the last consumes a character. Errors are raised outside of the debugger's trace
  mode, where raising one ends the function.
\<close>

section \<open>The scanner\<close>

text \<open>A stream is the rest of its text; its end is the terminating NUL, which \<open>char_at\<close> returns there.\<close>

definition char_at :: "nat \<Rightarrow> string \<Rightarrow> char" where
  "char_at k s = (if k < length s then s ! k else CHR 0x00)"

definition MAX_STRING :: nat where "MAX_STRING = 2048"
definition MAX_SYMBOL :: nat where "MAX_SYMBOL = 1023"
definition MAX_DIGITS :: nat where "MAX_DIGITS = 1001"

datatype token =
    TKN_ERROR
  | TKN_EMPTY
  | TKN_HEX string
  | TKN_OCTAL string
  | TKN_BINARY string
  | TKN_DECIMAL string
  | TKN_FLOAT string
  | TKN_STRING string
  | TKN_SYMBOL string
  | TKN_CONTEXT string
  | TKN_LEFT_PAR
  | TKN_RIGHT_PAR
  | TKN_QUOTE

text \<open>White space and comments in front of a token.\<close>

fun skip_blank :: "string \<Rightarrow> string" and skip_comment :: "string \<Rightarrow> string" where
  "skip_blank [] = []"
| "skip_blank (c # s) =
     (if byte c \<le> 32 then skip_blank s
      else if c = CHR '';'' \<or> c = CHR ''#'' then skip_comment s
      else c # s)"
| "skip_comment [] = []"
| "skip_comment (c # s) =
     (if c = CHR 0x0A \<or> c = CHR 0x0D then skip_blank s else skip_comment s)"

text \<open>A copying loop that takes at most as many characters as the token has room for.\<close>

fun scan :: "(char \<Rightarrow> bool) \<Rightarrow> nat \<Rightarrow> string \<Rightarrow> string \<times> string" where
  "scan P 0 s = ([], s)"
| "scan P (Suc k) [] = ([], [])"
| "scan P (Suc k) (c # s) = (if P c then map_prod ((#) c) id (scan P k s) else ([], c # s))"

definition is_xdigit :: "char \<Rightarrow> bool" where
  "is_xdigit c \<longleftrightarrow> hex_value c \<noteq> None"

definition is_octal :: "char \<Rightarrow> bool" where
  "is_octal c \<longleftrightarrow> 48 \<le> byte c \<and> byte c < 56"

text \<open>A number behind its sign \<open>pre\<close>. The loop of an octal number has no limit: a token longer than
  the buffer is written past its end. With an exponent letter as the last character, the code
  looks two characters further, behind the terminator.\<close>

definition exponent_token :: "bool \<Rightarrow> string \<Rightarrow> string \<Rightarrow> (token \<times> string) result" where
  "exponent_token floatFlag tkn s =
     (if length s < 2 then Inl C_UNDEFINED
      else let (tkn1, s1) = (if is_digit (char_at 2 s) \<and> (char_at 1 s = CHR ''-'' \<or> char_at 1 s = CHR ''+'')
                             then (tkn @ [hd s], tl s) else (tkn, s))
           in if is_digit (char_at 1 s1)
              then (let (ds, s2) = scan is_digit (MAX_SYMBOL - (length tkn1 + 1)) (tl s1)
                    in Inr (TKN_FLOAT (tkn1 @ [hd s1] @ ds), s2))
              else Inr (if floatFlag then TKN_FLOAT tkn1 else TKN_DECIMAL tkn1, s1))"

definition number_token :: "char \<Rightarrow> string \<Rightarrow> string \<Rightarrow> (token \<times> string) result" where
  "number_token dp pre s =
     (if char_at 0 s = CHR ''0'' \<and> is_digit (char_at 1 s)
      then (let tkn = pre @ hd s # takeWhile is_octal (tl s)
            in if length tkn < MAX_STRING + 4 then Inr (TKN_OCTAL tkn, dropWhile is_octal (tl s))
               else Inl C_UNDEFINED)
      else
        let (ds, s1) = scan is_digit (MAX_DIGITS - length pre) s;
            tkn = pre @ ds
        in if (char_at 0 s1 = CHR ''X'' \<or> char_at 0 s1 = CHR ''x'') \<and> char_at 0 tkn = CHR ''0''
           then (let (hs, s2) = scan is_xdigit (MAX_DIGITS - (length tkn + 1)) (tl s1)
                 in Inr (TKN_HEX (tkn @ [hd s1] @ hs), s2))
           else if (char_at 0 s1 = CHR ''B'' \<or> char_at 0 s1 = CHR ''b'') \<and> char_at 0 tkn = CHR ''0''
           then (let (bs, s2) = scan (\<lambda>c. c = CHR ''0'' \<or> c = CHR ''1'') (MAX_DIGITS - (length tkn + 1)) (tl s1)
                 in Inr (TKN_BINARY (tkn @ [hd s1] @ bs), s2))
           else if char_at 0 s1 = dp
           then (let (fs, s2) = scan is_digit (MAX_DIGITS - (length tkn + 1)) (tl s1);
                     tkn1 = tkn @ [hd s1] @ fs
                 in if char_at 0 s2 = CHR ''E'' \<or> char_at 0 s2 = CHR ''e'' then exponent_token True tkn1 s2
                    else Inr (TKN_FLOAT tkn1, s2))
           else if char_at 0 s1 = CHR ''E'' \<or> char_at 0 s1 = CHR ''e'' then exponent_token False tkn s1
           else if char_at 0 s1 = CHR ''L'' then Inr (TKN_DECIMAL (tkn @ [hd s1]), tl s1)
           else Inr (TKN_DECIMAL tkn, s1))"

text \<open>The text of a string in double quotes: \<open>n\<close> is the length of the token so far. A backslash at
  the end of the text is the error of a string that is too long.\<close>

definition escaped :: "char \<Rightarrow> char" where
  "escaped c =
     (if c = CHR ''n'' then CHR 0x0A else if c = CHR ''b'' then CHR 0x08
      else if c = CHR ''f'' then CHR 0x0C else if c = CHR ''r'' then CHR 0x0D
      else if c = CHR ''t'' then CHR 0x09 else c)"

definition radix :: "int \<Rightarrow> string \<Rightarrow> int" where
  "radix b s = foldl (\<lambda>n c. b * n + (case hex_value c of None \<Rightarrow> 0 | Some d \<Rightarrow> d)) 0 s"

text \<open>What an escape sequence stands for, and its length behind the backslash.\<close>

definition read_escape :: "string \<Rightarrow> string \<times> nat" where
  "read_escape t =
     (if is_digit (char_at 0 t) \<and> is_digit (char_at 1 t) \<and> is_digit (char_at 2 t)
      then ([char_of (radix 10 (take 3 t))], 3)
      else if char_at 0 t = CHR ''x'' \<and> is_xdigit (char_at 1 t) \<and> is_xdigit (char_at 2 t)
      then ([char_of (radix 16 (take 2 (tl t)))], 3)
      else if (char_at 0 t = CHR ''x'' \<or> char_at 0 t = CHR ''u'') \<and> is_xdigit (char_at 1 t) \<and> is_xdigit (char_at 2 t)
        \<and> is_xdigit (char_at 3 t) \<and> is_xdigit (char_at 4 t)
      then (wchar_utf8 (radix 16 (take 4 (tl t))), 5)
      else ([escaped (hd t)], 1))"

function read_string :: "nat \<Rightarrow> string \<Rightarrow> (string \<times> string) result" where
  "read_string n s =
     (if s = [] \<or> hd s = CHR 0x22 \<or> n \<ge> MAX_STRING then Inr ([], s)
      else if hd s \<noteq> CHR 0x5C then map_sum id (map_prod ((#) (hd s)) id) (read_string (n + 1) (tl s))
      else if tl s = [] then Inl ERR_STRING_TOO_LONG
      else let (u, k) = read_escape (tl s)
           in map_sum id (map_prod ((@) u) id) (read_string (n + length u) (drop k (tl s))))"
  by pat_completeness auto
termination
  by (relation "measure (length \<circ> snd)") (auto simp: less_diff_conv2 diff_less_Suc)

declare read_string.simps [simp del]

text \<open>The text of a string in braces, and a text between tags.\<close>

fun read_braces :: "nat \<Rightarrow> int \<Rightarrow> string \<Rightarrow> string \<times> string" where
  "read_braces n balance [] = ([], [])"
| "read_braces n balance (c # s) =
     (if n \<ge> MAX_STRING then ([], c # s)
      else let balance1 = (if c = CHR ''{'' then balance + 1 else if c = CHR ''}'' then balance - 1 else balance)
           in if balance1 = 0 then ([], c # s) else map_prod ((#) c) id (read_braces (n + 1) balance1 s))"

definition LIMIT :: string where "LIMIT = ''[/text]''"

fun readStreamText :: "string \<Rightarrow> (string \<times> string) option" where
  "readStreamText [] = None"
| "readStreamText (c # s) =
     (if take 7 (c # s) = LIMIT then Some ([], drop 7 (c # s))
      else map_option (map_prod ((#) c) id) (readStreamText s))"

definition symbol_char :: "char \<Rightarrow> bool" where
  "symbol_char c \<longleftrightarrow> byte c > 32 \<and> c \<noteq> CHR 0x22 \<and> c \<noteq> CHR 0x27 \<and> c \<noteq> CHR ''('' \<and> c \<noteq> CHR '')'' \<and>
     c \<noteq> CHR '':'' \<and> c \<noteq> CHR '',''"

text \<open>Every other token: \<open>c\<close> is its first character, \<open>pre\<close> what was copied before it.\<close>

definition word_token :: "string \<Rightarrow> char \<Rightarrow> string \<Rightarrow> (token \<times> string) result" where
  "word_token pre c s =
     (if c = CHR 0x22
      then (case read_string (length pre) s of
              Inl e \<Rightarrow> Inl e
            | Inr (t, r) \<Rightarrow> if char_at 0 r = CHR 0x22 then Inr (TKN_STRING (pre @ t), tl r) else Inl ERR_STRING_TOO_LONG)
      else if c = CHR 0x27 then Inr (TKN_QUOTE, s)
      else if c = CHR ''('' then Inr (TKN_LEFT_PAR, s)
      else if c = CHR '')'' then Inr (TKN_RIGHT_PAR, s)
      else if c = CHR ''{''
      then (case read_braces (length pre) 1 s of
              (t, r) \<Rightarrow> if char_at 0 r = CHR ''}'' then Inr (TKN_STRING (pre @ t), tl r) else Inl ERR_STRING_TOO_LONG)
      else if c = CHR '','' \<or> c = CHR '':'' then Inr (TKN_SYMBOL (pre @ [c]), s)
      else if c = CHR ''[''
      then (case scan (\<lambda>d. d \<noteq> CHR '']'') (MAX_SYMBOL - (length pre + 1)) s of
              (t, r) \<Rightarrow> if r = [] then Inr (TKN_ERROR, r) else Inr (TKN_SYMBOL (pre @ [c] @ t @ '']''), tl r))
      else (case scan symbol_char (MAX_SYMBOL - (length pre + 1)) s of
              (t, r) \<Rightarrow> if char_at 0 r = CHR '':'' then Inr (TKN_CONTEXT (pre @ [c] @ t), tl r)
                        else Inr (TKN_SYMBOL (pre @ [c] @ t), r)))"

definition getToken :: "char \<Rightarrow> string \<Rightarrow> (token \<times> string) result" where
  "getToken dp stream =
     (let s = skip_blank stream
      in if s = [] then Inr (TKN_EMPTY, [])
         else let (pre, s1) = (if (char_at 0 s = CHR ''-'' \<or> char_at 0 s = CHR ''+'') \<and> (is_digit (char_at 1 s) \<or> char_at 1 s = dp)
                               then ([hd s], tl s) else ([], s))
              in if is_digit (char_at 0 s1) \<or> char_at 0 s1 = dp \<and> is_digit (char_at 1 s1) then number_token dp pre s1
                 else word_token pre (hd s1) (tl s1))"

section \<open>The reader\<close>

text \<open>What the reader takes from its surroundings: the decimal point of the locale, the library's
  \<^verbatim>\<open>atof\<close>, which symbols name macros, the evaluation that expands a macro, and the current
  context.\<close>

record reader =
  lc_decimal_point :: char
  lib_atof :: "string \<Rightarrow> dbl"
  is_macro :: "symbol \<Rightarrow> bool"
  expand_macro :: "cell \<Rightarrow> contexts \<Rightarrow> (cell \<times> contexts) result"
  currentContext :: string

text \<open>The state: the stream, the number of open parentheses (\<^verbatim>\<open>parStackCounter\<close>) and the symbols.\<close>

record reading =
  stream :: string
  parStack :: int
  tables :: contexts

definition ULLONG_MAX :: int where "ULLONG_MAX = 2 ^ 64 - 1"

text \<open>A sign and the digits behind it; \<^verbatim>\<open>strtoll\<close> and \<^verbatim>\<open>strtoull\<close> stop at the largest value.\<close>

definition signed_radix :: "int \<Rightarrow> string \<Rightarrow> int" where
  "signed_radix b s =
     (if char_at 0 s = CHR ''-'' then - radix b (tl s)
      else if char_at 0 s = CHR ''+'' then radix b (tl s) else radix b s)"

definition clamp64 :: "int \<Rightarrow> int" where
  "clamp64 n = max (- (2 ^ 63)) (min (2 ^ 63 - 1) n)"

definition stuffBigint :: "string \<Rightarrow> cell" where
  "stuffBigint token = CELL_BIGINT (strToBigint token (length token))"

definition decimal_cell :: "string \<Rightarrow> cell" where
  "decimal_cell token =
     (if last token = CHR ''L'' then stuffBigint token
      else if int64 (signed_radix 10 token) then CELL_LONG (signed_radix 10 token)
      else stuffBigint token)"

text \<open>Symbols of a name that starts with a dollar sign belong to MAIN and become global.\<close>

definition set_global :: "symbol \<Rightarrow> contexts \<Rightarrow> contexts" where
  "set_global s C =
     (case find (sname s) (C (scontext s)) [] of
        (NIL_SYM, p) \<Rightarrow> C
      | (Sym c l e r, p) \<Rightarrow> C(scontext s := plug (Sym c l (fst e, (snd e)\<lparr>sym_global := True\<rparr>) r) p))"

definition or_undefined :: "'a option \<Rightarrow> 'a result" where
  "or_undefined x = (case x of None \<Rightarrow> Inl C_UNDEFINED | Some y \<Rightarrow> Inr y)"

definition read_symbol :: "string \<Rightarrow> string \<Rightarrow> contexts \<Rightarrow> (cell \<times> contexts) result" where
  "read_symbol current token C =
     (if char_at 0 token = CHR ''$''
      then map_sum id (\<lambda>(s, D). (CELL_SYMBOL s, set_global s D))
             (or_undefined (translateCreateSymbol token AS_NIL MAIN True C))
      else map_sum id (map_prod CELL_SYMBOL id)
             (or_undefined (translateCreateSymbol token AS_NIL current False C)))"

text \<open>The symbol that a prefix \<open>token:\<close> means: the current context, a symbol of the current context, or
  a context symbol of MAIN, which is created if there is none.\<close>

definition prefix_symbol :: "string \<Rightarrow> string \<Rightarrow> contexts \<Rightarrow> (symbol \<times> contexts) result" where
  "prefix_symbol current token C =
     (if current \<noteq> MAIN \<and> current = token then Inr (\<lparr>scontext = MAIN, sname = token\<rparr>, C)
      else if current \<noteq> MAIN \<and> lookupSymbol token current C = None then Inl C_UNDEFINED
      else if current \<noteq> MAIN \<and> lookupSymbol token current C \<noteq> Some None
      then Inr (\<lparr>scontext = current, sname = token\<rparr>, C)
      else or_undefined (translateCreateSymbol token AS_CONTEXT MAIN True C))"

definition contents_of :: "symbol \<Rightarrow> contexts \<Rightarrow> cell result" where
  "contents_of s C =
     (case lookupSymbol (sname s) (scontext s) C of Some (Some i) \<Rightarrow> Inr (sym_contents i) | _ \<Rightarrow> Inl C_UNDEFINED)"

definition read_qualified :: "reader \<Rightarrow> string \<Rightarrow> reading \<Rightarrow> (cell \<times> reading) result" where
  "read_qualified R token st =
     (case prefix_symbol (currentContext R) token (tables st) of
        Inl e \<Rightarrow> Inl e
      | Inr (ctx, C) \<Rightarrow>
          (case getToken (lc_decimal_point R) (stream st) of
             Inl e \<Rightarrow> Inl e
           | Inr (TKN_SYMBOL name, rest) \<Rightarrow>
               (case contents_of ctx C of
                  Inl e \<Rightarrow> Inl e
                | Inr c \<Rightarrow>
                    if c \<noteq> CELL_CONTEXT ctx
                    then Inr (CELL_DYN_SYMBOL (sname ctx) name, st\<lparr>stream := rest, tables := C\<rparr>)
                    else map_sum id (\<lambda>(s, D). (CELL_SYMBOL s, st\<lparr>stream := rest, tables := D\<rparr>))
                           (or_undefined (translateCreateSymbol name AS_NIL (sname ctx) True C)))
           | Inr (_, rest) \<Rightarrow> Inl ERR_SYMBOL_EXPECTED))"

text \<open>The tokens that are a whole expression. The stream of \<open>st\<close> is what follows the token.\<close>

definition atom_cell :: "reader \<Rightarrow> token \<Rightarrow> reading \<Rightarrow> (cell \<times> reading) result" where
  "atom_cell R tkn st =
     (case tkn of
        TKN_HEX t \<Rightarrow> Inr (CELL_LONG (wrap64 (min ULLONG_MAX (radix 16 (drop 2 t)))), st)
      | TKN_BINARY t \<Rightarrow> Inr (CELL_LONG (wrap64 (min ULLONG_MAX (radix 2 (drop 2 t)))), st)
      | TKN_OCTAL t \<Rightarrow> Inr (CELL_LONG (clamp64 (signed_radix 8 t)), st)
      | TKN_DECIMAL t \<Rightarrow> Inr (decimal_cell t, st)
      | TKN_FLOAT t \<Rightarrow> Inr (CELL_FLOAT (lib_atof R t), st)
      | TKN_STRING t \<Rightarrow> Inr (CELL_STRING t, st)
      | TKN_SYMBOL t \<Rightarrow>
          if take 6 t = ''[text]''
          then (case readStreamText (stream st) of
                  None \<Rightarrow> Inl ERR_TEXT_END_TAG
                | Some (text, rest) \<Rightarrow> Inr (CELL_STRING text, st\<lparr>stream := rest\<rparr>))
          else map_sum id (\<lambda>(c, C). (c, st\<lparr>tables := C\<rparr>)) (read_symbol (currentContext R) t (tables st))
      | TKN_CONTEXT t \<Rightarrow> read_qualified R t st
      | _ \<Rightarrow> Inl ERR_EXPRESSION)"

text \<open>The cell under construction, to which \<open>linkCell\<close> adds: an envelope takes its first item
  (\<open>listFlag\<close>), later ones follow the last item. The pointer \<^verbatim>\<open>cell\<close> of the code is the envelope or its
  last item accordingly; \<open>retype\<close> changes the type of the cell it points to, if that is a list.\<close>

fun linkCell :: "cell \<Rightarrow> cell \<Rightarrow> cell" where
  "linkCell (CELL_QUOTE q) c = CELL_QUOTE c"
| "linkCell (CELL_EXPRESSION xs) c = CELL_EXPRESSION (xs @ [c])"
| "linkCell (CELL_LAMBDA xs) c = CELL_LAMBDA (xs @ [c])"
| "linkCell (CELL_FEXPR xs) c = CELL_FEXPR (xs @ [c])"
| "linkCell env c = env"

fun items :: "cell \<Rightarrow> cell list" where
  "items (CELL_EXPRESSION xs) = xs"
| "items (CELL_LAMBDA xs) = xs"
| "items (CELL_FEXPR xs) = xs"
| "items c = []"

fun with_items :: "cell \<Rightarrow> cell list \<Rightarrow> cell" where
  "with_items (CELL_EXPRESSION xs) ys = CELL_EXPRESSION ys"
| "with_items (CELL_LAMBDA xs) ys = CELL_LAMBDA ys"
| "with_items (CELL_FEXPR xs) ys = CELL_FEXPR ys"
| "with_items c ys = c"

fun retype :: "(cell list \<Rightarrow> cell) \<Rightarrow> cell \<Rightarrow> cell option" where
  "retype mk (CELL_EXPRESSION xs) = Some (mk xs)"
| "retype mk c = None"

definition retype_at :: "(cell list \<Rightarrow> cell) \<Rightarrow> cell \<Rightarrow> bool \<Rightarrow> cell option" where
  "retype_at mk env listFlag =
     (if listFlag then retype mk env
      else map_option (\<lambda>c. with_items env (butlast (items env) @ [c])) (retype mk (last (items env))))"

definition lambda_type :: "string \<Rightarrow> (cell list \<Rightarrow> cell) option" where
  "lambda_type token =
     (if token = ''lambda'' \<or> token = ''fn'' then Some CELL_LAMBDA
      else if token = ''lambda-macro'' \<or> token = ''fn-macro'' then Some CELL_FEXPR
      else None)"

fun isQuote :: "cell \<Rightarrow> bool" where
  "isQuote (CELL_QUOTE q) = True"
| "isQuote c = False"

text \<open>The value of a call: the envelope, the flag it returns and the state. \<open>rec\<close> stands for the
  calls and for the jump to \<open>GETNEXT\<close>.\<close>

type_synonym read_result = "(cell \<times> bool \<times> reading) result option"

definition after_call :: "read_result \<Rightarrow> (cell \<Rightarrow> reading \<Rightarrow> read_result) \<Rightarrow> read_result" where
  "after_call r g =
     (case r of
        None \<Rightarrow> None
      | Some (Inl e) \<Rightarrow> Some (Inl e)
      | Some (Inr (c, flag, st)) \<Rightarrow> g c st)"

definition after_cell :: "(cell \<times> reading) result \<Rightarrow> (cell \<Rightarrow> reading \<Rightarrow> read_result) \<Rightarrow> read_result" where
  "after_cell r g = (case r of Inl e \<Rightarrow> Some (Inl e) | Inr (c, st) \<Rightarrow> g c st)"

definition link_next ::
  "(cell \<Rightarrow> bool \<Rightarrow> reading \<Rightarrow> read_result) \<Rightarrow> cell \<Rightarrow> bool \<Rightarrow> cell \<Rightarrow> reading \<Rightarrow> read_result" where
  "link_next rec env listFlag newCell st =
     (let env1 = linkCell env newCell
      in if isQuote env \<and> listFlag then Some (Inr (env1, True, st))
         else if parStack st = 0 then Some (Inr (env1, False, st))
         else if stream st = [] then Some (Inl ERR_MISSING_PAR)
         else rec env1 False st)"

definition expand_list :: "reader \<Rightarrow> cell \<Rightarrow> reading \<Rightarrow> (cell \<times> reading) result" where
  "expand_list R newCell st =
     (case items newCell of
        CELL_SYMBOL s # xs \<Rightarrow>
          if is_macro R s
          then map_sum id (\<lambda>(c, C). (c, st\<lparr>tables := C\<rparr>)) (expand_macro R newCell (tables st))
          else Inr (newCell, st)
      | _ \<Rightarrow> Inr (newCell, st))"

text \<open>The lambda words change the type of a list and add no item.\<close>

fun lambda_token :: "token \<Rightarrow> (cell list \<Rightarrow> cell) option" where
  "lambda_token (TKN_SYMBOL t) = lambda_type t"
| "lambda_token x = None"

definition read_token ::
  "(cell \<Rightarrow> bool \<Rightarrow> reading \<Rightarrow> read_result) \<Rightarrow> reader \<Rightarrow> cell \<Rightarrow> bool \<Rightarrow> token \<Rightarrow> reading \<Rightarrow> read_result" where
  "read_token rec R env listFlag tkn st =
     (case tkn of
        TKN_ERROR \<Rightarrow> Some (Inl ERR_EXPRESSION)
      | TKN_EMPTY \<Rightarrow> Some (if parStack st \<noteq> 0 then Inl ERR_MISSING_PAR else Inr (env, False, st))
      | TKN_RIGHT_PAR \<Rightarrow>
          Some (if parStack st = 0 then Inl ERR_MISSING_PAR
                else Inr (env, True, st\<lparr>parStack := parStack st - 1\<rparr>))
      | TKN_QUOTE \<Rightarrow> after_call (rec (CELL_QUOTE CELL_NIL) True st) (link_next rec env listFlag)
      | TKN_LEFT_PAR \<Rightarrow>
          after_call (rec (CELL_EXPRESSION []) True (st\<lparr>parStack := parStack st + 1\<rparr>))
            (\<lambda>l st1. after_cell (expand_list R l st1) (link_next rec env listFlag))
      | _ \<Rightarrow>
          (case lambda_token tkn of
             Some mk \<Rightarrow>
               (case retype_at mk env listFlag of
                  None \<Rightarrow> Some (Inl ERR_INVALID_LAMBDA)
                | Some env1 \<Rightarrow> rec env1 listFlag st)
           | None \<Rightarrow> after_cell (atom_cell R tkn st) (link_next rec env listFlag)))"

definition read_step ::
  "(cell \<Rightarrow> bool \<Rightarrow> reading \<Rightarrow> read_result) \<Rightarrow> reader \<Rightarrow> cell \<Rightarrow> bool \<Rightarrow> reading \<Rightarrow> read_result" where
  "read_step rec R env listFlag st =
     (case getToken (lc_decimal_point R) (stream st) of
        Inl e \<Rightarrow> Some (Inl e)
      | Inr (tkn, rest) \<Rightarrow> read_token rec R env listFlag tkn (st\<lparr>stream := rest\<rparr>))"

primrec compileExpression :: "nat \<Rightarrow> reader \<Rightarrow> cell \<Rightarrow> bool \<Rightarrow> reading \<Rightarrow> read_result" where
  "compileExpression 0 R env listFlag st = None"
| "compileExpression (Suc n) R env listFlag st = read_step (compileExpression n R) R env listFlag st"

text \<open>Reading the first expression of a string (\<^verbatim>\<open>sysEvalString\<close> in the mode of
  \<^verbatim>\<open>read-expr\<close>): the expression and the new value of \<^verbatim>\<open>countCell\<close>, the number of characters
  read, or \<open>nil\<close> when the text holds no expression.\<close>

definition read_expr :: "reader \<Rightarrow> string \<Rightarrow> contexts \<Rightarrow> (cell \<times> int option \<times> contexts) result option" where
  "read_expr R str C =
     (let s = cstr str
      in map_option
           (map_sum id (\<lambda>(program, flag, st).
              (case program of
                 CELL_QUOTE c \<Rightarrow>
                   if flag then (c, Some (int (length s) - int (length (stream st))), tables st)
                   else (CELL_NIL, None, tables st)
               | _ \<Rightarrow> (CELL_NIL, None, tables st))))
           (compileExpression (length s + 1) R (CELL_QUOTE CELL_NIL) True
              \<lparr>stream = s, parStack = 0, tables = C\<rparr>))"

section \<open>The reader returns\<close>

lemma skip_length:
  "length (skip_blank s) \<le> length s" "length (skip_comment s) \<le> length s"
  by (induction s and s rule: skip_blank_skip_comment.induct) auto

lemma scan_length: "length (snd (scan P k s)) \<le> length s"
  by (induction P k s rule: scan.induct) auto

lemma scan_append: "fst (scan P k s) @ snd (scan P k s) = s"
  by (induction P k s rule: scan.induct) auto

lemma read_string_length: "read_string n s = Inr (t, r) \<Longrightarrow> length r \<le> length s"
proof (induction n s arbitrary: t rule: read_string.induct)
  case (1 n s)
  obtain u k where u: "read_escape (tl s) = (u, k)" by fastforce
  consider "s = [] \<or> hd s = CHR 0x22 \<or> n \<ge> MAX_STRING"
    | "\<not> (s = [] \<or> hd s = CHR 0x22 \<or> n \<ge> MAX_STRING)" "hd s \<noteq> CHR 0x5C"
    | "\<not> (s = [] \<or> hd s = CHR 0x22 \<or> n \<ge> MAX_STRING)" "hd s = CHR 0x5C" by blast
  then show ?case
  proof cases
    case 1
    then show ?thesis using "1.prems" by (simp add: read_string.simps [of n s])
  next
    case 2
    then obtain v where "read_string (n + 1) (tl s) = Inr (v, r)"
      using "1.prems" by (cases "read_string (n + 1) (tl s)") (auto simp: read_string.simps [of n s])
    from "1.IH"(1) [OF 2 this] show ?thesis by simp
  next
    case 3
    then obtain v where v: "tl s \<noteq> []" "read_string (n + length u) (drop k (tl s)) = Inr (v, r)"
      using "1.prems" u
      by (cases "read_string (n + length u) (drop k (tl s))") (auto simp: read_string.simps [of n s] split: if_splits)
    have "length r \<le> length (drop k (tl s))" by (rule "1.IH"(2)) (use 3 u v in auto)
    then show ?thesis by simp
  qed
qed

lemma read_braces_length: "length (snd (read_braces n b s)) \<le> length s"
  by (induction n b s rule: read_braces.induct) (auto simp: Let_def)

lemma readStreamText_length: "readStreamText s = Some (t, r) \<Longrightarrow> length r \<le> length s"
proof (induction s arbitrary: t)
  case (Cons c s)
  then show ?case by (cases "take 7 (c # s) = LIMIT") force+
qed simp

lemma scan_split: "scan P k s = (t, r) \<Longrightarrow> length r \<le> length s"
  using scan_length [of P k s] by simp

lemma exponent_token_length: "exponent_token f tkn s = Inr (x, r) \<Longrightarrow> length r \<le> length s"
  by (auto simp: exponent_token_def Let_def split: if_splits prod.splits dest!: scan_split)

lemma scan_digit:
  "is_digit (char_at 0 s) \<Longrightarrow> 0 < k \<Longrightarrow> scan is_digit k s = (t, r) \<Longrightarrow> length r < length s"
  using scan_length [of is_digit "k - 1" "tl s"]
  by (cases s; cases k) (auto simp: char_at_def is_digit_def map_prod_def split: prod.splits)

lemma number_token_length:
  assumes "number_token dp pre s = Inr (x, r)" "length pre \<le> 1"
    "is_digit (char_at 0 s) \<or> char_at 0 s = dp \<and> is_digit (char_at 1 s)"
  shows "length r < length s"
proof (cases "char_at 0 s = CHR ''0'' \<and> is_digit (char_at 1 s)")
  case True
  then have "s \<noteq> []" by (auto simp: char_at_def)
  then have "length (dropWhile is_octal (tl s)) < length s"
    using length_dropWhile_le [of is_octal "tl s"] by (cases s) auto
  then show ?thesis using assms(1) True by (auto simp: number_token_def Let_def split: if_splits)
next
  case False
  obtain ds s1 where sc: "scan is_digit (MAX_DIGITS - length pre) s = (ds, s1)" by fastforce
  have k: "0 < MAX_DIGITS - length pre" using assms(2) by (simp add: MAX_DIGITS_def)
  have le: "length s1 \<le> length s" using scan_split [OF sc] .
  have lt: "length s1 < length s" if "is_digit (char_at 0 s)" using scan_digit [OF that k sc] .
  have eq: "s1 = s" if "\<not> is_digit (char_at 0 s)"
    using sc that by (cases s; cases "MAX_DIGITS - length pre") (auto simp: char_at_def)
  have drop: "length r < length s" if "length r \<le> length (tl s1)"
    using that le lt eq assms(3) by (cases s1) (auto simp: char_at_def)
  have e: "length r \<le> length y" if "exponent_token f t y = Inr (x, r)" for f t y
    using exponent_token_length [OF that] .
  have number: "length r \<le> length s1 \<and> (length r \<le> length (tl s1) \<or> char_at 0 s1 \<noteq> dp)"
    using assms(1) False sc e scan_split
    by (fastforce simp: number_token_def Let_def split: if_splits prod.splits)
  show ?thesis
  proof (cases "is_digit (char_at 0 s)")
    case True
    then show ?thesis using number lt by linarith
  next
    case False
    then show ?thesis using number eq assms(3) drop by auto
  qed
qed

lemma word_token_length: "word_token pre c s = Inr (x, r) \<Longrightarrow> length r \<le> length s"
proof -
  assume w: "word_token pre c s = Inr (x, r)"
  have t: "length (tl y) \<le> length s" if "length y \<le> length s" for y :: string using that by simp
  show ?thesis
    using w read_string_length [of "length pre" s] read_braces_length [of "length pre" 1 s]
      scan_length [of "\<lambda>d. d \<noteq> CHR '']''" "MAX_SYMBOL - (length pre + 1)" s]
      scan_length [of symbol_char "MAX_SYMBOL - (length pre + 1)" s]
    by (auto simp: word_token_def t split: if_splits sum.splits prod.splits)
qed

lemma getToken_length:
  assumes "getToken dp s = Inr (x, r)" "dp \<noteq> CHR 0x00"
  shows "length r \<le> length s" "x \<noteq> TKN_EMPTY \<Longrightarrow> length r < length s" "x = TKN_EMPTY \<longleftrightarrow> skip_blank s = []"
proof -
  let ?s = "skip_blank s"
  have word: "y \<noteq> TKN_EMPTY" if "word_token pre c t = Inr (y, q)" for pre c t y q
    using that by (auto simp: word_token_def split: if_splits sum.splits prod.splits)
  have num: "y \<noteq> TKN_EMPTY" if "number_token dp pre t = Inr (y, q)" for pre t y q
    using that by (auto simp: number_token_def exponent_token_def Let_def split: if_splits prod.splits)
  have "?s \<noteq> [] \<longrightarrow> length r < length ?s \<and> x \<noteq> TKN_EMPTY"
  proof
    assume ne: "?s \<noteq> []"
    define P where "P = ((char_at 0 ?s = CHR ''-'' \<or> char_at 0 ?s = CHR ''+'') \<and> (is_digit (char_at 1 ?s) \<or> char_at 1 ?s = dp))"
    define pre where "pre = (if P then [hd ?s] else [])"
    define s1 where "s1 = (if P then tl ?s else ?s)"
    have tok: "(if is_digit (char_at 0 s1) \<or> char_at 0 s1 = dp \<and> is_digit (char_at 1 s1) then number_token dp pre s1
               else word_token pre (hd s1) (tl s1)) = Inr (x, r)"
      using assms(1) ne by (auto simp: getToken_def Let_def P_def pre_def s1_def)
    have s1: "s1 \<noteq> []" "length s1 \<le> length ?s" using ne assms(2)
      by (cases ?s; auto simp: s1_def P_def char_at_def is_digit_def split: if_splits)+
    have "length pre \<le> 1" by (simp add: pre_def)
    then show "length r < length ?s \<and> x \<noteq> TKN_EMPTY"
      using tok s1 number_token_length [of dp pre s1 x r] word_token_length [of pre "hd s1" "tl s1" x r] word num
      by (cases s1) (auto split: if_splits)
  qed
  moreover have "?s = [] \<longrightarrow> x = TKN_EMPTY \<and> r = []"
    using assms(1) by (auto simp: getToken_def)
  ultimately show "length r \<le> length s" "x \<noteq> TKN_EMPTY \<Longrightarrow> length r < length s" "x = TKN_EMPTY \<longleftrightarrow> ?s = []"
    using skip_length(1) [of s] by auto
qed

lemma atom_cell_length:
  assumes "atom_cell R x st = Inr (c, st')" "lc_decimal_point R \<noteq> CHR 0x00"
  shows "length (stream st') \<le> length (stream st)"
proof -
  have q: "length (stream st') \<le> length (stream st)" if "read_qualified R t st = Inr (c, st')" for t
    using that assms(2) getToken_length(1) [of "lc_decimal_point R" "stream st"]
    by (auto simp: read_qualified_def or_undefined_def split: sum.splits prod.splits token.splits option.splits if_splits)
  show ?thesis
  proof (cases x)
    case (TKN_SYMBOL t)
    then show ?thesis using assms(1) readStreamText_length [of "stream st"]
      by (cases "read_symbol (currentContext R) t (tables st)"; fastforce simp: atom_cell_def split: option.splits if_splits)
  qed (use assms q in \<open>auto simp: atom_cell_def\<close>)
qed

lemma expand_list_stream: "expand_list R l st = Inr (c, st') \<Longrightarrow> stream st' = stream st"
  by (cases "expand_macro R l (tables st)") (auto simp: expand_list_def split: list.splits cell.splits if_splits)

text \<open>Running with enough fuel: a result, which leaves no more than it was given, and less when there was an expression.\<close>

definition read_ok :: "nat \<Rightarrow> read_result \<Rightarrow> bool" where
  "read_ok n r \<longleftrightarrow> (\<exists>x. r = Some x \<and> 
     (\<forall>env f st. x = Inr (env, f, st) \<longrightarrow> length (stream st) \<le> n \<and> (f \<longrightarrow> length (stream st) < n)))"

lemma read_ok_simps [simp]:
  "read_ok n (Some (Inl e))" "read_ok n (Some (Inr (env, f, st))) \<longleftrightarrow> length (stream st) \<le> n \<and> (f \<longrightarrow> length (stream st) < n)"
  "\<not> read_ok n None"
  by (auto simp: read_ok_def)

lemma read_ok_mono: "read_ok m r \<Longrightarrow> m \<le> n \<Longrightarrow> read_ok n r"
  by (fastforce simp: read_ok_def)

lemma after_call_ok:
  assumes "read_ok m r" "\<And>c st. length (stream st) \<le> m \<Longrightarrow> read_ok n (g c st)"
  shows "read_ok n (after_call r g)"
  using assms by (cases r) (auto simp: after_call_def split: sum.splits)

lemma after_cell_ok:
  assumes "\<And>c st. r = Inr (c, st) \<Longrightarrow> read_ok n (g c st)"
  shows "read_ok n (after_cell r g)"
  using assms by (auto simp: after_cell_def split: sum.splits)

lemma link_next_ok:
  assumes "\<And>env f st'. length (stream st') < n \<Longrightarrow> read_ok (length (stream st')) (rec env f st')" "length (stream st) < n"
  shows "read_ok n (link_next rec env listFlag c st)"
  using assms by (auto simp: link_next_def Let_def intro!: read_ok_mono [of "length (stream st)" _ n])

lemma read_token_ok:
  assumes dp: "lc_decimal_point R \<noteq> CHR 0x00"
    and rec: "\<And>env f st'. length (stream st') < n \<Longrightarrow> read_ok (length (stream st')) (rec env f st')"
    and st: "length (stream st) < n" 
  shows "read_ok n (read_token rec R env listFlag x st)"
proof -
  have link: "read_ok n (link_next rec env listFlag c st')" if "length (stream st') \<le> length (stream st)" for c st'
    by (rule link_next_ok [OF rec]) (use st that in auto)
  have sub: "read_ok n (after_call (rec e True st') g)"
    if "stream st' = stream st" "\<And>c st2. length (stream st2) \<le> length (stream st) \<Longrightarrow> read_ok n (g c st2)" for e st' g
    by (rule after_call_ok [OF rec]) (use st that in auto)
  have exp: "read_ok n (after_cell (expand_list R l st1) (link_next rec env listFlag))"
    if "length (stream st1) \<le> length (stream st)" for l st1
    by (rule after_cell_ok, drule expand_list_stream, rule link) (use that in simp)
  have atom: "read_ok n (after_cell (atom_cell R x st) (link_next rec env listFlag))" for x
    by (rule after_cell_ok, drule atom_cell_length [OF _ dp], rule link)
  have lam: "read_ok n (rec e f st)" for e f
    by (rule read_ok_mono [OF rec]) (use st in auto)
  show ?thesis
    using st by (cases x) (auto simp: read_token_def intro!: sub link exp lam atom split: option.split)
qed

lemma compileExpression_ok:
  "lc_decimal_point R \<noteq> CHR 0x00 \<Longrightarrow> length (stream st) < n \<Longrightarrow>
    read_ok (length (stream st)) (compileExpression n R env listFlag st)"
proof (induction n arbitrary: env listFlag st)
  case (Suc n)
  show ?case
  proof (cases "getToken (lc_decimal_point R) (stream st)")
    case (Inr y)
    obtain x rest where y: "y = (x, rest)" by fastforce
    note tok = getToken_length [OF Inr [unfolded y] Suc.prems(1)]
    show ?thesis
    proof (cases "x = TKN_EMPTY")
      case True
      then show ?thesis using tok(1) by (simp add: read_step_def Inr y read_token_def)
    next
      case False
      have "read_ok (length (stream st)) (read_token (compileExpression n R) R env listFlag x (st\<lparr>stream := rest\<rparr>))"
        by (rule read_token_ok) (use Suc tok(2) False in auto)
      then show ?thesis by (simp add: read_step_def Inr y)
    qed
  qed (simp add: read_step_def)
qed simp

text \<open>More fuel changes nothing.\<close>

lemma after_call_mono:
  assumes "after_call r g = Some x" "\<And>y. r = Some y \<Longrightarrow> r' = Some y" "\<And>c st. g c st = Some x \<Longrightarrow> g' c st = Some x"
  shows "after_call r' g' = Some x"
  using assms by (auto simp: after_call_def split: option.splits sum.splits)

lemma after_cell_mono:
  assumes "after_cell r g = Some x" "\<And>c st. g c st = Some x \<Longrightarrow> g' c st = Some x"
  shows "after_cell r g' = Some x"
  using assms by (auto simp: after_cell_def split: sum.splits)

lemma link_next_mono:
  assumes "\<And>e f s r. rec e f s = Some r \<Longrightarrow> rec' e f s = Some r" "link_next rec env lf c st = Some r"
  shows "link_next rec' env lf c st = Some r"
  using assms by (auto simp: link_next_def Let_def split: if_splits)

lemma read_token_mono:
  assumes rec: "\<And>e f s r. rec e f s = Some r \<Longrightarrow> rec' e f s = Some r" and "read_token rec R env lf x st = Some r"
  shows "read_token rec' R env lf x st = Some r"
proof -
  note link = link_next_mono [of rec rec', OF rec]
  have atom: "after_cell y (link_next rec env lf) = Some r \<Longrightarrow> after_cell y (link_next rec' env lf) = Some r" for y
    by (erule after_cell_mono) (rule link)
  have quote: "after_call (rec e True s) (link_next rec env lf) = Some r \<Longrightarrow>
      after_call (rec' e True s) (link_next rec' env lf) = Some r" for e s
    by (erule after_call_mono) (rule rec link; assumption)+
  have list: "after_call (rec e True s) (\<lambda>l st1. after_cell (expand_list R l st1) (link_next rec env lf)) = Some r \<Longrightarrow>
      after_call (rec' e True s) (\<lambda>l st1. after_cell (expand_list R l st1) (link_next rec' env lf)) = Some r" for e s
    by (erule after_call_mono) (rule rec atom; assumption)+
  show ?thesis using assms(2) by (cases x) (auto simp: read_token_def intro: atom quote list rec split: option.splits)
qed

lemma compileExpression_mono:
  "compileExpression n R env lf st = Some r \<Longrightarrow> n \<le> m \<Longrightarrow> compileExpression m R env lf st = Some r"
proof (induction n arbitrary: m env lf st r)
  case (Suc n)
  then obtain k where m: "m = Suc k" "n \<le> k" by (cases m) auto
  show ?case
  proof (cases "getToken (lc_decimal_point R) (stream st)")
    case (Inr y)
    then show ?thesis
      using Suc.prems(1) read_token_mono [of "compileExpression n R" "compileExpression k R", OF Suc.IH [OF _ m(2)]]
      by (auto simp: m(1) read_step_def split: prod.splits)
  qed (use Suc.prems in \<open>simp add: m(1) read_step_def\<close>)
qed simp



end
