(* ===== verification/NL_Grammar.thy ===== *)
theory NL_Grammar
  imports NL_Reader
begin

text \<open>
The language of expressions as inductive relations, independent of the reader: white space and
  comments, strings with their escapes, numbers, names, quotes and lists. \<open>written R C c t D\<close> relates a
  text to the cell it means, from the symbols \<open>C\<close> to the symbols \<open>D\<close>. The lemmas show that the reader
  accepts every such text, and that a text cut off inside a list is refused.
\<close>

section \<open>The language of expressions\<close>

text \<open>White space and comments.\<close>

inductive blank :: "string \<Rightarrow> bool" where
  blank_Nil: "blank []"
| blank_space: "blank b \<Longrightarrow> byte c \<le> 32 \<Longrightarrow> blank (c # b)"
| blank_comment: "blank b \<Longrightarrow> c \<in> {CHR '';'', CHR ''#''} \<Longrightarrow> nl \<in> {CHR 0x0A, CHR 0x0D} \<Longrightarrow>
    \<forall>x\<in>set s. x \<notin> {CHR 0x0A, CHR 0x0D} \<Longrightarrow> blank (c # s @ nl # b)"

text \<open>A name and a number end before white space, parentheses and quotes.\<close>

definition delim :: "char \<Rightarrow> bool" where
  "delim c \<longleftrightarrow> byte c \<le> 32 \<or> c \<in> {CHR 0x22, CHR 0x27, CHR ''('', CHR '')''}"

definition ends :: "string \<Rightarrow> bool" where
  "ends r \<longleftrightarrow> r = [] \<or> delim (hd r)"

definition point_ok :: "char \<Rightarrow> bool" where
  "point_ok dp \<longleftrightarrow> dp = CHR ''.'' \<or> dp = CHR '',''"

definition symbol_name :: "char \<Rightarrow> string \<Rightarrow> bool" where
  "symbol_name dp t \<longleftrightarrow> t \<noteq> [] \<and> length t \<le> MAX_SYMBOL \<and> (\<forall>c\<in>set t. symbol_char c) \<and>
     hd t \<notin> {CHR '';'', CHR ''#'', CHR ''{'', CHR ''[''} \<and> \<not> is_digit (hd t) \<and>
     (hd t = dp \<longrightarrow> \<not> is_digit (char_at 1 t)) \<and>
     (hd t \<in> {CHR ''-'', CHR ''+''} \<longrightarrow> \<not> is_digit (char_at 1 t) \<and> char_at 1 t \<noteq> dp)"

text \<open>The text of a string behind its opening quote.\<close>

inductive string_text :: "string \<Rightarrow> string \<Rightarrow> bool" where
  string_end: "string_text [] [CHR 0x22]"
| string_raw: "string_text s t \<Longrightarrow> c \<notin> {CHR 0x22, CHR 0x5C} \<Longrightarrow> string_text (c # s) (c # t)"
| string_escape: "string_text s t \<Longrightarrow> \<not> is_digit e \<Longrightarrow> e \<notin> {CHR ''x'', CHR ''u''} \<Longrightarrow>
    string_text (escaped e # s) (CHR 0x5C # e # t)"
| string_decimal: "string_text s t \<Longrightarrow> is_digit a \<Longrightarrow> is_digit b \<Longrightarrow> is_digit c \<Longrightarrow>
    string_text (char_of (radix 10 [a, b, c]) # s) (CHR 0x5C # a # b # c # t)"
| string_hex: "string_text s t \<Longrightarrow> is_xdigit a \<Longrightarrow> is_xdigit b \<Longrightarrow>
    string_text (char_of (radix 16 [a, b]) # s) (CHR 0x5C # CHR ''x'' # a # b # t)"
| string_unicode: "string_text s t \<Longrightarrow> is_xdigit a \<Longrightarrow> is_xdigit b \<Longrightarrow> is_xdigit c \<Longrightarrow> is_xdigit d \<Longrightarrow>
    string_text (wchar_utf8 (radix 16 [a, b, c, d]) @ s) (CHR 0x5C # CHR ''u'' # a # b # c # d # t)"

section \<open>Tokens\<close>

lemma skip_comment_line:
  "\<forall>x\<in>set s. x \<notin> {CHR 0x0A, CHR 0x0D} \<Longrightarrow> nl \<in> {CHR 0x0A, CHR 0x0D} \<Longrightarrow> skip_comment (s @ nl # r) = skip_blank r"
  by (induction s) auto

lemma skip_blank_blank: "blank b \<Longrightarrow> skip_blank (b @ s) = skip_blank s"
proof (induction rule: blank.induct)
  case (blank_comment b c nl s')
  have "\<not> byte c \<le> 32" using blank_comment(2) by (elim insertE emptyE) (simp_all add: byte_def)
  then have "skip_blank ((c # s' @ nl # b) @ s) = skip_comment (s' @ nl # (b @ s))"
    using blank_comment(2) by simp
  then show ?case using skip_comment_line [OF blank_comment(4,3)] blank_comment(5) by simp
qed simp_all

lemma getToken_blank: "blank b \<Longrightarrow> getToken dp (b @ s) = getToken dp s"
  by (simp add: getToken_def skip_blank_blank)

lemma scan_all:
  "\<forall>c\<in>set t. P c \<Longrightarrow> length t \<le> k \<Longrightarrow> r = [] \<or> \<not> P (hd r) \<Longrightarrow> scan P k (t @ r) = (t, r)"
proof (induction t arbitrary: k)
  case Nil
  then show ?case by (cases k; cases r) auto
next
  case (Cons c t)
  then show ?case by (cases k) auto
qed

lemma char_at_append: "k < length t \<Longrightarrow> char_at k (t @ r) = char_at k t"
  by (simp add: char_at_def nth_append)

lemma char_at_Cons: "char_at 0 (c # s) = c" "char_at (Suc k) (c # s) = char_at k s"
  by (simp_all add: char_at_def)

lemma char_at_0: "s \<noteq> [] \<Longrightarrow> char_at 0 s = hd s"
  by (simp add: char_at_def hd_conv_nth)

lemma ends_char:
  assumes "ends r \<or> char_at 0 r = CHR '':''"
  shows "\<not> symbol_char (char_at 0 r)" "\<not> is_digit (char_at 0 r)" "char_at 0 r \<noteq> CHR ''.''" "char_at 0 r \<noteq> CHR '',''"
proof -
  have "byte (char_at 0 r) \<le> 32 \<or> char_at 0 r \<in> {CHR 0x22, CHR 0x27, CHR ''('', CHR '')'', CHR '':''}"
    using assms by (cases r) (simp_all add: ends_def delim_def char_at_Cons char_at_def byte_def)
  then consider "byte (char_at 0 r) \<le> 32" | "char_at 0 r \<in> {CHR 0x22, CHR 0x27, CHR ''('', CHR '')'', CHR '':''}" by blast
  then have "\<not> symbol_char (char_at 0 r) \<and> \<not> is_digit (char_at 0 r) \<and> char_at 0 r \<noteq> CHR ''.'' \<and> char_at 0 r \<noteq> CHR '',''"
  proof cases
    case 1
    then show ?thesis by (auto simp: symbol_char_def is_digit_def byte_def)
  next
    case 2
    then show ?thesis by (elim insertE emptyE) (simp_all add: symbol_char_def is_digit_def)
  qed
  then show "\<not> symbol_char (char_at 0 r)" "\<not> is_digit (char_at 0 r)" "char_at 0 r \<noteq> CHR ''.''" "char_at 0 r \<noteq> CHR '',''" by blast+
qed

lemma ends_colon: "ends r \<Longrightarrow> char_at 0 r \<noteq> CHR '':''"
  by (cases r) (auto simp: ends_def delim_def char_at_def byte_def)

lemma getToken_word:
  assumes "symbol_name dp t" "point_ok dp" "ends r \<or> char_at 0 r = CHR '':''"
  shows "getToken dp (t @ r) = word_token [] (hd t) (tl t @ r)"
    "scan symbol_char (MAX_SYMBOL - 1) (tl t @ r) = (tl t, r)"
    "hd t \<notin> {CHR 0x22, CHR 0x27, CHR ''('', CHR '')'', CHR ''{'', CHR '','', CHR '':'', CHR ''[''}"
proof -
  obtain c u where t: "t = c # u" using assms(1) by (cases t) (auto simp: symbol_name_def)
  have c: "symbol_char c" "c \<noteq> CHR '';''" "c \<noteq> CHR ''#''" "\<not> is_digit c" "\<not> byte c \<le> 32"
    using assms(1) by (auto simp: symbol_name_def t symbol_char_def)
  note r = ends_char [OF assms(3)]
  have sk: "skip_blank (t @ r) = t @ r" using c by (simp add: t)
  have at1: "char_at 1 (t @ r) = (if u = [] then char_at 0 r else char_at 1 t)"
    by (simp add: t char_at_def nth_append)
  have dp: "char_at 0 r \<noteq> dp" using r assms(2) by (auto simp: point_ok_def)
  have "\<not> (c = dp \<and> is_digit (char_at 1 (t @ r)))" "\<not> ((c = CHR ''-'' \<or> c = CHR ''+'') \<and> (is_digit (char_at 1 (t @ r)) \<or> char_at 1 (t @ r) = dp))"
    using assms(1) r dp unfolding at1 by (auto simp: symbol_name_def t)
  moreover have "char_at 0 (t @ r) = c" "t @ r \<noteq> []" "hd (t @ r) = c" "tl (t @ r) = tl t @ r" "hd t = c" by (simp_all add: t char_at_Cons)
  ultimately show "getToken dp (t @ r) = word_token [] (hd t) (tl t @ r)"
    using c(4) by (simp only: getToken_def Let_def sk if_False prod.case simp_thms)
  show "scan symbol_char (MAX_SYMBOL - 1) (tl t @ r) = (tl t, r)"
    by (rule scan_all) (use assms(1) r in \<open>auto simp: t symbol_name_def char_at_0\<close>)
  show "hd t \<notin> {CHR 0x22, CHR 0x27, CHR ''('', CHR '')'', CHR ''{'', CHR '','', CHR '':'', CHR ''[''}"
    using assms(1) c(1) by (auto simp: t symbol_name_def symbol_char_def)
qed

lemma getToken_symbol:
  assumes "symbol_name dp t" "point_ok dp"
  shows "ends r \<Longrightarrow> getToken dp (t @ r) = Inr (TKN_SYMBOL t, r)"
    "getToken dp (t @ CHR '':'' # r) = Inr (TKN_CONTEXT t, r)"
proof -
  have t: "hd t # tl t = t" using assms(1) by (simp add: symbol_name_def)
  show "getToken dp (t @ r) = Inr (TKN_SYMBOL t, r)" if "ends r"
    using getToken_word [OF assms, of r] that ends_colon [of r] t
    by (auto simp: word_token_def)
  show "getToken dp (t @ CHR '':'' # r) = Inr (TKN_CONTEXT t, r)"
    using getToken_word [OF assms, of "CHR '':'' # r"] t by (simp add: word_token_def char_at_Cons)
qed

text \<open>Decimal numbers.\<close>

definition decimal_digits :: "string \<Rightarrow> bool" where
  "decimal_digits ds \<longleftrightarrow> ds \<noteq> [] \<and> (\<forall>c\<in>set ds. is_digit c) \<and> (hd ds = CHR ''0'' \<longrightarrow> length ds = 1)"

definition a_sign :: "string \<Rightarrow> bool" where
  "a_sign sg \<longleftrightarrow> sg \<in> {[], ''-'', ''+''}"

lemma digit_char: "is_digit c \<Longrightarrow> \<not> byte c \<le> 32 \<and> c \<notin> {CHR '';'', CHR ''#'', CHR ''-'', CHR ''+''}"
  by (auto simp: is_digit_def byte_def)

lemma getToken_number:
  assumes "a_sign sg" "is_digit (hd s)" "s \<noteq> []"
  shows "getToken dp (sg @ s) = number_token dp sg s"
proof -
  have d: "is_digit (char_at 0 s)" using assms by (simp add: char_at_0)
  have s0: "\<not> byte (hd s) \<le> 32" "hd s \<noteq> CHR '';''" "hd s \<noteq> CHR ''#''" "hd s \<noteq> CHR ''-''" "hd s \<noteq> CHR ''+''"
    using digit_char [OF assms(2)] by auto
  have "\<not> byte CHR ''-'' \<le> 32" "\<not> byte CHR ''+'' \<le> 32" by (simp_all add: byte_def)
  then have sk: "skip_blank (sg @ s) = sg @ s"
    using assms s0 by (cases s) (auto simp: a_sign_def)
  show ?thesis
  proof (cases "sg = []")
    case True
    then show ?thesis using d s0 assms(3) sk char_at_0 [OF assms(3)] by (simp add: getToken_def Let_def)
  next
    case False
    then show ?thesis using d assms(1) sk by (auto simp: getToken_def Let_def a_sign_def char_at_Cons)
  qed
qed

lemma getToken_decimal:
  assumes "a_sign sg" "decimal_digits ds" "length (sg @ ds) \<le> MAX_DIGITS" "point_ok dp" "ends r"
  shows "getToken dp (sg @ ds @ r) = Inr (TKN_DECIMAL (sg @ ds), r)"
    "getToken dp (sg @ ds @ CHR ''L'' # r) = Inr (TKN_DECIMAL (sg @ ds @ ''L''), r)"
proof -
  have ds: "ds \<noteq> []" "\<forall>c\<in>set ds. is_digit c" using assms(2) by (auto simp: decimal_digits_def)
  have token: "getToken dp (sg @ ds @ q) = (if char_at 0 q = CHR ''L'' then Inr (TKN_DECIMAL (sg @ ds @ [hd q]), tl q)
      else Inr (TKN_DECIMAL (sg @ ds), q))"
    if q: "\<not> is_digit (char_at 0 q)" "char_at 0 q \<notin> {CHR ''X'', CHR ''x'', CHR ''B'', CHR ''b'', CHR ''E'', CHR ''e'', dp}" for q
  proof -
    have zero: "\<not> (char_at 0 (ds @ q) = CHR ''0'' \<and> is_digit (char_at 1 (ds @ q)))"
      using assms(2) q(1) ds(1) by (cases ds) (auto simp: decimal_digits_def char_at_Cons)
    have sc: "scan is_digit (MAX_DIGITS - length sg) (ds @ q) = (ds, q)"
      by (rule scan_all) (use ds assms(3) q(1) char_at_0 [of q] in auto)
    have "getToken dp (sg @ ds @ q) = number_token dp sg (ds @ q)"
      by (rule getToken_number) (use assms(1) ds in auto)
    then show ?thesis using zero sc q(2) by (simp add: number_token_def Let_def)
  qed
  have r: "\<not> is_digit (char_at 0 r)" "char_at 0 r \<notin> {CHR ''X'', CHR ''x'', CHR ''B'', CHR ''b'', CHR ''E'', CHR ''e'', dp}"
    "char_at 0 r \<noteq> CHR ''L''"
  proof -
    have "symbol_char c" if "c \<in> {CHR ''X'', CHR ''x'', CHR ''B'', CHR ''b'', CHR ''E'', CHR ''e'', CHR ''L''}" for c
      using that by (elim insertE emptyE) (simp_all add: symbol_char_def byte_def)
    then show "\<not> is_digit (char_at 0 r)" "char_at 0 r \<notin> {CHR ''X'', CHR ''x'', CHR ''B'', CHR ''b'', CHR ''E'', CHR ''e'', dp}"
      "char_at 0 r \<noteq> CHR ''L''"
      using ends_char [of r] assms(4,5) unfolding point_ok_def by blast+
  qed
  show "getToken dp (sg @ ds @ r) = Inr (TKN_DECIMAL (sg @ ds), r)"
    using token [OF r(1,2)] r(3) by simp
  have "getToken dp (sg @ ds @ CHR ''L'' # r) =
      (if char_at 0 (CHR ''L'' # r) = CHR ''L'' then Inr (TKN_DECIMAL (sg @ ds @ [hd (CHR ''L'' # r)]), tl (CHR ''L'' # r))
       else Inr (TKN_DECIMAL (sg @ ds), CHR ''L'' # r))"
    by (rule token) (use assms(4) in \<open>auto simp: char_at_Cons point_ok_def is_digit_def\<close>)
  then show "getToken dp (sg @ ds @ CHR ''L'' # r) = Inr (TKN_DECIMAL (sg @ ds @ ''L''), r)"
    by (simp add: char_at_Cons)
qed

lemma wchar_utf8_nonempty: "0 < length (wchar_utf8 v)"
  by (simp add: wchar_utf8_def Let_def split: prod.split)

lemma read_string_escape:
  assumes "read_escape t = (u, k)" "t \<noteq> []" "n < MAX_STRING"
  shows "read_string n (CHR 0x5C # t) = map_sum id (map_prod ((@) u) id) (read_string (n + length u) (drop k t))"
  using assms by (simp add: read_string.simps [of n "CHR 0x5C # t"])

lemma string_text_nonempty: "string_text s t \<Longrightarrow> t \<noteq> []"
  by (induction rule: string_text.induct) auto

lemma read_string_text:
  "string_text s t \<Longrightarrow> n + length s \<le> MAX_STRING \<Longrightarrow> read_string n (t @ r) = Inr (s, CHR 0x22 # r)"
proof (induction arbitrary: n rule: string_text.induct)
  case string_end
  then show ?case by (simp add: read_string.simps [of n "CHR 0x22 # r"])
next
  case (string_raw s t c)
  then have "read_string n ((c # t) @ r) = map_sum id (map_prod ((#) c) id) (read_string (n + 1) (t @ r))"
    by (simp add: read_string.simps [of n "c # (t @ r)"])
  then show ?case using string_raw by simp
next
  case (string_escape s t e)
  have "read_escape (e # t @ r) = ([escaped e], 1)"
    using string_escape by (simp add: read_escape_def char_at_Cons)
  from read_string_escape [OF this] show ?case using string_escape by simp
next
  case (string_decimal s t a b c)
  have "read_escape (a # b # c # t @ r) = ([char_of (radix 10 [a, b, c])], 3)"
    using string_decimal by (simp add: read_escape_def char_at_Cons numeral_2_eq_2 numeral_3_eq_3)
  from read_string_escape [OF this] show ?case using string_decimal by simp
next
  case (string_hex s t a b)
  have "read_escape (CHR ''x'' # a # b # t @ r) = ([char_of (radix 16 [a, b])], 3)"
    using string_hex by (simp add: read_escape_def char_at_Cons numeral_2_eq_2 numeral_3_eq_3 is_digit_def)
  from read_string_escape [OF this] show ?case using string_hex by simp
next
  case (string_unicode s t a b c d)
  have "read_escape (CHR ''u'' # a # b # c # d # t @ r) = (wchar_utf8 (radix 16 [a, b, c, d]), 5)"
    using string_unicode by (simp add: read_escape_def char_at_Cons eval_nat_numeral is_digit_def)
  moreover have "n < MAX_STRING" using string_unicode.prems wchar_utf8_nonempty [of "radix 16 [a, b, c, d]"] unfolding length_append by linarith
  ultimately show ?case using read_string_escape [of _ "wchar_utf8 (radix 16 [a, b, c, d])" 5 n] string_unicode by simp
qed

lemma getToken_other:
  assumes "byte c > 32" "c \<notin> {CHR '';'', CHR ''#'', CHR ''-'', CHR ''+'', CHR ''.'', CHR '',''}" "\<not> is_digit c" "point_ok dp"
  shows "getToken dp (c # s) = word_token [] c s"
  using assms by (auto simp: getToken_def char_at_Cons point_ok_def)

lemma getToken_string:
  assumes "string_text s t" "length s \<le> MAX_STRING" "point_ok dp"
  shows "getToken dp (CHR 0x22 # t @ r) = Inr (TKN_STRING s, r)"
proof -
  have "getToken dp (CHR 0x22 # t @ r) = word_token [] (CHR 0x22) (t @ r)"
    by (rule getToken_other) (use assms(3) in \<open>simp_all add: byte_def is_digit_def\<close>)
  then show ?thesis using read_string_text [OF assms(1), of 0 r] assms(2) by (simp add: word_token_def char_at_Cons)
qed

lemma getToken_punct:
  assumes "point_ok dp"
  shows "getToken dp (CHR ''('' # s) = Inr (TKN_LEFT_PAR, s)"
    "getToken dp (CHR '')'' # s) = Inr (TKN_RIGHT_PAR, s)"
    "getToken dp (CHR 0x27 # s) = Inr (TKN_QUOTE, s)"
proof -
  have "getToken dp (c # s) = word_token [] c s" if "c \<in> {CHR ''('', CHR '')'', CHR 0x27}" for c
    by (rule getToken_other) (use assms that in \<open>auto simp: byte_def is_digit_def\<close>)
  then show "getToken dp (CHR ''('' # s) = Inr (TKN_LEFT_PAR, s)" "getToken dp (CHR '')'' # s) = Inr (TKN_RIGHT_PAR, s)"
    "getToken dp (CHR 0x27 # s) = Inr (TKN_QUOTE, s)"
    by (simp_all add: word_token_def)
qed

text \<open>A text between tags: the reader goes on behind the first closing tag.\<close>

definition no_end_tag :: "string \<Rightarrow> bool" where
  "no_end_tag s \<longleftrightarrow> (\<forall>k < length s. take 7 (drop k (s @ LIMIT)) \<noteq> LIMIT)"

lemma readStreamText_tag: "no_end_tag s \<Longrightarrow> readStreamText (s @ LIMIT @ r) = Some (s, r)"
proof (induction s)
  case (Cons c s)
  have "length LIMIT = 7" by (simp add: LIMIT_def)
  then have "take 7 (((c # s) @ LIMIT) @ r) = take 7 ((c # s) @ LIMIT)" by (intro take_append [THEN trans]) simp
  moreover have "take 7 ((c # s) @ LIMIT) \<noteq> LIMIT"
    using Cons.prems unfolding no_end_tag_def by (metis drop0 length_greater_0_conv list.distinct(1))
  ultimately have "readStreamText ((c # s) @ LIMIT @ r) = map_option (map_prod ((#) c) id) (readStreamText (s @ LIMIT @ r))"
    by (simp only: append_Cons append_assoc readStreamText.simps if_False)
  moreover have "no_end_tag s"
    using Cons.prems unfolding no_end_tag_def by (metis Suc_less_eq append_Cons drop_Suc_Cons length_Cons)
  ultimately show ?case using Cons.IH by simp
qed (simp add: LIMIT_def)

lemma getToken_tag: "point_ok dp \<Longrightarrow> getToken dp (''[text]'' @ r) = Inr (TKN_SYMBOL ''[text]'', r)"
proof -
  assume dp: "point_ok dp"
  have "getToken dp (''[text]'' @ r) = word_token [] (CHR ''['') (''text'' @ CHR '']'' # r)"
    using getToken_other [of "CHR ''[''" dp "''text'' @ CHR '']'' # r"] dp by (simp add: byte_def is_digit_def)
  moreover have "scan (\<lambda>d. d \<noteq> CHR '']'') (MAX_SYMBOL - 1) (''text'' @ CHR '']'' # r) = (''text'', CHR '']'' # r)"
    by (rule scan_all) (simp_all add: MAX_SYMBOL_def)
  ultimately show ?thesis by (simp add: word_token_def)
qed

text \<open>Two texts can follow each other when the first ends in a closing mark or the second
  starts with a delimiter.\<close>

definition apart :: "string \<Rightarrow> string \<Rightarrow> bool" where
  "apart t u \<longleftrightarrow> last t \<in> {CHR '')'', CHR 0x22} \<or> ends u"

definition macro_head :: "reader \<Rightarrow> cell list \<Rightarrow> bool" where
  "macro_head R cs \<longleftrightarrow> (case cs of CELL_SYMBOL s # _ \<Rightarrow> is_macro R s | _ \<Rightarrow> False)"

text \<open>\<open>written R C c t D\<close>: read with the symbols \<open>C\<close>, the text \<open>t\<close> means the cell \<open>c\<close>, and \<open>D\<close> are the
  symbols afterwards. Lists of items are texts between the parentheses.\<close>

inductive written :: "reader \<Rightarrow> contexts \<Rightarrow> cell \<Rightarrow> string \<Rightarrow> contexts \<Rightarrow> bool"
  and written_items :: "reader \<Rightarrow> contexts \<Rightarrow> cell list \<Rightarrow> string \<Rightarrow> contexts \<Rightarrow> bool"
  for R :: reader where
  w_blank: "written R C c t D \<Longrightarrow> blank b \<Longrightarrow> written R C c (b @ t) D"
| w_long: "a_sign sg \<Longrightarrow> decimal_digits ds \<Longrightarrow> length (sg @ ds) \<le> MAX_DIGITS \<Longrightarrow>
    int64 (signed_radix 10 (sg @ ds)) \<Longrightarrow> written R C (CELL_LONG (signed_radix 10 (sg @ ds))) (sg @ ds) C"
| w_big: "a_sign sg \<Longrightarrow> decimal_digits ds \<Longrightarrow> length (sg @ ds) \<le> MAX_DIGITS \<Longrightarrow> wf_bigint b \<Longrightarrow>
    bval b = signed_radix 10 (sg @ ds) \<Longrightarrow> bval b \<noteq> 0 \<Longrightarrow> l = [] \<and> \<not> int64 (bval b) \<or> l = ''L'' \<Longrightarrow>
    written R C (CELL_BIGINT b) (sg @ ds @ l) C"
| w_big_zero: "written R C (CELL_BIGINT \<lparr>bsign = 1, bdigits = [0]\<rparr>) ''0L'' C"
| w_string: "string_text s t \<Longrightarrow> length s \<le> MAX_STRING \<Longrightarrow> written R C (CELL_STRING s) (CHR 0x22 # t) C"
| w_tagged: "no_end_tag s \<Longrightarrow> written R C (CELL_STRING s) (''[text]'' @ s @ LIMIT) C"
| w_symbol: "symbol_name (lc_decimal_point R) t \<Longrightarrow> lambda_type t = None \<Longrightarrow>
    read_symbol (currentContext R) t C = Inr (c, D) \<Longrightarrow> written R C c t D"
| w_qualified: "symbol_name (lc_decimal_point R) p \<Longrightarrow> symbol_name (lc_decimal_point R) t \<Longrightarrow>
    prefix_symbol (currentContext R) p C = Inr (ctx, C1) \<Longrightarrow> contents_of ctx C1 = Inr (CELL_CONTEXT ctx) \<Longrightarrow>
    translateCreateSymbol t AS_NIL (sname ctx) True C1 = Some (s, D) \<Longrightarrow>
    written R C (CELL_SYMBOL s) (p @ CHR '':'' # t) D"
| w_dynamic: "symbol_name (lc_decimal_point R) p \<Longrightarrow> symbol_name (lc_decimal_point R) t \<Longrightarrow>
    prefix_symbol (currentContext R) p C = Inr (ctx, D) \<Longrightarrow> contents_of ctx D = Inr v \<Longrightarrow> v \<noteq> CELL_CONTEXT ctx \<Longrightarrow>
    written R C (CELL_DYN_SYMBOL (sname ctx) t) (p @ CHR '':'' # t) D"
| w_quote: "written R C c t D \<Longrightarrow> written R C (CELL_QUOTE c) (CHR 0x27 # t) D"
| w_list: "written_items R C cs t D \<Longrightarrow> \<not> macro_head R cs \<Longrightarrow>
    written R C (CELL_EXPRESSION cs) (CHR ''('' # t @ '')'') D"
| w_lambda: "written_items R C cs t D \<Longrightarrow> \<not> macro_head R cs \<Longrightarrow> blank b \<Longrightarrow> word \<in> {''lambda'', ''fn''} \<Longrightarrow> ends t \<Longrightarrow>
    written R C (CELL_LAMBDA cs) (CHR ''('' # b @ word @ t @ '')'') D"
| w_fexpr: "written_items R C cs t D \<Longrightarrow> \<not> macro_head R cs \<Longrightarrow> blank b \<Longrightarrow> word \<in> {''lambda-macro'', ''fn-macro''} \<Longrightarrow> ends t \<Longrightarrow>
    written R C (CELL_FEXPR cs) (CHR ''('' # b @ word @ t @ '')'') D"
| w_nil: "blank b \<Longrightarrow> written_items R C [] b C"
| w_cons: "written R C c t D \<Longrightarrow> written_items R D cs u E \<Longrightarrow> apart t u \<Longrightarrow> written_items R C (c # cs) (t @ u) E"

section \<open>Reading, without fuel\<close>

definition reads :: "reader \<Rightarrow> cell \<Rightarrow> bool \<Rightarrow> reading \<Rightarrow> (cell \<times> bool \<times> reading) result \<Rightarrow> bool" where
  "reads R env lf st out \<longleftrightarrow> (\<exists>n. compileExpression n R env lf st = Some out)"

definition goes_on :: "reader \<Rightarrow> cell \<Rightarrow> bool \<Rightarrow> cell \<Rightarrow> reading \<Rightarrow> (cell \<times> bool \<times> reading) result \<Rightarrow> bool" where
  "goes_on R env lf c st out \<longleftrightarrow> (\<exists>n. link_next (compileExpression n R) env lf c st = Some out)"

lemma goes_on_quote: "isQuote env \<Longrightarrow> goes_on R env True c st (Inr (linkCell env c, True, st))"
  by (simp add: goes_on_def link_next_def Let_def)

lemma goes_on_item:
  "\<not> isQuote env \<Longrightarrow> parStack st \<noteq> 0 \<Longrightarrow> stream st \<noteq> [] \<Longrightarrow> reads R (linkCell env c) False st out \<Longrightarrow> goes_on R env lf c st out"
  by (simp add: goes_on_def link_next_def Let_def reads_def)

lemma reads_step:
  assumes "getToken (lc_decimal_point R) (stream st) = Inr (x, rest)"
    "read_token (compileExpression n R) R env lf x (st\<lparr>stream := rest\<rparr>) = Some out"
  shows "reads R env lf st out"
proof -
  have "compileExpression (Suc n) R env lf st = Some out" using assms by (simp add: read_step_def)
  then show ?thesis unfolding reads_def by blast
qed

lemma reads_atom:
  assumes "getToken (lc_decimal_point R) (stream st) = Inr (x, rest)"
    "x \<notin> {TKN_ERROR, TKN_EMPTY, TKN_RIGHT_PAR, TKN_LEFT_PAR, TKN_QUOTE}" "lambda_token x = None"
    "atom_cell R x (st\<lparr>stream := rest\<rparr>) = Inr (c, st1)" "goes_on R env lf c st1 out"
  shows "reads R env lf st out"
proof -
  obtain n where n: "link_next (compileExpression n R) env lf c st1 = Some out" using assms(5) by (auto simp: goes_on_def)
  have "read_token (compileExpression n R) R env lf x (st\<lparr>stream := rest\<rparr>) = Some out"
    using assms(2-4) n by (cases x) (auto simp: read_token_def after_cell_def)
  then show ?thesis by (rule reads_step [OF assms(1)])
qed

lemma after_call_both:
  assumes "reads R e True s (Inr (l, f, st1))" "goes_on R env lf c st2 out"
    "\<And>n. link_next (compileExpression n R) env lf c st2 = Some out \<Longrightarrow> g n l st1 = Some out"
  shows "\<exists>n. after_call (compileExpression n R e True s) (g n) = Some out"
proof -
  obtain n m where n: "compileExpression n R e True s = Some (Inr (l, f, st1))"
    and m: "link_next (compileExpression m R) env lf c st2 = Some out"
    using assms(1,2) by (auto simp: reads_def goes_on_def)
  let ?k = "max n m"
  have "compileExpression ?k R e True s = Some (Inr (l, f, st1))" by (rule compileExpression_mono [OF n]) simp
  moreover have "link_next (compileExpression ?k R) env lf c st2 = Some out"
    by (rule link_next_mono [OF _ m]) (erule compileExpression_mono, simp)
  then have "g ?k l st1 = Some out" by (rule assms(3))
  ultimately show ?thesis by (intro exI [of _ ?k]) (simp add: after_call_def)
qed

lemma reads_quote:
  assumes "getToken (lc_decimal_point R) (stream st) = Inr (TKN_QUOTE, rest)"
    "reads R (CELL_QUOTE CELL_NIL) True (st\<lparr>stream := rest\<rparr>) (Inr (q, f, st1))" "goes_on R env lf q st1 out"
  shows "reads R env lf st out"
proof -
  have "\<exists>n. after_call (compileExpression n R (CELL_QUOTE CELL_NIL) True (st\<lparr>stream := rest\<rparr>))
      (link_next (compileExpression n R) env lf) = Some out"
    by (rule after_call_both [OF assms(2,3)])
  then obtain n where "read_token (compileExpression n R) R env lf TKN_QUOTE (st\<lparr>stream := rest\<rparr>) = Some out"
    by (auto simp: read_token_def)
  then show ?thesis by (rule reads_step [OF assms(1)])
qed

lemma reads_list:
  assumes "getToken (lc_decimal_point R) (stream st) = Inr (TKN_LEFT_PAR, rest)"
    "reads R (CELL_EXPRESSION []) True (st\<lparr>stream := rest, parStack := parStack st + 1\<rparr>) (Inr (l, f, st1))"
    "expand_list R l st1 = Inr (c, st2)" "goes_on R env lf c st2 out"
  shows "reads R env lf st out"
proof -
  have "\<exists>n. after_call (compileExpression n R (CELL_EXPRESSION []) True (st\<lparr>stream := rest, parStack := parStack st + 1\<rparr>))
      (\<lambda>l st1. after_cell (expand_list R l st1) (link_next (compileExpression n R) env lf)) = Some out"
    by (rule after_call_both [OF assms(2,4)]) (simp add: assms(3) after_cell_def)
  then obtain n where "read_token (compileExpression n R) R env lf TKN_LEFT_PAR (st\<lparr>stream := rest\<rparr>) = Some out"
    by (auto simp: read_token_def)
  then show ?thesis by (rule reads_step [OF assms(1)])
qed

lemma reads_right:
  assumes "getToken (lc_decimal_point R) (stream st) = Inr (TKN_RIGHT_PAR, rest)" "parStack st \<noteq> 0"
  shows "reads R env lf st (Inr (env, True, st\<lparr>stream := rest, parStack := parStack st - 1\<rparr>))"
  by (rule reads_step [OF assms(1), of 0]) (simp add: read_token_def assms(2))

lemma reads_lambda:
  assumes "getToken (lc_decimal_point R) (stream st) = Inr (TKN_SYMBOL w, rest)" "lambda_type w = Some mk"
    "reads R (mk []) True (st\<lparr>stream := rest\<rparr>) out"
  shows "reads R (CELL_EXPRESSION []) True st out"
proof -
  obtain n where "compileExpression n R (mk []) True (st\<lparr>stream := rest\<rparr>) = Some out"
    using assms(3) by (auto simp: reads_def)
  then have "read_token (compileExpression n R) R (CELL_EXPRESSION []) True (TKN_SYMBOL w) (st\<lparr>stream := rest\<rparr>) = Some out"
    by (simp add: read_token_def assms(2) retype_at_def)
  then show ?thesis by (rule reads_step [OF assms(1)])
qed

lemma reads_blank:
  assumes "reads R env lf (st\<lparr>stream := s\<rparr>) out" "stream st = b @ s" "blank b"
  shows "reads R env lf st out"
proof -
  obtain n where "compileExpression n R env lf (st\<lparr>stream := s\<rparr>) = Some out" using assms(1) by (auto simp: reads_def)
  then obtain k where "read_step (compileExpression k R) R env lf (st\<lparr>stream := s\<rparr>) = Some out" by (cases n) auto
  then have "compileExpression (Suc k) R env lf st = Some out"
    using getToken_blank [OF assms(3)]
    by (cases "getToken (lc_decimal_point R) s") (auto simp: read_step_def assms(2))
  then show ?thesis unfolding reads_def by blast
qed

section \<open>Every text is read\<close>

lemma ends_append: "ends u \<Longrightarrow> u \<noteq> [] \<or> ends v \<Longrightarrow> ends (u @ v)"
  by (cases u) (auto simp: ends_def)

lemma ends_par: "ends (CHR '')'' # r)"
  by (simp add: ends_def delim_def)

lemma written_nonempty: "written R C c t D \<Longrightarrow> t \<noteq> []"
  by (induction rule: written_written_items.inducts(1) [where ?P2.0 = "\<lambda>_ _ _ _. True"])
    (auto simp: decimal_digits_def symbol_name_def)

text \<open>What reading a text means: the cell is linked to the envelope, in the state behind the text.\<close>

definition read_as :: "reader \<Rightarrow> contexts \<Rightarrow> cell \<Rightarrow> string \<Rightarrow> contexts \<Rightarrow> bool" where
  "read_as R C c t D \<longleftrightarrow> (\<forall>env lf st r out. stream st = t @ r \<longrightarrow> tables st = C \<longrightarrow> 0 \<le> parStack st \<longrightarrow> apart t r \<longrightarrow>
     goes_on R env lf c (st\<lparr>stream := r, tables := D\<rparr>) out \<longrightarrow> reads R env lf st out)"

definition items_read_as :: "reader \<Rightarrow> contexts \<Rightarrow> cell list \<Rightarrow> string \<Rightarrow> contexts \<Rightarrow> bool" where
  "items_read_as R C cs t D \<longleftrightarrow> (\<forall>env lf st r. stream st = t @ CHR '')'' # r \<longrightarrow> tables st = C \<longrightarrow> 0 < parStack st \<longrightarrow> isList env \<longrightarrow>
     reads R env lf st (Inr (with_items env (items env @ cs), True, st\<lparr>stream := r, tables := D, parStack := parStack st - 1\<rparr>)))"

lemma read_asI:
  assumes "\<And>env lf st r out. stream st = t @ r \<Longrightarrow> tables st = C \<Longrightarrow> 0 \<le> parStack st \<Longrightarrow> apart t r \<Longrightarrow>
     goes_on R env lf c (st\<lparr>stream := r, tables := D\<rparr>) out \<Longrightarrow> reads R env lf st out"
  shows "read_as R C c t D"
  using assms by (simp add: read_as_def)

text \<open>A text that is one token.\<close>

lemma atom_read_as:
  assumes "\<And>r. apart t r \<Longrightarrow> \<exists>x q. getToken (lc_decimal_point R) (t @ r) = Inr (x, q) \<and>
      x \<notin> {TKN_ERROR, TKN_EMPTY, TKN_RIGHT_PAR, TKN_LEFT_PAR, TKN_QUOTE} \<and> lambda_token x = None \<and>
      (\<forall>st. tables st = C \<longrightarrow> stream st = q \<longrightarrow> atom_cell R x st = Inr (c, st\<lparr>stream := r, tables := D\<rparr>))"
  shows "read_as R C c t D"
proof (rule read_asI)
  fix env lf st r out
  assume st: "stream st = t @ r" "tables st = C" "apart t r" "goes_on R env lf c (st\<lparr>stream := r, tables := D\<rparr>) out"
  obtain x q where x: "getToken (lc_decimal_point R) (t @ r) = Inr (x, q)"
      "x \<notin> {TKN_ERROR, TKN_EMPTY, TKN_RIGHT_PAR, TKN_LEFT_PAR, TKN_QUOTE}" "lambda_token x = None"
    and c: "\<forall>st. tables st = C \<longrightarrow> stream st = q \<longrightarrow> atom_cell R x st = Inr (c, st\<lparr>stream := r, tables := D\<rparr>)"
    using assms [OF st(3)] by blast
  show "reads R env lf st out"
  proof (rule reads_atom)
    show "getToken (lc_decimal_point R) (stream st) = Inr (x, q)" using x(1) st(1) by simp
    show "atom_cell R x (st\<lparr>stream := q\<rparr>) = Inr (c, st\<lparr>stream := r, tables := D\<rparr>)"
      using c [rule_format, of "st\<lparr>stream := q\<rparr>"] st(2) by simp
  qed (use x st(4) in auto)
qed

lemma apart_symbol: "symbol_name dp t \<Longrightarrow> apart (u @ t) r \<Longrightarrow> ends r"
  by (auto simp: apart_def symbol_name_def symbol_char_def)

lemma apart_number: "t \<noteq> [] \<Longrightarrow> is_digit (last t) \<or> last t = CHR ''L'' \<Longrightarrow> apart t r \<Longrightarrow> ends r"
  by (auto simp: apart_def is_digit_def)

lemma hex_digit: "is_digit c \<Longrightarrow> hex_value c = Some (of_char c - 48)"
  by (simp add: hex_value_def is_digit_def byte_def)

lemma signed_radix_digits:
  assumes "a_sign sg" "ds \<noteq> []" "\<forall>c\<in>set ds. is_digit c"
  shows "signed_radix 10 (sg @ ds) = (if sg = ''-'' then -1 else 1) * chunk_value ds"
proof -
  have "foldl (\<lambda>n c. 10 * n + (case hex_value c of None \<Rightarrow> 0 | Some d \<Rightarrow> d)) a ds = foldl (\<lambda>a c. 10 * a + (of_char c - 48)) a ds" for a
    using assms(3) by (induction ds arbitrary: a) (simp_all add: hex_digit)
  then have r: "radix 10 ds = chunk_value ds" by (simp add: radix_def chunk_value_def)
  have "is_digit (hd ds)" using assms(2,3) by simp
  then have "hd ds \<noteq> CHR ''-''" "hd ds \<noteq> CHR ''+''" by (auto simp: is_digit_def)
  then have "char_at 0 ds \<noteq> CHR ''-''" "char_at 0 ds \<noteq> CHR ''+''" using assms(2) by (simp_all add: char_at_0)
  then show ?thesis using assms(1) r by (auto simp: signed_radix_def a_sign_def char_at_Cons)
qed

lemma long_read_as:
  assumes "a_sign sg" "decimal_digits ds" "length (sg @ ds) \<le> MAX_DIGITS" "int64 (signed_radix 10 (sg @ ds))"
    "point_ok (lc_decimal_point R)"
  shows "read_as R C (CELL_LONG (signed_radix 10 (sg @ ds))) (sg @ ds) C"
proof (rule atom_read_as)
  fix r assume "apart (sg @ ds) r"
  moreover have d: "ds \<noteq> []" "is_digit (last ds)" using assms(2) by (auto simp: decimal_digits_def)
  ultimately have "ends r" using apart_number [of "sg @ ds" r] by simp
  from getToken_decimal(1) [OF assms(1,2,3,5) this]
  have "getToken (lc_decimal_point R) ((sg @ ds) @ r) = Inr (TKN_DECIMAL (sg @ ds), r)" by simp
  moreover have "decimal_cell (sg @ ds) = CELL_LONG (signed_radix 10 (sg @ ds))"
    using assms(4) d by (auto simp: decimal_cell_def is_digit_def)
  ultimately show "\<exists>x q. getToken (lc_decimal_point R) ((sg @ ds) @ r) = Inr (x, q) \<and>
      x \<notin> {TKN_ERROR, TKN_EMPTY, TKN_RIGHT_PAR, TKN_LEFT_PAR, TKN_QUOTE} \<and> lambda_token x = None \<and>
      (\<forall>st. tables st = C \<longrightarrow> stream st = q \<longrightarrow>
        atom_cell R x st = Inr (CELL_LONG (signed_radix 10 (sg @ ds)), st\<lparr>stream := r, tables := C\<rparr>))"
    by (auto simp: atom_cell_def)
qed

lemma big_read_as:
  assumes "a_sign sg" "decimal_digits ds" "length (sg @ ds) \<le> MAX_DIGITS" "point_ok (lc_decimal_point R)"
    "l = [] \<and> \<not> int64 (signed_radix 10 (sg @ ds)) \<or> l = ''L''"
    "stuffBigint (sg @ ds @ l) = c"
  shows "read_as R C c (sg @ ds @ l) C"
proof (rule atom_read_as)
  fix r assume "apart (sg @ ds @ l) r"
  moreover have d: "ds \<noteq> []" "is_digit (last ds)" using assms(2) by (auto simp: decimal_digits_def)
  ultimately have "ends r" using apart_number [of "sg @ ds @ l" r] assms(5) by auto
  then have "getToken (lc_decimal_point R) ((sg @ ds @ l) @ r) = Inr (TKN_DECIMAL (sg @ ds @ l), r)"
    using getToken_decimal [OF assms(1,2,3,4), of r] assms(5) by auto
  moreover have "decimal_cell (sg @ ds @ l) = c"
    using assms(5,6) d by (auto simp: decimal_cell_def is_digit_def)
  ultimately show "\<exists>x q. getToken (lc_decimal_point R) ((sg @ ds @ l) @ r) = Inr (x, q) \<and>
      x \<notin> {TKN_ERROR, TKN_EMPTY, TKN_RIGHT_PAR, TKN_LEFT_PAR, TKN_QUOTE} \<and> lambda_token x = None \<and>
      (\<forall>st. tables st = C \<longrightarrow> stream st = q \<longrightarrow> atom_cell R x st = Inr (c, st\<lparr>stream := r, tables := C\<rparr>))"
    by (auto simp: atom_cell_def)
qed

lemma stuffBigint_value:
  assumes "a_sign sg" "decimal_digits ds" "wf_bigint b" "bval b = signed_radix 10 (sg @ ds)" "bval b \<noteq> 0" "l = [] \<or> l = ''L''"
  shows "stuffBigint (sg @ ds @ l) = CELL_BIGINT b"
proof -
  have ds: "ds \<noteq> []" "\<forall>c\<in>set ds. is_digit c" using assms(2) by (auto simp: decimal_digits_def)
  have "bval (strToBigint (sg @ ds @ l) (length (sg @ ds @ l))) = bval b \<and> wf_bigint (strToBigint (sg @ ds @ l) (length (sg @ ds @ l)))"
    using strToBigint_split [of sg ds l] assms(1,4,6) ds signed_radix_digits [OF assms(1) ds] by (auto simp: a_sign_def)
  then have "strToBigint (sg @ ds @ l) (length (sg @ ds @ l)) = b" using bigint_eqI assms(3,5) by blast
  then show ?thesis by (simp add: stuffBigint_def)
qed

lemma zero_big: "stuffBigint ''0L'' = CELL_BIGINT \<lparr>bsign = 1, bdigits = [0]\<rparr>"
  by (simp add: stuffBigint_def strToBigint_def chunk_value_def)

lemma string_read_as:
  assumes "string_text s t" "length s \<le> MAX_STRING" "point_ok (lc_decimal_point R)"
  shows "read_as R C (CELL_STRING s) (CHR 0x22 # t) C"
  by (rule atom_read_as) (use getToken_string [OF assms] in \<open>auto simp: atom_cell_def\<close>)

lemma tagged_read_as:
  assumes "no_end_tag s" "point_ok (lc_decimal_point R)"
  shows "read_as R C (CELL_STRING s) (''[text]'' @ s @ LIMIT) C"
proof (rule atom_read_as)
  fix r
  have "getToken (lc_decimal_point R) ((''[text]'' @ s @ LIMIT) @ r) = Inr (TKN_SYMBOL ''[text]'', s @ LIMIT @ r)"
    using getToken_tag [OF assms(2), of "s @ LIMIT @ r"] by simp
  moreover have "atom_cell R (TKN_SYMBOL ''[text]'') st = Inr (CELL_STRING s, st\<lparr>stream := r, tables := C\<rparr>)"
    if "tables st = C" "stream st = s @ LIMIT @ r" for st
    using readStreamText_tag [OF assms(1), of r] that by (auto simp: atom_cell_def)
  ultimately show "\<exists>x q. getToken (lc_decimal_point R) ((''[text]'' @ s @ LIMIT) @ r) = Inr (x, q) \<and>
      x \<notin> {TKN_ERROR, TKN_EMPTY, TKN_RIGHT_PAR, TKN_LEFT_PAR, TKN_QUOTE} \<and> lambda_token x = None \<and>
      (\<forall>st. tables st = C \<longrightarrow> stream st = q \<longrightarrow> atom_cell R x st = Inr (CELL_STRING s, st\<lparr>stream := r, tables := C\<rparr>))"
    by (intro exI [of _ "TKN_SYMBOL ''[text]''"] exI [of _ "s @ LIMIT @ r"]) (simp add: lambda_type_def)
qed

lemma symbol_not_tag: "symbol_name dp t \<Longrightarrow> take 6 t \<noteq> ''[text]''"
  by (cases t) (auto simp: symbol_name_def)

lemma symbol_read_as:
  assumes "symbol_name (lc_decimal_point R) t" "lambda_type t = None" "read_symbol (currentContext R) t C = Inr (c, D)"
    "point_ok (lc_decimal_point R)"
  shows "read_as R C c t D"
proof (rule atom_read_as)
  fix r assume "apart t r"
  then have "ends r" using apart_symbol [OF assms(1), of "[]" r] by simp
  note tok = getToken_symbol(1) [OF assms(1,4) this]
  have "atom_cell R (TKN_SYMBOL t) st = Inr (c, st\<lparr>stream := r, tables := D\<rparr>)" if "tables st = C" "stream st = r" for st
    using assms(3) symbol_not_tag [OF assms(1)] that by (auto simp: atom_cell_def)
  then show "\<exists>x q. getToken (lc_decimal_point R) (t @ r) = Inr (x, q) \<and>
      x \<notin> {TKN_ERROR, TKN_EMPTY, TKN_RIGHT_PAR, TKN_LEFT_PAR, TKN_QUOTE} \<and> lambda_token x = None \<and>
      (\<forall>st. tables st = C \<longrightarrow> stream st = q \<longrightarrow> atom_cell R x st = Inr (c, st\<lparr>stream := r, tables := D\<rparr>))"
    using tok assms(2) by (intro exI [of _ "TKN_SYMBOL t"] exI [of _ r]) simp
qed

lemma qualified_read_as:
  assumes "symbol_name (lc_decimal_point R) p" "symbol_name (lc_decimal_point R) t" "point_ok (lc_decimal_point R)"
    "\<And>st rest. tables st = C \<Longrightarrow> getToken (lc_decimal_point R) (stream st) = Inr (TKN_SYMBOL t, rest) \<Longrightarrow>
        read_qualified R p st = Inr (c, st\<lparr>stream := rest, tables := D\<rparr>)"
  shows "read_as R C c (p @ CHR '':'' # t) D"
proof (rule atom_read_as)
  fix r assume "apart (p @ CHR '':'' # t) r"
  then have "ends r" using apart_symbol [OF assms(2), of "p @ '':''" r] by simp
  note tok = getToken_symbol(1) [OF assms(2,3) this]
  have "getToken (lc_decimal_point R) ((p @ CHR '':'' # t) @ r) = Inr (TKN_CONTEXT p, t @ r)"
    using getToken_symbol(2) [OF assms(1,3), of "t @ r"] by simp
  moreover have "atom_cell R (TKN_CONTEXT p) st = Inr (c, st\<lparr>stream := r, tables := D\<rparr>)"
    if "tables st = C" "stream st = t @ r" for st
    using assms(4) [OF that(1), of r] tok that(2) by (simp add: atom_cell_def)
  ultimately show "\<exists>x q. getToken (lc_decimal_point R) ((p @ CHR '':'' # t) @ r) = Inr (x, q) \<and>
      x \<notin> {TKN_ERROR, TKN_EMPTY, TKN_RIGHT_PAR, TKN_LEFT_PAR, TKN_QUOTE} \<and> lambda_token x = None \<and>
      (\<forall>st. tables st = C \<longrightarrow> stream st = q \<longrightarrow> atom_cell R x st = Inr (c, st\<lparr>stream := r, tables := D\<rparr>))"
    by (intro exI [of _ "TKN_CONTEXT p"] exI [of _ "t @ r"]) simp
qed

text \<open>Lists.\<close>

lemma expand_list_id: "items l = cs \<Longrightarrow> \<not> macro_head R cs \<Longrightarrow> expand_list R l st = Inr (l, st)"
  by (auto simp: expand_list_def macro_head_def split: list.splits cell.splits)

lemma blank_read_as:
  assumes "read_as R C c t D" "blank b" "t \<noteq> []"
  shows "read_as R C c (b @ t) D"
proof (rule read_asI)
  fix env lf st r out
  assume st: "stream st = (b @ t) @ r" "tables st = C" "0 \<le> parStack st" "apart (b @ t) r"
    "goes_on R env lf c (st\<lparr>stream := r, tables := D\<rparr>) out"
  have "reads R env lf (st\<lparr>stream := t @ r\<rparr>) out"
    using assms(1)[unfolded read_as_def, rule_format, of "st\<lparr>stream := t @ r\<rparr>" r env lf out] st assms(3) by (simp add: apart_def)
  then show "reads R env lf st out" by (rule reads_blank) (use st assms(2) in auto)
qed

lemma quote_read_as:
  assumes "read_as R C c t D" "point_ok (lc_decimal_point R)" "t \<noteq> []"
  shows "read_as R C (CELL_QUOTE c) (CHR 0x27 # t) D"
proof (rule read_asI)
  fix env lf st r out
  assume st: "stream st = (CHR 0x27 # t) @ r" "tables st = C" "0 \<le> parStack st" "apart (CHR 0x27 # t) r"
    "goes_on R env lf (CELL_QUOTE c) (st\<lparr>stream := r, tables := D\<rparr>) out"
  show "reads R env lf st out"
  proof (rule reads_quote)
    show "getToken (lc_decimal_point R) (stream st) = Inr (TKN_QUOTE, t @ r)"
      using getToken_punct(3) [OF assms(2)] st(1) by simp
    show "goes_on R env lf (CELL_QUOTE c) (st\<lparr>stream := r, tables := D\<rparr>) out" by (rule st(5))
    show "reads R (CELL_QUOTE CELL_NIL) True (st\<lparr>stream := t @ r\<rparr>) (Inr (CELL_QUOTE c, True, st\<lparr>stream := r, tables := D\<rparr>))"
      using assms(1)[unfolded read_as_def, rule_format, of "st\<lparr>stream := t @ r\<rparr>" r "CELL_QUOTE CELL_NIL" True] st assms(3)
        goes_on_quote [of "CELL_QUOTE CELL_NIL" R c "st\<lparr>stream := r, tables := D\<rparr>"] by (simp add: apart_def)
  qed
qed

text \<open>A list: \<open>head\<close> is what stands between the parenthesis and the items, and sets the type.\<close>

lemma list_read_as:
  assumes "items_read_as R C cs t D" "\<not> macro_head R cs" "point_ok (lc_decimal_point R)" "isList (mk [])" "mk cs = with_items (mk []) cs" "items (mk cs) = cs" "items (mk []) = []"
    and head: "\<And>st s out. stream st = head @ s \<Longrightarrow> ends s \<Longrightarrow> reads R (mk []) True (st\<lparr>stream := s\<rparr>) out \<Longrightarrow> reads R (CELL_EXPRESSION []) True st out"
    and t: "head \<noteq> [] \<Longrightarrow> ends t" and plain: "head = [] \<Longrightarrow> mk [] = CELL_EXPRESSION []"
  shows "read_as R C (mk cs) (CHR ''('' # head @ t @ '')'') D"
proof (rule read_asI)
  fix env lf st r out
  assume st: "stream st = (CHR ''('' # head @ t @ '')'') @ r" "tables st = C" "0 \<le> parStack st"
    "goes_on R env lf (mk cs) (st\<lparr>stream := r, tables := D\<rparr>) out"
  let ?st = "st\<lparr>stream := head @ t @ CHR '')'' # r, parStack := parStack st + 1\<rparr>"
  have body: "reads R (mk []) True (?st\<lparr>stream := t @ CHR '')'' # r\<rparr>) (Inr (mk cs, True, st\<lparr>stream := r, tables := D\<rparr>))"
    using assms(1)[unfolded items_read_as_def, rule_format, of "?st\<lparr>stream := t @ CHR '')'' # r\<rparr>" r "mk []" True] st assms(4,5,7) by simp
  have list: "reads R (CELL_EXPRESSION []) True ?st (Inr (mk cs, True, st\<lparr>stream := r, tables := D\<rparr>))"
  proof (cases "head = []")
    case True
    then have "?st = ?st\<lparr>stream := t @ CHR '')'' # r\<rparr>" by (cases st) simp
    then show ?thesis using body plain [OF True] by metis
  next
    case False
    have "ends (t @ CHR '')'' # r)" using ends_append [OF t [OF False], of "CHR '')'' # r"] ends_par by simp
    then show ?thesis by (rule head [OF _ _ body, rotated]) simp
  qed
  have tok: "getToken (lc_decimal_point R) (stream st) = Inr (TKN_LEFT_PAR, head @ t @ CHR '')'' # r)"
    using getToken_punct(1) [OF assms(3)] st(1) by simp
  show "reads R env lf st out"
    by (rule reads_list [OF tok list expand_list_id [OF assms(6,2)] st(4)])
qed

lemma lambda_head:
  assumes "blank b" "symbol_name (lc_decimal_point R) word" "lambda_type word = Some mk" "point_ok (lc_decimal_point R)"
    "stream st = (b @ word) @ s" "ends s" "reads R (mk []) True (st\<lparr>stream := s\<rparr>) out"
  shows "reads R (CELL_EXPRESSION []) True st out"
proof (rule reads_blank [OF _ _ assms(1)])
  show "stream st = b @ word @ s" using assms(5) by simp
  show "reads R (CELL_EXPRESSION []) True (st\<lparr>stream := word @ s\<rparr>) out"
    by (rule reads_lambda [OF _ assms(3)]) (use getToken_symbol(1) [OF assms(2,4,6)] assms(7) in auto)
qed

lemma nil_items:
  assumes "blank b" "point_ok (lc_decimal_point R)"
  shows "items_read_as R C [] b C"
  unfolding items_read_as_def
proof (intro allI impI)
  fix env lf r and st :: reading
  assume st: "stream st = b @ CHR '')'' # r" "tables st = C" "0 < parStack st" "isList env"
  have "with_items env (items env) = env" using st(4) by (cases env) auto
  then have "reads R env lf (st\<lparr>stream := CHR '')'' # r\<rparr>) (Inr (with_items env (items env @ []), True, st\<lparr>stream := r, tables := C, parStack := parStack st - 1\<rparr>))"
    using reads_right [of R "st\<lparr>stream := CHR '')'' # r\<rparr>" r env lf] getToken_punct(2) [OF assms(2)] st by (cases st) simp
  then show "reads R env lf st (Inr (with_items env (items env @ []), True, st\<lparr>stream := r, tables := C, parStack := parStack st - 1\<rparr>))"
    by (rule reads_blank) (use st assms(1) in auto)
qed

lemma cons_items:
  assumes "read_as R C c t D" "items_read_as R D cs u E" "apart t u"
  shows "items_read_as R C (c # cs) (t @ u) E"
  unfolding items_read_as_def
proof (intro allI impI)
  fix env lf r and st :: reading
  assume st: "stream st = (t @ u) @ CHR '')'' # r" "tables st = C" "0 < parStack st" "isList env"
  let ?st = "st\<lparr>stream := u @ CHR '')'' # r, tables := D\<rparr>"
  let ?out = "Inr (with_items env (items env @ c # cs), True, st\<lparr>stream := r, tables := E, parStack := parStack st - 1\<rparr>)"
  have env: "isList (linkCell env c)" "\<not> isQuote env" "with_items (linkCell env c) (items (linkCell env c) @ cs) = with_items env (items env @ c # cs)"
    using st(4) by (cases env; simp)+
  have "reads R (linkCell env c) False ?st ?out"
    using assms(2)[unfolded items_read_as_def, rule_format, of ?st r "linkCell env c" False] st env by simp
  then have "goes_on R env lf c ?st ?out" by (intro goes_on_item) (use env st in auto)
  moreover have "apart t (u @ CHR '')'' # r)"
    using assms(3) ends_append [of u "CHR '')'' # r"] ends_par by (auto simp: apart_def)
  ultimately show "reads R env lf st ?out"
    using assms(1)[unfolded read_as_def, rule_format, of st "u @ CHR '')'' # r" env lf ?out] st by simp
qed

lemma lambda_words:
  "word \<in> {''lambda'', ''fn''} \<Longrightarrow> point_ok dp \<Longrightarrow> symbol_name dp word \<and> lambda_type word = Some CELL_LAMBDA"
  "word \<in> {''lambda-macro'', ''fn-macro''} \<Longrightarrow> point_ok dp \<Longrightarrow> symbol_name dp word \<and> lambda_type word = Some CELL_FEXPR"
  by (elim insertE emptyE; auto simp: symbol_name_def symbol_char_def lambda_type_def byte_def is_digit_def MAX_SYMBOL_def point_ok_def)+

lemma read_qualified_symbol:
  assumes "prefix_symbol (currentContext R) p C = Inr (ctx, C1)" "contents_of ctx C1 = Inr (CELL_CONTEXT ctx)"
    "translateCreateSymbol t AS_NIL (sname ctx) True C1 = Some (s, D)"
    "tables st = C" "getToken (lc_decimal_point R) (stream st) = Inr (TKN_SYMBOL t, rest)"
  shows "read_qualified R p st = Inr (CELL_SYMBOL s, st\<lparr>stream := rest, tables := D\<rparr>)"
  using assms by (simp add: read_qualified_def or_undefined_def)

lemma read_qualified_dynamic:
  assumes "prefix_symbol (currentContext R) p C = Inr (ctx, D)" "contents_of ctx D = Inr v" "v \<noteq> CELL_CONTEXT ctx"
    "tables st = C" "getToken (lc_decimal_point R) (stream st) = Inr (TKN_SYMBOL t, rest)"
  shows "read_qualified R p st = Inr (CELL_DYN_SYMBOL (sname ctx) t, st\<lparr>stream := rest, tables := D\<rparr>)"
  using assms by (simp add: read_qualified_def)

lemma stream_same: "stream st = s \<Longrightarrow> st\<lparr>stream := s\<rparr> = (st :: reading)"
  by (cases st) simp

lemma text_read:
  assumes dp: "point_ok (lc_decimal_point R)"
  shows "written R C c t D \<Longrightarrow> read_as R C c t D"
    and "written_items R C cs t D \<Longrightarrow> items_read_as R C cs t D"
proof (induction rule: written_written_items.inducts)
  case (w_blank C c t D b)
  then show ?case by (intro blank_read_as written_nonempty)
next
  case (w_long sg ds C)
  then show ?case using dp by (intro long_read_as)
next
  case (w_big sg ds b l C)
  then show ?case using dp by (intro big_read_as stuffBigint_value) auto
next
  case (w_big_zero C)
  have "read_as R C (CELL_BIGINT \<lparr>bsign = 1, bdigits = [0]\<rparr>) ([] @ ''0'' @ ''L'') C"
    by (rule big_read_as) (use dp zero_big in \<open>auto simp: a_sign_def decimal_digits_def is_digit_def MAX_DIGITS_def\<close>)
  then show ?case by simp
next
  case (w_string s t C)
  then show ?case using dp by (intro string_read_as)
next
  case (w_tagged s C)
  then show ?case using dp by (intro tagged_read_as)
next
  case (w_symbol t C c D)
  then show ?case using dp by (intro symbol_read_as)
next
  case (w_qualified p t C ctx C1 s D)
  show ?case
    by (rule qualified_read_as [OF w_qualified(1,2) dp read_qualified_symbol [OF w_qualified(3-5)]])
next
  case (w_dynamic p t C ctx D v)
  show ?case
    by (rule qualified_read_as [OF w_dynamic(1,2) dp read_qualified_dynamic [OF w_dynamic(3-5)]])
next
  case (w_quote C c t D)
  then show ?case using dp by (intro quote_read_as written_nonempty)
next
  case (w_list C cs t D)
  have "read_as R C (CELL_EXPRESSION cs) (CHR ''('' # [] @ t @ '')'') D"
    by (rule list_read_as [OF w_list(2,3) dp, where mk = CELL_EXPRESSION]) (simp_all add: stream_same)
  then show ?case by simp
next
  case (w_lambda C cs t D b word)
  note w = lambda_words(1) [OF w_lambda(5) dp]
  have "read_as R C (CELL_LAMBDA cs) (CHR ''('' # (b @ word) @ t @ '')'') D"
    by (rule list_read_as [OF w_lambda(2,3) dp, where mk = CELL_LAMBDA])
      (use w w_lambda lambda_head [OF w_lambda(4) _ _ dp, where mk = CELL_LAMBDA and word = word] in \<open>auto simp: symbol_name_def\<close>)
  then show ?case by simp
next
  case (w_fexpr C cs t D b word)
  note w = lambda_words(2) [OF w_fexpr(5) dp]
  have "read_as R C (CELL_FEXPR cs) (CHR ''('' # (b @ word) @ t @ '')'') D"
    by (rule list_read_as [OF w_fexpr(2,3) dp, where mk = CELL_FEXPR])
      (use w w_fexpr lambda_head [OF w_fexpr(4) _ _ dp, where mk = CELL_FEXPR and word = word] in \<open>auto simp: symbol_name_def\<close>)
  then show ?case by simp
next
  case (w_nil b C)
  then show ?case using dp by (intro nil_items)
next
  case (w_cons C c t D cs u E)
  then show ?case by (intro cons_items)
qed

lemma read_expr_of_reads:
  assumes "reads R (CELL_QUOTE CELL_NIL) True \<lparr>stream = s, parStack = 0, tables = C\<rparr> x" "c_string s" "point_ok (lc_decimal_point R)"
  shows "compileExpression (length s + 1) R (CELL_QUOTE CELL_NIL) True \<lparr>stream = s, parStack = 0, tables = C\<rparr> = Some x" "cstr s = s"
proof -
  let ?st = "\<lparr>stream = s, parStack = 0, tables = C\<rparr>"
  have "lc_decimal_point R \<noteq> CHR 0x00" using assms(3) by (auto simp: point_ok_def)
  then have "read_ok (length s) (compileExpression (length s + 1) R (CELL_QUOTE CELL_NIL) True ?st)"
    using compileExpression_ok [of R ?st "length s + 1"] by simp
  then obtain y where y: "compileExpression (length s + 1) R (CELL_QUOTE CELL_NIL) True ?st = Some y"
    by (auto simp: read_ok_def)
  obtain n where n: "compileExpression n R (CELL_QUOTE CELL_NIL) True ?st = Some x" using assms(1) by (auto simp: reads_def)
  let ?m = "max n (length s + 1)"
  show "compileExpression (length s + 1) R (CELL_QUOTE CELL_NIL) True ?st = Some x"
    using compileExpression_mono [OF n, of ?m] compileExpression_mono [OF y, of ?m] y by simp
  show "cstr s = s" using assms(2) by (simp add: cstr_def c_string_def takeWhile_eq_all_conv)
qed


text \<open>A MAIN context that holds itself and a symbol.\<close>

definition small_main :: contexts where
  "small_main = (\<lambda>c. if c = MAIN
     then Sym BLACK NIL_SYM (''MAIN'', new_info AS_CONTEXT MAIN ''MAIN'')
            (Sym RED NIL_SYM (''x'', new_info AS_NIL MAIN ''x'') NIL_SYM)
     else NIL_SYM)"

definition small_reader :: reader where
  "small_reader = \<lparr>lc_decimal_point = CHR ''.'', lib_atof = (\<lambda>s. Fin 0), is_macro = (\<lambda>s. False),
     expand_macro = (\<lambda>c C. Inr (c, C)), currentContext = MAIN\<rparr>"

lemma small_wf: "wf_contexts small_main"
  by (auto simp: small_main_def wf_contexts_def wf_NIL_SYM wf_table_def ordered_def balanced_def name_ok_def c_string_def MAIN_def)

lemma small_item: "written small_reader C (CELL_LONG 12) ''12'' C"
  using w_long [of "[]" "''12''" small_reader C]
  by (simp add: a_sign_def decimal_digits_def is_digit_def MAX_DIGITS_def signed_radix_def radix_def char_at_def int64_def hex_value_def byte_def)

lemma small_items: "written_items small_reader C [CELL_LONG 12] ''12 '' C"
  using w_cons [OF small_item w_nil, of "'' ''" C] by (simp add: apart_def ends_def delim_def byte_def blank_space blank_Nil)


section \<open>Missing parentheses\<close>

text \<open>A text that is cut off inside a list: some items, and perhaps the beginning of another list.\<close>

inductive unclosed :: "reader \<Rightarrow> contexts \<Rightarrow> string \<Rightarrow> bool" for R :: reader where
  unclosed_here: "written_items R C cs t D \<Longrightarrow> unclosed R C (CHR ''('' # t)"
| unclosed_in: "written_items R C cs t D \<Longrightarrow> unclosed R D u \<Longrightarrow> unclosed R C (CHR ''('' # t @ u)"
| unclosed_quote: "unclosed R C u \<Longrightarrow> unclosed R C (CHR 0x27 # u)"

lemma unclosed_ends: "unclosed R C u \<Longrightarrow> ends (u @ r) \<and> u \<noteq> []"
  by (cases rule: unclosed.cases, assumption) (auto simp: ends_def delim_def)

lemma items_end:
  assumes dp: "point_ok (lc_decimal_point R)"
  shows "written_items R C cs t D \<Longrightarrow> stream st = t \<Longrightarrow> tables st = C \<Longrightarrow> 0 < parStack st \<Longrightarrow> isList env \<Longrightarrow>
    reads R env lf st (Inl ERR_MISSING_PAR)"
proof (induction cs arbitrary: C t env lf st)
  case Nil
  then have "blank t" by (auto elim: written_items.cases)
  then have "getToken (lc_decimal_point R) (stream st) = Inr (TKN_EMPTY, [])"
    using getToken_blank [of t _ "[]"] Nil.prems(2) by (simp add: getToken_def)
  then show ?case
    by (rule reads_step [where n = 0]) (use Nil.prems(4) in \<open>simp add: read_token_def\<close>)
next
  case (Cons c cs)
  obtain t1 u E where w: "written R C c t1 E" "written_items R E cs u D" "apart t1 u" "t = t1 @ u"
    using Cons.prems(1) by (auto elim: written_items.cases)
  let ?st = "st\<lparr>stream := u, tables := E\<rparr>"
  have env: "isList (linkCell env c)" "\<not> isQuote env" using Cons.prems(5) by (cases env; simp)+
  have "goes_on R env lf c ?st (Inl ERR_MISSING_PAR)"
  proof (cases "u = []")
    case True
    then show ?thesis using env Cons.prems(4) by (simp add: goes_on_def link_next_def)
  next
    case False
    have "reads R (linkCell env c) False ?st (Inl ERR_MISSING_PAR)"
      by (rule Cons.IH [OF w(2)]) (use Cons.prems env in auto)
    then show ?thesis by (intro goes_on_item) (use False env Cons.prems(4) in auto)
  qed
  then show ?case
    using text_read(1) [OF dp w(1), unfolded read_as_def, rule_format, of st u env lf] w Cons.prems by simp
qed

lemma items_then:
  assumes dp: "point_ok (lc_decimal_point R)" and r: "ends r" "r \<noteq> []"
  shows "written_items R C cs t D \<Longrightarrow> stream st = t @ r \<Longrightarrow> tables st = C \<Longrightarrow> 0 < parStack st \<Longrightarrow> isList env \<Longrightarrow>
    (\<And>env lf. isList env \<Longrightarrow> reads R env lf (st\<lparr>stream := r, tables := D\<rparr>) out) \<Longrightarrow> reads R env lf st out"
proof (induction cs arbitrary: C t env lf st)
  case Nil
  then have b: "blank t" "C = D" by (auto elim: written_items.cases)
  have "st\<lparr>stream := r, tables := D\<rparr> = st\<lparr>stream := r\<rparr>" using Nil.prems(3) b(2) by (cases st) simp
  then show ?case using reads_blank [OF _ Nil.prems(2) b(1)] Nil.prems(5,6) by metis
next
  case (Cons c cs)
  obtain t1 u E where w: "written R C c t1 E" "written_items R E cs u D" "apart t1 u" "t = t1 @ u"
    using Cons.prems(1) by (auto elim: written_items.cases)
  let ?st = "st\<lparr>stream := u @ r, tables := E\<rparr>"
  have env: "isList (linkCell env c)" "\<not> isQuote env" using Cons.prems(5) by (cases env; simp)+
  have "reads R (linkCell env c) False ?st out"
    by (rule Cons.IH [OF w(2)]) (use Cons.prems env in auto)
  then have "goes_on R env lf c ?st out" by (intro goes_on_item) (use r env Cons.prems(4) in auto)
  moreover have "apart t1 (u @ r)" using w(3) ends_append [of u r] r by (auto simp: apart_def)
  ultimately show ?case
    using text_read(1) [OF dp w(1), unfolded read_as_def, rule_format, of st "u @ r" env lf out] w Cons.prems by simp
qed

lemma reads_list_error:
  assumes "getToken (lc_decimal_point R) (stream st) = Inr (TKN_LEFT_PAR, rest)"
    "reads R (CELL_EXPRESSION []) True (st\<lparr>stream := rest, parStack := parStack st + 1\<rparr>) (Inl e)"
  shows "reads R env lf st (Inl e)"
proof -
  obtain n where "compileExpression n R (CELL_EXPRESSION []) True (st\<lparr>stream := rest, parStack := parStack st + 1\<rparr>) = Some (Inl e)"
    using assms(2) by (auto simp: reads_def)
  then have "read_token (compileExpression n R) R env lf TKN_LEFT_PAR (st\<lparr>stream := rest\<rparr>) = Some (Inl e)"
    by (simp add: read_token_def after_call_def)
  then show ?thesis by (rule reads_step [OF assms(1)])
qed

lemma reads_quote_error:
  assumes "getToken (lc_decimal_point R) (stream st) = Inr (TKN_QUOTE, rest)"
    "reads R (CELL_QUOTE CELL_NIL) True (st\<lparr>stream := rest\<rparr>) (Inl e)"
  shows "reads R env lf st (Inl e)"
proof -
  obtain n where "compileExpression n R (CELL_QUOTE CELL_NIL) True (st\<lparr>stream := rest\<rparr>) = Some (Inl e)"
    using assms(2) by (auto simp: reads_def)
  then have "read_token (compileExpression n R) R env lf TKN_QUOTE (st\<lparr>stream := rest\<rparr>) = Some (Inl e)"
    by (simp add: read_token_def after_call_def)
  then show ?thesis by (rule reads_step [OF assms(1)])
qed

lemma unclosed_reads:
  assumes dp: "point_ok (lc_decimal_point R)"
  shows "unclosed R C t \<Longrightarrow> stream st = t \<Longrightarrow> tables st = C \<Longrightarrow> 0 \<le> parStack st \<Longrightarrow> reads R env lf st (Inl ERR_MISSING_PAR)"
proof (induction arbitrary: env lf st rule: unclosed.induct)
  case (unclosed_here C cs t D)
  show ?case
    by (rule reads_list_error [OF _ items_end [OF dp unclosed_here(1)]])
      (use getToken_punct(1) [OF dp] unclosed_here in auto)
next
  case (unclosed_in C cs t D u)
  have u: "ends u" "u \<noteq> []" using unclosed_ends [OF unclosed_in(2), of "[]"] by auto
  show ?case
    by (rule reads_list_error [OF _ items_then [OF dp u unclosed_in(1)]])
      (use getToken_punct(1) [OF dp] unclosed_in in auto)
next
  case (unclosed_quote C u)
  show ?case
    by (rule reads_quote_error) (use getToken_punct(3) [OF dp] unclosed_quote in auto)
qed



end
