(* ===== verification/NL_Printer.thy ===== *)
theory NL_Printer
  imports NL_Grammar
begin

text \<open>
The printer of \<^verbatim>\<open>newlisp.c\<close>: \<^verbatim>\<open>printCell\<close>, \<^verbatim>\<open>printString\<close>, \<^verbatim>\<open>printExpression\<close>,
  \<^verbatim>\<open>prettyPrint\<close> and \<^verbatim>\<open>varPrintf\<close> on a device that collects the text, and \<^verbatim>\<open>printArray\<close> of
  \<^verbatim>\<open>nl-list.c\<close>. The lemmas show that the printed text of a cell is a text of the language of
  \<open>NL_Grammar\<close> that means the cell, with any line breaks and indentation; with the results on the reader,
  reading inverts printing. The marks of the debugger around a cell are not modelled.
\<close>

section \<open>The printer\<close>

text \<open>The settings of the printer and what it takes from its surroundings: the float format, the
  printed form of a primitive's address and the indentation flags of symbols.\<close>

record printer =
  prettyPrintMaxLength :: int
  prettyPrintTab :: string
  stringOutputRaw :: bool
  print_float :: "dbl \<Rightarrow> string"
  print_primitive :: "int \<Rightarrow> string"
  print_type :: "symbol \<Rightarrow> nat"
  pcontext :: string
  ptables :: contexts

text \<open>The state: what is printed so far, and the counters of the pretty printer. The flag
  \<^verbatim>\<open>PRETTYPRINT_STRING\<close> is set while a cell is converted to a string.\<close>

record printing =
  printed :: string
  prettyPrintPars :: int
  prettyPrintCurrent :: int
  prettyPrintLength :: int
  flag_double :: bool
  flag_string :: bool

definition varPrintf :: "string \<Rightarrow> printing \<Rightarrow> printing" where
  "varPrintf s st =
     st\<lparr>printed := printed st @ s, prettyPrintLength := prettyPrintLength st + int (length s)\<rparr>"

definition prettyPrint :: "printer \<Rightarrow> printing \<Rightarrow> printing" where
  "prettyPrint P st =
     (if flag_double st \<or> flag_string st then st
      else let st1 = (if prettyPrintPars st > 0 then varPrintf [CHR 0x0A] st else st);
               st2 = varPrintf (concat (replicate (nat (prettyPrintPars st)) (prettyPrintTab P))) st1
           in st2\<lparr>prettyPrintLength := prettyPrintPars st, prettyPrintCurrent := prettyPrintPars st, flag_double := True\<rparr>)"

text \<open>A character of a string: \<^verbatim>\<open>%03u\<close> prints three decimal digits. A long string is printed between
  tags, where \<^verbatim>\<open>%c\<close> of a NUL prints nothing.\<close>

definition three_digits :: "int \<Rightarrow> string" where
  "three_digits n = [char_of (48 + n div 100), char_of (48 + n div 10 mod 10), char_of (48 + n mod 10)]"

definition string_char :: "bool \<Rightarrow> char \<Rightarrow> string" where
  "string_char raw c =
     (if c = CHR 0x08 then [CHR 0x5C, CHR ''b'']
      else if c = CHR 0x0C then [CHR 0x5C, CHR ''f'']
      else if c = CHR 0x0A then [CHR 0x5C, CHR ''n'']
      else if c = CHR 0x0D then [CHR 0x5C, CHR ''r'']
      else if c = CHR 0x09 then [CHR 0x5C, CHR ''t'']
      else if c = CHR 0x5C then [CHR 0x5C, CHR 0x5C]
      else if c = CHR 0x22 then [CHR 0x5C, CHR 0x22]
      else if byte c < 32 \<or> raw \<and> byte c > 126 then CHR 0x5C # three_digits (byte c)
      else [c])"

definition printString :: "bool \<Rightarrow> string \<Rightarrow> string" where
  "printString raw s =
     (if length s \<ge> MAX_STRING then ''[text]'' @ filter (\<lambda>c. c \<noteq> CHR 0x00) s @ ''[/text]''
      else CHR 0x22 # concat (map (string_char raw) s) @ [CHR 0x22])"

text \<open>A symbol is printed with its context when the name alone would not be read back as it.\<close>

definition info_of :: "symbol \<Rightarrow> contexts \<Rightarrow> sym_info" where
  "info_of s C =
     (case lookupSymbol (sname s) (scontext s) C of
        Some (Some i) \<Rightarrow> i
      | _ \<Rightarrow> new_info AS_NIL (scontext s) (sname s))"

definition found :: "string \<Rightarrow> string \<Rightarrow> contexts \<Rightarrow> bool" where
  "found name context C \<longleftrightarrow> (case lookupSymbol name context C of Some (Some i) \<Rightarrow> True | _ \<Rightarrow> False)"

definition symbol_text :: "printer \<Rightarrow> symbol \<Rightarrow> string" where
  "symbol_text P s =
     (let C = ptables P; current = pcontext P
      in if scontext s \<noteq> current \<and> (\<not> sym_global (info_of s C) \<or> found (sname s) current C)
           \<and> sym_contents (info_of s C) \<noteq> CELL_CONTEXT s
         then scontext s @ CHR '':'' # sname s
         else if scontext s = current \<and> current \<noteq> MAIN \<and> found (sname s) MAIN C
           \<and> sym_global (info_of \<lparr>scontext = MAIN, sname = sname s\<rparr> C)
         then current @ CHR '':'' # sname s
         else sname s)"

definition bigint_text :: "bigint \<Rightarrow> string" where
  "bigint_text b = (case bigintToDigits b 48 of None \<Rightarrow> [] | Some ds \<Rightarrow> chars ds) @ ''L''"

text \<open>How many items of a list stay on the first line.\<close>

fun first_line :: "printer \<Rightarrow> cell list \<Rightarrow> nat" where
  "first_line P (CELL_SYMBOL s # cs) = print_type P s"
| "first_line P cs = 0"

definition open_list :: "printer \<Rightarrow> printing \<Rightarrow> printing" where
  "open_list P st =
     (if prettyPrintPars st \<le> prettyPrintCurrent st \<or> prettyPrintLength st > prettyPrintMaxLength P
      then prettyPrint P st else st)"

definition open_par :: "string \<Rightarrow> printing \<Rightarrow> printing" where
  "open_par s st = (varPrintf s st)\<lparr>prettyPrintPars := prettyPrintPars st + 1\<rparr>"

definition close_par :: "printing \<Rightarrow> printing" where
  "close_par st = (varPrintf '')'' st)\<lparr>prettyPrintPars := prettyPrintPars st - 1\<rparr>"

definition line_full :: "printer \<Rightarrow> printing \<Rightarrow> printing" where
  "line_full P st = (if prettyPrintLength st > prettyPrintMaxLength P then prettyPrint P st else st)"

text \<open>\<open>printCell\<close> with \<open>printExpression\<close> in it. The items of a list are printed in two loops:
  \<open>Some k\<close> counts the items left on the first line, \<open>None\<close> is the second loop. An array prints as
  the list of its items.\<close>

fun printCell :: "printer \<Rightarrow> bool \<Rightarrow> cell \<Rightarrow> printing \<Rightarrow> printing"
  and print_items :: "printer \<Rightarrow> nat option \<Rightarrow> cell list \<Rightarrow> printing \<Rightarrow> printing"
  and print_none :: "printer \<Rightarrow> cell list \<Rightarrow> printing \<Rightarrow> printing" where
  "printCell P printFlag CELL_NIL st = (varPrintf ''nil'' st)\<lparr>flag_double := False\<rparr>"
| "printCell P printFlag CELL_TRUE st = (varPrintf ''true'' st)\<lparr>flag_double := False\<rparr>"
| "printCell P printFlag (CELL_LONG n) st = (varPrintf (print_int n) st)\<lparr>flag_double := False\<rparr>"
| "printCell P printFlag (CELL_BIGINT b) st = (varPrintf (bigint_text b) st)\<lparr>flag_double := False\<rparr>"
| "printCell P printFlag (CELL_FLOAT x) st = (varPrintf (print_float P x) st)\<lparr>flag_double := False\<rparr>"
| "printCell P printFlag (CELL_STRING s) st =
     (varPrintf (if printFlag then printString (stringOutputRaw P) s else cstr s) st)\<lparr>flag_double := False\<rparr>"
| "printCell P printFlag (CELL_SYMBOL s) st = (varPrintf (symbol_text P s) st)\<lparr>flag_double := False\<rparr>"
| "printCell P printFlag (CELL_CONTEXT s) st = (varPrintf (symbol_text P s) st)\<lparr>flag_double := False\<rparr>"
| "printCell P printFlag (CELL_PRIMITIVE a) st = (varPrintf (print_primitive P a) st)\<lparr>flag_double := False\<rparr>"
| "printCell P printFlag (CELL_QUOTE c) st =
     (printCell P printFlag c ((varPrintf [CHR 0x27] st)\<lparr>flag_double := True\<rparr>))\<lparr>flag_double := False\<rparr>"
| "printCell P printFlag (CELL_DYN_SYMBOL c n) st = (varPrintf (c @ CHR '':'' # n) st)\<lparr>flag_double := False\<rparr>"
| "printCell P printFlag (CELL_LAMBDA cs) st =
     (close_par (print_items P None cs (open_par ''(lambda '' (open_list P st))))\<lparr>flag_double := False\<rparr>"
| "printCell P printFlag (CELL_FEXPR cs) st =
     (close_par (print_items P None cs (open_par ''(lambda-macro '' (open_list P st))))\<lparr>flag_double := False\<rparr>"
| "printCell P printFlag (CELL_EXPRESSION cs) st =
     (close_par
        (if first_line P cs = 0 then print_items P None cs (open_par ''('' (open_list P st))
         else print_items P (Some (first_line P cs)) cs (open_par ''('' (prettyPrint P (open_list P st)))))\<lparr>flag_double := False\<rparr>"
| "printCell P printFlag (CELL_ARRAY cs) st =
     (close_par
        (if first_line P cs = 0 then print_items P None cs (open_par ''('' (open_list P st))
         else print_items P (Some (first_line P cs)) cs (open_par ''('' (prettyPrint P (open_list P st)))))\<lparr>flag_double := False\<rparr>"
| "print_items P (Some 0) cs st = print_none P cs (prettyPrint P st)"
| "print_items P (Some (Suc k)) [] st = prettyPrint P (st\<lparr>flag_double := True\<rparr>)"
| "print_items P (Some (Suc k)) (c # cs) st =
     print_items P (Some k) cs
       (let st1 = printCell P True c st in if cs \<noteq> [] then varPrintf '' '' st1 else st1\<lparr>flag_double := True\<rparr>)"
| "print_items P None cs st = print_none P cs st"
| "print_none P [] st = st"
| "print_none P (c # cs) st =
     print_none P cs
       (let st1 = printCell P True c (line_full P st) in if cs \<noteq> [] then varPrintf '' '' st1 else st1)"

section \<open>Printed texts belong to the language\<close>

lemma digits_text:
  "chunk_value (digits n) = int n \<and> decimal_digits (digits n) \<and> 10 ^ (length (digits n) - 1) \<le> max n 1"
proof (induction n rule: digits.induct)
  case (1 n)
  have d: "is_digit (char_of (48 + k))" "of_char (char_of (48 + k)) = 48 + int k" if "k < 10" for k :: nat
  proof -
    have "(of_char (char_of (48 + k)) :: int) = int (of_char (char_of (48 + k)))" by (simp only: of_nat_of_char)
    then show "of_char (char_of (48 + k)) = 48 + int k" using that by (simp only: of_char_of) simp
    then show "is_digit (char_of (48 + k))" using that by (simp add: is_digit_def)
  qed
  show ?case
  proof (cases "n < 10")
    case True
    then show ?thesis using d [of n] by (simp add: digits.simps [of n] chunk_value_Cons decimal_digits_def)
  next
    case False
    let ?q = "digits (n div 10)"
    have IH: "chunk_value ?q = int (n div 10)" "?q \<noteq> []" "\<forall>c\<in>set ?q. is_digit c" "hd ?q = CHR ''0'' \<longrightarrow> length ?q = 1"
      "10 ^ (length ?q - 1) \<le> max (n div 10) 1"
      using 1 False by (auto simp: decimal_digits_def)
    have "hd ?q \<noteq> CHR ''0''"
    proof
      assume "hd ?q = CHR ''0''"
      then have "?q = ''0''" using IH(2,4) by (cases ?q) auto
      then have "int (n div 10) = 0" using IH(1) by (simp add: chunk_value_Cons)
      then show False using False by simp
    qed
    moreover have "10 ^ length ?q \<le> n"
    proof -
      have "10 ^ length ?q = 10 * (10 :: nat) ^ (length ?q - 1)" using IH(2) by (cases ?q) auto
      also have "\<dots> \<le> 10 * (n div 10)" using IH(5) False by simp
      finally show ?thesis by simp
    qed
    moreover have "int n = int (n div 10) * 10 + int (n mod 10)" by presburger
    ultimately show ?thesis
      using IH(1-3) d [of "n mod 10"] False
      by (simp add: digits.simps [of n] chunk_value_append chunk_value_Cons decimal_digits_def hd_append)
  qed
qed

lemma decimal_digits_D: "decimal_digits ds \<Longrightarrow> ds \<noteq> [] \<and> (\<forall>c\<in>set ds. is_digit c)"
  by (simp add: decimal_digits_def)

lemma print_int_written:
  assumes "int64 n"
  shows "written R C (CELL_LONG n) (print_int n) C"
proof -
  define m where "m = nat \<bar>n\<bar>"
  define sg where "sg = (if n < 0 then ''-'' else [])"
  have tx: "print_int n = sg @ digits m" by (simp add: print_int_def sg_def m_def)
  have sg: "a_sign sg" by (simp add: sg_def a_sign_def)
  have m: "chunk_value (digits m) = int m" "decimal_digits (digits m)" "10 ^ (length (digits m) - 1) \<le> max m 1"
    using digits_text [of m] by auto
  have "max m 1 < 10 ^ 20" using assms by (auto simp: m_def int64_def)
  then have "(10 :: nat) ^ (length (digits m) - 1) < 10 ^ 20" using m(3) by linarith
  then have "length (digits m) - 1 < 20" by (rule power_less_imp_less_exp [rotated]) simp
  then have len: "length (sg @ digits m) \<le> MAX_DIGITS" by (cases "n < 0") (simp_all add: sg_def MAX_DIGITS_def)
  have v: "signed_radix 10 (sg @ digits m) = n"
    using signed_radix_digits [OF sg, of "digits m"] decimal_digits_D [OF m(2)] m(1) by (simp add: sg_def m_def)
  show ?thesis using w_long [OF sg m(2) len, of R C] assms unfolding tx v by simp
qed

lemma bigint_written:
  assumes "wf_bigint b" "bval b \<noteq> 0 \<or> b = \<lparr>bsign = 1, bdigits = [0]\<rparr>" "length (bigint_text b) \<le> MAX_DIGITS"
  shows "written R C (CELL_BIGINT b) (bigint_text b) C \<and> (\<forall>c\<in>set (bigint_text b). is_digit c \<or> c \<in> {CHR ''-'', CHR ''L''})"
proof (cases "bval b = 0")
  case True
  then have b: "b = \<lparr>bsign = 1, bdigits = [0]\<rparr>" using assms(2) by simp
  have "bigint_text b = ''0L''" by (simp add: b bigint_text_def bigintToDigits_def char_of_def)
  then show ?thesis using w_big_zero [of R C] b by (simp add: is_digit_def)
next
  case False
  obtain ds where ds: "bigintToDigits b 48 = Some ((if bsign b = -1 then [45] else []) @ ds)"
    "chunk_value (chars ds) = dval (bdigits b)" "\<forall>c\<in>set (chars ds). is_digit c" "ds \<noteq> []"
    "lengthBigint (bdigits b) = Some (int (length ds))" "48 < hd ds" "hd ds \<le> 57"
    by (rule bigintToDigits_wf [OF assms(1) False])
  define sg where "sg = (if bsign b = -1 then ''-'' else [])"
  have tx: "bigint_text b = sg @ chars ds @ ''L''" using ds(1) by (simp add: bigint_text_def sg_def char_of_def)
  have sg: "a_sign sg" by (simp add: sg_def a_sign_def)
  have "(of_char (char_of (hd ds)) :: int) = hd ds" by (rule of_char_char_of_int) (use ds(6,7) in auto)
  moreover have "(of_char (CHR ''0'') :: int) = 48" by simp
  ultimately have "char_of (hd ds) \<noteq> CHR ''0''" using ds(6) by (metis less_irrefl)
  then have d: "decimal_digits (chars ds)" using ds(3,4) by (cases ds) (auto simp: decimal_digits_def)
  have v: "bval b = signed_radix 10 (sg @ chars ds)"
    using signed_radix_digits [OF sg, of "chars ds"] ds(2,3,4) assms(1) by (auto simp: sg_def bval_def wf_bigint_def)
  have "length (sg @ chars ds) \<le> MAX_DIGITS" using assms(3) by (simp add: tx)
  from w_big [OF sg d this assms(1) v False, of "''L''" R C] show ?thesis
    using ds(3) by (auto simp: tx sg_def)
qed

text \<open>Strings.\<close>

lemma digit_char_of:
  assumes "0 \<le> k" "k < 10"
  shows "is_digit (char_of (48 + k))" "hex_value (char_of (48 + k)) = Some (k :: int)"
proof -
  have v: "of_char (char_of (48 + k)) = 48 + k" by (rule of_char_char_of_int) (use assms in auto)
  show d: "is_digit (char_of (48 + k))" using assms unfolding is_digit_def v by simp
  show "hex_value (char_of (48 + k)) = Some k" using hex_digit [OF d] v by simp
qed

lemma radix_three_digits:
  assumes "0 \<le> n" "n < 256"
  shows "\<exists>x y z. three_digits n = [x, y, z] \<and> is_digit x \<and> is_digit y \<and> is_digit z \<and> radix 10 [x, y, z] = n"
proof -
  define p where "p = n div 100"
  define q where "q = n div 10 mod 10"
  define r where "r = n mod 10"
  have b: "0 \<le> p" "p < 10" "0 \<le> q" "q < 10" "0 \<le> r" "r < 10"
    using assms unfolding p_def q_def r_def by (simp_all add: pos_imp_zdiv_nonneg_iff)
  have "n div 100 = n div 10 div 10" using zdiv_zmult2_eq [of 10 n 10] by simp
  then have "10 * p + q = n div 10" unfolding p_def q_def by (simp only: mult_div_mod_eq)
  then have "10 * (10 * p + q) + r = n" unfolding r_def by (simp only: mult_div_mod_eq)
  then have "radix 10 [char_of (48 + p), char_of (48 + q), char_of (48 + r)] = n"
    using digit_char_of(2) [OF b(1,2)] digit_char_of(2) [OF b(3,4)] digit_char_of(2) [OF b(5,6)] by (simp add: radix_def)
  then show ?thesis
    using digit_char_of(1) [OF b(1,2)] digit_char_of(1) [OF b(3,4)] digit_char_of(1) [OF b(5,6)]
    by (auto simp: three_digits_def p_def q_def r_def)
qed

lemma string_char_text:
  assumes "string_text s t"
  shows "string_text (c # s) (string_char raw c @ t)"
proof -
  have esc: "string_text (d # s) (CHR 0x5C # e # t)" if "\<not> is_digit e" "e \<notin> {CHR ''x'', CHR ''u''}" "escaped e = d" for d e
    using string_text.string_escape [OF assms that(1,2)] that(3) by simp
  let ?special = "c \<in> {CHR 0x08, CHR 0x0C, CHR 0x0A, CHR 0x0D, CHR 0x09, CHR 0x5C, CHR 0x22}"
  consider "?special" | "\<not> ?special" "byte c < 32 \<or> raw \<and> byte c > 126" | "\<not> ?special" "\<not> (byte c < 32 \<or> raw \<and> byte c > 126)"
    by blast
  then show ?thesis
  proof cases
    case 1
    then show ?thesis
      by (elim insertE emptyE) (simp_all add: string_char_def esc escaped_def is_digit_def)
  next
    case 2
    obtain x y z where xyz: "three_digits (byte c) = [x, y, z]" "is_digit x" "is_digit y" "is_digit z" "radix 10 [x, y, z] = byte c"
      using radix_three_digits [of "byte c"] byte_range [of c] by auto
    have "char_of (byte c) = c" by (simp add: byte_def)
    then have "string_text (c # s) (CHR 0x5C # x # y # z # t)"
      using string_text.string_decimal [OF assms xyz(2-4)] xyz(5) by simp
    then show ?thesis using 2 by (auto simp: string_char_def xyz(1))
  next
    case 3
    then show ?thesis using string_text.string_raw [OF assms] by (auto simp: string_char_def)
  qed
qed

lemma string_chars_text: "string_text s (concat (map (string_char raw) s) @ [CHR 0x22])"
  by (induction s) (simp_all add: string_text.string_end string_char_text)

lemma printString_written:
  assumes "length s \<ge> MAX_STRING \<longrightarrow> c_string s \<and> no_end_tag s"
  shows "written R C (CELL_STRING s) (printString raw s) C"
proof (cases "length s \<ge> MAX_STRING")
  case True
  then have "filter (\<lambda>c. c \<noteq> CHR 0x00) s = s" using assms by (simp add: c_string_def filter_id_conv)
  then show ?thesis using w_tagged [of s R C] assms True by (simp add: printString_def LIMIT_def)
next
  case False
  then show ?thesis using w_string [OF string_chars_text, of s R C raw] by (simp add: printString_def)
qed

text \<open>Printed strings are a prefix code for the scanner, so that strings printed one after the other
  can be told apart.\<close>

definition read_literal :: "string \<Rightarrow> (string \<times> string) result" where
  "read_literal s =
     (case getToken (CHR ''.'') s of
        Inl e \<Rightarrow> Inl e
      | Inr (TKN_STRING t, r) \<Rightarrow> Inr (t, r)
      | Inr _ \<Rightarrow> Inl ERR_STRING_EXPECTED)"

interpretation strings: prefix_code "\<lambda>s. length s < MAX_STRING" "printString raw" read_literal for raw
proof
  fix s r :: string assume s: "length s < MAX_STRING"
  have "getToken (CHR ''.'') (CHR 0x22 # (concat (map (string_char raw) s) @ [CHR 0x22]) @ r) = Inr (TKN_STRING s, r)"
    by (rule getToken_string [OF string_chars_text]) (use s in \<open>simp_all add: point_ok_def\<close>)
  then show "read_literal (printString raw s @ r) = Inr (s, r)"
    using s by (simp add: read_literal_def printString_def)
  show "printString raw s \<noteq> []" by (simp add: printString_def)
qed

lemma printed_strings_unique:
  "list_all (\<lambda>s. length s < MAX_STRING) xs \<Longrightarrow> list_all (\<lambda>s. length s < MAX_STRING) ys \<Longrightarrow>
    concat (map (printString raw) xs) = concat (map (printString raw) ys) \<Longrightarrow> xs = ys"
  by (rule strings.concat_inj)

text \<open>Symbols. A symbol is legible in a context when its names can be read, its context exists, global
  symbols are in MAIN, and the current context has no symbol of its own that hides the one meant:
  not one with the name of the symbol's context, and none with the name of a context symbol.\<close>

definition legible :: "reader \<Rightarrow> contexts \<Rightarrow> symbol \<Rightarrow> bool" where
  "legible R C s \<longleftrightarrow>
     symbol_name (lc_decimal_point R) (sname s) \<and> symbol_name (lc_decimal_point R) (scontext s) \<and>
     lambda_type (sname s) = None \<and> hd (sname s) \<noteq> CHR ''$'' \<and>
     (\<exists>i. table (C (scontext s)) (sname s) = Some i \<and> (sym_global i \<longrightarrow> scontext s = MAIN) \<and>
        (sym_contents i = CELL_CONTEXT s \<longrightarrow> scontext s = MAIN \<and>
           (currentContext R \<noteq> MAIN \<longrightarrow> table (C (currentContext R)) (sname s) = None))) \<and>
     (\<exists>j. table (C MAIN) (scontext s) = Some j \<and> sym_contents j = CELL_CONTEXT \<lparr>scontext = MAIN, sname = scontext s\<rparr>) \<and>
     (currentContext R \<noteq> MAIN \<longrightarrow> currentContext R = scontext s \<or> table (C (currentContext R)) (scontext s) = None)"

lemma symbol_name_ok: "symbol_name dp t \<Longrightarrow> name_ok t"
proof -
  have "\<not> symbol_char (CHR 0x00)" by (simp add: symbol_char_def byte_def)
  then show "symbol_name dp t \<Longrightarrow> name_ok t" unfolding symbol_name_def name_ok_def c_string_def by metis
qed

lemma createSymbol_same:
  assumes "wf_contexts C" "name_ok t" "table (C c) t \<noteq> None"
  shows "createSymbol t ty c C = Some (\<lparr>scontext = c, sname = t\<rparr>, C)"
proof -
  obtain u where "createSymbol t ty c C = Some (\<lparr>scontext = c, sname = t\<rparr>, C(c := u))" "table (C c) t \<noteq> None \<longrightarrow> u = C c"
    using createSymbol_ok [OF assms(1,2), of ty c] by blast
  then show ?thesis using assms(3) by simp
qed

lemma legible_name:
  assumes "legible R C s" "wf_contexts C"
    "scontext s = currentContext R \<or> sym_contents (info_of s C) = CELL_CONTEXT s \<or>
       sym_global (info_of s C) \<and> \<not> found (sname s) (currentContext R) C"
  shows "written R C (CELL_SYMBOL s) (sname s) C"
proof (rule w_symbol)
  note l = assms(1) [unfolded legible_def]
  show "symbol_name (lc_decimal_point R) (sname s)" "lambda_type (sname s) = None" using l by auto
  have ok: "name_ok (sname s)" using l symbol_name_ok by blast
  note look = lookupSymbol_eq [OF assms(2) ok]
  obtain i where i: "table (C (scontext s)) (sname s) = Some i" "sym_global i \<longrightarrow> scontext s = MAIN"
    "sym_contents i = CELL_CONTEXT s \<longrightarrow> scontext s = MAIN \<and> (currentContext R \<noteq> MAIN \<longrightarrow> table (C (currentContext R)) (sname s) = None)"
    using l by blast
  have info: "info_of s C = i" using look i(1) by (simp add: info_of_def)
  have s: "s = \<lparr>scontext = scontext s, sname = sname s\<rparr>" by simp
  have "translateCreateSymbol (sname s) AS_NIL (currentContext R) False C = Some (s, C)"
  proof (cases "scontext s = currentContext R")
    case True
    then show ?thesis using i(1) look [of "currentContext R"] s by (simp add: translateCreateSymbol_def)
  next
    case False
    have "scontext s = MAIN \<and> (sym_global i \<or> sym_contents i = CELL_CONTEXT s) \<and> table (C (currentContext R)) (sname s) = None"
      using assms(3) False i(2,3) look [of "currentContext R"] unfolding info by (auto simp: found_def split: option.splits)
    moreover from this have "inherited (sname s) i" using s by (auto simp: inherited_def)
    ultimately show ?thesis
      using i(1) look False s by (simp add: translateCreateSymbol_def)
  qed
  moreover have "char_at 0 (sname s) \<noteq> CHR ''$''" using l by (auto simp: symbol_name_def char_at_0)
  ultimately show "read_symbol (currentContext R) (sname s) C = Inr (CELL_SYMBOL s, C)"
    by (simp add: read_symbol_def or_undefined_def)
qed

lemma legible_qualified:
  assumes "legible R C s" "wf_contexts C"
  shows "written R C (CELL_SYMBOL s) (scontext s @ CHR '':'' # sname s) C"
proof (rule w_qualified)
  note l = assms(1) [unfolded legible_def]
  let ?ctx = "\<lparr>scontext = MAIN, sname = scontext s\<rparr>"
  show names: "symbol_name (lc_decimal_point R) (scontext s)" "symbol_name (lc_decimal_point R) (sname s)" using l by auto
  obtain j where j: "table (C MAIN) (scontext s) = Some j" "sym_contents j = CELL_CONTEXT ?ctx" using l by blast
  note ok = symbol_name_ok [OF names(1)]
  note look = lookupSymbol_eq [OF assms(2) ok]
  have create: "translateCreateSymbol (scontext s) AS_CONTEXT MAIN True C = Some (?ctx, C)"
    using createSymbol_same [OF assms(2) ok, of MAIN] j(1) by (simp add: translateCreateSymbol_def)
  show "prefix_symbol (currentContext R) (scontext s) C = Inr (?ctx, C)"
    using create look l by (auto simp: prefix_symbol_def or_undefined_def)
  show "contents_of ?ctx C = Inr (CELL_CONTEXT ?ctx)" using look j by (simp add: contents_of_def)
  show "translateCreateSymbol (sname s) AS_NIL (sname ?ctx) True C = Some (s, C)"
    using createSymbol_same [OF assms(2) symbol_name_ok [OF names(2)], of "scontext s"] l by (auto simp: translateCreateSymbol_def)
qed

lemma legible_written:
  assumes "legible R (ptables P) s" "wf_contexts (ptables P)" "currentContext R = pcontext P"
  shows "written R (ptables P) (CELL_SYMBOL s) (symbol_text P s) (ptables P)"
proof -
  have "symbol_text P s = scontext s @ CHR '':'' # sname s \<or>
     symbol_text P s = sname s \<and> (scontext s = pcontext P \<or> sym_contents (info_of s (ptables P)) = CELL_CONTEXT s \<or>
       sym_global (info_of s (ptables P)) \<and> \<not> found (sname s) (pcontext P) (ptables P))"
    by (simp add: symbol_text_def Let_def)
  then show ?thesis using legible_name [OF assms(1,2)] legible_qualified [OF assms(1,2)] assms(3) by auto
qed

lemma c_string_simps: "c_string []" "c_string (c # s) \<longleftrightarrow> c \<noteq> CHR 0x00 \<and> c_string s" "c_string (s @ t) \<longleftrightarrow> c_string s \<and> c_string t"
  by (auto simp: c_string_def)

lemma symbol_text_c_string:
  assumes "symbol_name dp (sname s)" "symbol_name dp (scontext s)"
  shows "c_string (symbol_text P s)"
  using symbol_name_ok [OF assms(1)] symbol_name_ok [OF assms(2)]
  by (auto simp: symbol_text_def Let_def name_ok_def c_string_simps)

section \<open>What is printed is read back\<close>

text \<open>The cell a printed cell is read as: \<open>nil\<close> and \<open>true\<close> become the symbols, a context its symbol, an
  array the list of its items.\<close>

fun reading_of :: "cell \<Rightarrow> cell" where
  "reading_of CELL_NIL = CELL_SYMBOL nilSymbol"
| "reading_of CELL_TRUE = CELL_SYMBOL trueSymbol"
| "reading_of (CELL_CONTEXT s) = CELL_SYMBOL s"
| "reading_of (CELL_QUOTE c) = CELL_QUOTE (reading_of c)"
| "reading_of (CELL_EXPRESSION cs) = CELL_EXPRESSION (map reading_of cs)"
| "reading_of (CELL_LAMBDA cs) = CELL_LAMBDA (map reading_of cs)"
| "reading_of (CELL_FEXPR cs) = CELL_FEXPR (map reading_of cs)"
| "reading_of (CELL_ARRAY cs) = CELL_EXPRESSION (map reading_of cs)"
| "reading_of c = c"

text \<open>The cells for which this holds. Floats and primitives print in a form that is read as something
  else; a number beyond the length of a token is read in pieces; a list whose first item names a
  macro is expanded.\<close>

fun printable :: "reader \<Rightarrow> contexts \<Rightarrow> cell \<Rightarrow> bool" where
  "printable R C CELL_NIL \<longleftrightarrow> read_symbol (currentContext R) ''nil'' C = Inr (CELL_SYMBOL nilSymbol, C)"
| "printable R C CELL_TRUE \<longleftrightarrow> read_symbol (currentContext R) ''true'' C = Inr (CELL_SYMBOL trueSymbol, C)"
| "printable R C (CELL_LONG n) \<longleftrightarrow> int64 n"
| "printable R C (CELL_BIGINT b) \<longleftrightarrow>
     wf_bigint b \<and> (bval b \<noteq> 0 \<or> b = \<lparr>bsign = 1, bdigits = [0]\<rparr>) \<and> length (bigint_text b) \<le> MAX_DIGITS"
| "printable R C (CELL_FLOAT x) \<longleftrightarrow> False"
| "printable R C (CELL_STRING s) \<longleftrightarrow> (length s \<ge> MAX_STRING \<longrightarrow> c_string s \<and> no_end_tag s)"
| "printable R C (CELL_SYMBOL s) \<longleftrightarrow> legible R C s"
| "printable R C (CELL_CONTEXT s) \<longleftrightarrow> legible R C s"
| "printable R C (CELL_PRIMITIVE a) \<longleftrightarrow> False"
| "printable R C (CELL_QUOTE c) \<longleftrightarrow> printable R C c"
| "printable R C (CELL_EXPRESSION cs) \<longleftrightarrow> (\<forall>c\<in>set cs. printable R C c) \<and> \<not> macro_head R (map reading_of cs)"
| "printable R C (CELL_LAMBDA cs) \<longleftrightarrow> (\<forall>c\<in>set cs. printable R C c) \<and> \<not> macro_head R (map reading_of cs)"
| "printable R C (CELL_FEXPR cs) \<longleftrightarrow> (\<forall>c\<in>set cs. printable R C c) \<and> \<not> macro_head R (map reading_of cs)"
| "printable R C (CELL_ARRAY cs) \<longleftrightarrow> (\<forall>c\<in>set cs. printable R C c) \<and> \<not> macro_head R (map reading_of cs)"
| "printable R C (CELL_DYN_SYMBOL p n) \<longleftrightarrow>
     symbol_name (lc_decimal_point R) p \<and> symbol_name (lc_decimal_point R) n \<and>
     (\<exists>ctx v. prefix_symbol (currentContext R) p C = Inr (ctx, C) \<and> sname ctx = p \<and> contents_of ctx C = Inr v \<and> v \<noteq> CELL_CONTEXT ctx)"

definition prints_for :: "reader \<Rightarrow> printer \<Rightarrow> bool" where
  "prints_for R P \<longleftrightarrow>
     point_ok (lc_decimal_point R) \<and> currentContext R = pcontext P \<and> wf_contexts (ptables P) \<and>
     (\<forall>c\<in>set (prettyPrintTab P). byte c \<le> 32 \<and> c \<noteq> CHR 0x00)"

definition spaces :: "string \<Rightarrow> bool" where
  "spaces b \<longleftrightarrow> (\<forall>c\<in>set b. byte c \<le> 32 \<and> c \<noteq> CHR 0x00)"

lemma spaces_blank: "spaces b \<Longrightarrow> blank b"
  by (induction b) (auto simp: spaces_def intro: blank_Nil blank_space)

lemma spaces_append [simp]: "spaces (a @ b) \<longleftrightarrow> spaces a \<and> spaces b"
  by (auto simp: spaces_def)

lemma spaces_chars [simp]: "spaces []" "spaces '' ''" "spaces [CHR 0x0A]"
  by (simp_all add: spaces_def byte_def)

lemma spaces_c_string: "spaces b \<Longrightarrow> c_string b"
  by (simp add: spaces_def c_string_def)

text \<open>\<open>adds f st Q\<close>: printing with \<open>f\<close> appends a text with the property \<open>Q\<close>.\<close>

definition adds :: "(string \<Rightarrow> bool) \<Rightarrow> printing \<Rightarrow> printing \<Rightarrow> bool" where
  "adds Q st st' \<longleftrightarrow> (\<exists>t. printed st' = printed st @ t \<and> Q t)"

lemma adds_varPrintf: "Q s \<Longrightarrow> adds Q st (varPrintf s st)"
  by (auto simp: adds_def varPrintf_def)

lemma adds_trans: "adds Q st st1 \<Longrightarrow> adds Q' st1 st2 \<Longrightarrow> (\<And>s t. Q s \<Longrightarrow> Q' t \<Longrightarrow> Q'' (s @ t)) \<Longrightarrow> adds Q'' st st2"
  by (fastforce simp: adds_def)

lemma adds_flag: "adds Q st st' \<Longrightarrow> adds Q st (st'\<lparr>flag_double := f\<rparr>)"
  by (simp add: adds_def)

lemma adds_prettyPrint:
  assumes "prints_for R P"
  shows "adds spaces st (prettyPrint P st)"
proof -
  define tabs where "tabs = concat (replicate (nat (prettyPrintPars st)) (prettyPrintTab P))"
  have tab: "spaces (prettyPrintTab P)" using assms by (simp add: prints_for_def spaces_def)
  then have "spaces (concat (replicate n (prettyPrintTab P)))" for n by (induction n) simp_all
  then have tabs: "spaces tabs" by (simp add: tabs_def)
  have "printed (prettyPrint P st) = printed st @
      (if flag_double st \<or> flag_string st then [] else (if prettyPrintPars st > 0 then [CHR 0x0A] else []) @ tabs)"
    by (simp add: prettyPrint_def varPrintf_def Let_def tabs_def)
  then show ?thesis unfolding adds_def using tabs by (intro exI conjI) (assumption, simp)
qed

lemma adds_none: "Q [] \<Longrightarrow> adds Q st st"
  by (simp add: adds_def)

definition cell_text :: "reader \<Rightarrow> contexts \<Rightarrow> cell \<Rightarrow> string \<Rightarrow> bool" where
  "cell_text R C c t \<longleftrightarrow> written R C (reading_of c) t C \<and> c_string t"

definition items_text :: "reader \<Rightarrow> contexts \<Rightarrow> cell list \<Rightarrow> string \<Rightarrow> bool" where
  "items_text R C cs t \<longleftrightarrow> written_items R C (map reading_of cs) t C \<and> c_string t \<and> (cs = [] \<longrightarrow> spaces t)"

lemma blank_append: "blank a \<Longrightarrow> blank b \<Longrightarrow> blank (a @ b)"
proof (induction rule: blank.induct)
  case (blank_comment a c nl s)
  then show ?case using blank.blank_comment [of "a @ b" c nl s] by simp
qed (auto intro: blank_space)

lemma items_blank:
  assumes "written_items R C cs u D" "blank b"
  shows "written_items R C cs (b @ u) D"
  using assms(1)
proof (cases rule: written_items.cases)
  case w_nil
  then show ?thesis using blank_append [OF assms(2)] by (auto intro: written_written_items.w_nil)
next
  case (w_cons c t D' cs' u')
  have "written R C c (b @ t) D'" using w_cons assms(2) by (auto intro: w_blank)
  moreover have "apart (b @ t) u'" using w_cons written_nonempty [of R C c t D'] by (simp add: apart_def)
  ultimately show ?thesis using w_cons written_written_items.w_cons [of R C c "b @ t" D' cs' u' D] by simp
qed

lemma items_text_blank: "spaces b \<Longrightarrow> items_text R C cs t \<Longrightarrow> items_text R C cs (b @ t)"
  using items_blank [OF _ spaces_blank] by (auto simp: items_text_def c_string_simps spaces_c_string)

lemma items_text_cons:
  assumes "cell_text R C c t" "items_text R C cs u" "sep = '' '' \<or> sep = [] \<and> cs = []"
  shows "items_text R C (c # cs) (t @ sep @ u)"
proof -
  have sp: "spaces sep" using assms(3) by auto
  have "ends (sep @ u)"
  proof (cases "sep = []")
    case True
    then have "spaces u" using assms(2,3) by (simp add: items_text_def)
    then show ?thesis using True by (cases u) (auto simp: ends_def spaces_def delim_def)
  next
    case False
    then show ?thesis using assms(3) by (simp add: ends_def delim_def byte_def)
  qed
  then have "apart t (sep @ u)" by (simp add: apart_def)
  then show ?thesis
    using w_cons [of R C "reading_of c" t C "map reading_of cs" "sep @ u" C] assms(1) items_text_blank [OF sp assms(2)]
    by (simp add: items_text_def cell_text_def c_string_simps)
qed

lemma cell_text_blank: "spaces b \<Longrightarrow> cell_text R C c t \<Longrightarrow> cell_text R C c (b @ t)"
  using w_blank [OF _ spaces_blank] by (auto simp: cell_text_def c_string_simps spaces_c_string)

lemma list_text:
  assumes "items_text R C cs t" "\<not> macro_head R (map reading_of cs)"
  shows "cell_text R C (CELL_EXPRESSION cs) (''('' @ t @ '')'')" "cell_text R C (CELL_ARRAY cs) (''('' @ t @ '')'')"
    "cell_text R C (CELL_LAMBDA cs) (''(lambda '' @ t @ '')'')" "cell_text R C (CELL_FEXPR cs) (''(lambda-macro '' @ t @ '')'')"
proof -
  note i = assms(1) [unfolded items_text_def]
  show "cell_text R C (CELL_EXPRESSION cs) (''('' @ t @ '')'')" "cell_text R C (CELL_ARRAY cs) (''('' @ t @ '')'')"
    using w_list [of R C "map reading_of cs" t C] i assms(2) by (simp_all add: cell_text_def c_string_simps)
  have s: "written_items R C (map reading_of cs) ('' '' @ t) C"
    using items_blank [of R C "map reading_of cs" t C "'' ''"] i spaces_blank [of "'' ''"] by simp
  have e: "ends ('' '' @ t)" by (simp add: ends_def delim_def byte_def)
  show "cell_text R C (CELL_LAMBDA cs) (''(lambda '' @ t @ '')'')"
    using w_lambda [OF s assms(2) blank_Nil _ e, of "''lambda''"] i by (simp add: cell_text_def c_string_simps)
  show "cell_text R C (CELL_FEXPR cs) (''(lambda-macro '' @ t @ '')'')"
    using w_fexpr [OF s assms(2) blank_Nil _ e, of "''lambda-macro''"] i by (simp add: cell_text_def c_string_simps)
qed

lemma adds_item:
  assumes "adds (cell_text R C c) st st1" "adds (\<lambda>s. s = '' '' \<or> s = [] \<and> cs = []) st1 st2" "adds (items_text R C cs) st2 st3"
  shows "adds (items_text R C (c # cs)) st st3"
proof (rule adds_trans [OF assms(1)])
  show "adds (\<lambda>s. \<exists>sep u. s = sep @ u \<and> (sep = '' '' \<or> sep = [] \<and> cs = []) \<and> items_text R C cs u) st1 st3"
    by (rule adds_trans [OF assms(2,3)]) blast
qed (use items_text_cons in blast)

lemma adds_list:
  assumes "adds (items_text R C cs) (open_par p st) st'" "\<And>t. items_text R C cs t \<Longrightarrow> cell_text R C c (p @ t @ '')'')"
    "adds spaces st0 st"
  shows "adds (cell_text R C c) st0 ((close_par st')\<lparr>flag_double := False\<rparr>)"
proof -
  obtain b t where b: "printed st = printed st0 @ b" "spaces b" and t: "printed st' = printed st @ p @ t" "items_text R C cs t"
    using assms(1,3) by (auto simp: adds_def open_par_def varPrintf_def)
  have "printed ((close_par st')\<lparr>flag_double := False\<rparr>) = printed st0 @ b @ p @ t @ '')''"
    using b(1) t(1) by (simp add: close_par_def varPrintf_def)
  moreover have "cell_text R C c (b @ p @ t @ '')'')" by (rule cell_text_blank [OF b(2) assms(2) [OF t(2)]])
  ultimately show ?thesis unfolding adds_def by blast
qed

lemma adds_open_list: "prints_for R P \<Longrightarrow> adds spaces st (open_list P st)"
  using adds_prettyPrint [of R P st] by (auto simp: open_list_def intro: adds_none)

lemma adds_line_full: "prints_for R P \<Longrightarrow> adds spaces st (line_full P st)"
  using adds_prettyPrint [of R P st] by (auto simp: line_full_def intro: adds_none)

lemma digits_c_string: "\<forall>c\<in>set t. is_digit c \<or> c \<in> {CHR ''-'', CHR ''L''} \<Longrightarrow> c_string t"
proof -
  have "\<not> is_digit (CHR 0x00)" by (simp add: is_digit_def)
  then show "\<forall>c\<in>set t. is_digit c \<or> c \<in> {CHR ''-'', CHR ''L''} \<Longrightarrow> c_string t"
    unfolding c_string_def by fastforce
qed

lemma print_int_c_string: "c_string (print_int n)"
proof -
  have "\<forall>c\<in>set (digits m). is_digit c" for m using digits_text [of m] by (simp add: decimal_digits_def)
  then show ?thesis by (intro digits_c_string) (auto simp: print_int_def)
qed

lemma printString_c_string: "c_string (printString raw s)"
proof -
  have nul: "\<not> is_digit (CHR 0x00)" "byte (CHR 0x00) = 0" by (simp_all add: is_digit_def byte_def)
  have d: "c_string (three_digits (byte c))" for c
    using radix_three_digits [of "byte c"] byte_range [of c] nul(1) by (fastforce simp: c_string_def)
  have "c_string (string_char raw c)" for c
    using d nul(2) by (auto simp: string_char_def c_string_simps)
  then have "c_string (concat (map (string_char raw) s))" by (induction s) (simp_all add: c_string_simps)
  then show ?thesis by (auto simp: printString_def c_string_def)
qed

lemma atom_text:
  assumes "prints_for R P"
  shows "printable R (ptables P) CELL_NIL \<Longrightarrow> cell_text R (ptables P) CELL_NIL ''nil''"
    "printable R (ptables P) CELL_TRUE \<Longrightarrow> cell_text R (ptables P) CELL_TRUE ''true''"
    "printable R (ptables P) (CELL_LONG n) \<Longrightarrow> cell_text R (ptables P) (CELL_LONG n) (print_int n)"
    "printable R (ptables P) (CELL_BIGINT b) \<Longrightarrow> cell_text R (ptables P) (CELL_BIGINT b) (bigint_text b)"
    "printable R (ptables P) (CELL_STRING s) \<Longrightarrow> cell_text R (ptables P) (CELL_STRING s) (printString (stringOutputRaw P) s)"
    "printable R (ptables P) (CELL_SYMBOL y) \<Longrightarrow> cell_text R (ptables P) (CELL_SYMBOL y) (symbol_text P y)"
    "printable R (ptables P) (CELL_CONTEXT y) \<Longrightarrow> cell_text R (ptables P) (CELL_CONTEXT y) (symbol_text P y)"
    "printable R (ptables P) (CELL_DYN_SYMBOL p q) \<Longrightarrow> cell_text R (ptables P) (CELL_DYN_SYMBOL p q) (p @ CHR '':'' # q)"
proof -
  note [simp] = cell_text_def c_string_simps
  have dp: "point_ok (lc_decimal_point R)" using assms by (simp add: prints_for_def)
  have names: "symbol_name (lc_decimal_point R) ''nil''" "symbol_name (lc_decimal_point R) ''true''"
    using dp unfolding point_ok_def
    by (elim disjE; simp add: symbol_name_def symbol_char_def byte_def is_digit_def MAX_SYMBOL_def)+
  show "printable R (ptables P) CELL_NIL \<Longrightarrow> cell_text R (ptables P) CELL_NIL ''nil''"
    "printable R (ptables P) CELL_TRUE \<Longrightarrow> cell_text R (ptables P) CELL_TRUE ''true''"
    using w_symbol [OF names(1)] w_symbol [OF names(2)] by (simp_all add: lambda_type_def)
  show "printable R (ptables P) (CELL_LONG n) \<Longrightarrow> cell_text R (ptables P) (CELL_LONG n) (print_int n)"
    using print_int_written print_int_c_string by simp
  show "printable R (ptables P) (CELL_BIGINT b) \<Longrightarrow> cell_text R (ptables P) (CELL_BIGINT b) (bigint_text b)"
    using bigint_written [of b R "ptables P"] digits_c_string [of "bigint_text b"] by simp
  show "printable R (ptables P) (CELL_STRING s) \<Longrightarrow> cell_text R (ptables P) (CELL_STRING s) (printString (stringOutputRaw P) s)"
    using printString_written printString_c_string by simp
  have sym: "printable R (ptables P) (CELL_SYMBOL y) \<Longrightarrow> written R (ptables P) (CELL_SYMBOL y) (symbol_text P y) (ptables P) \<and> c_string (symbol_text P y)"
    using legible_written [of R P y] assms symbol_text_c_string [of "lc_decimal_point R" y P] by (simp add: prints_for_def legible_def)
  then show "printable R (ptables P) (CELL_SYMBOL y) \<Longrightarrow> cell_text R (ptables P) (CELL_SYMBOL y) (symbol_text P y)"
    "printable R (ptables P) (CELL_CONTEXT y) \<Longrightarrow> cell_text R (ptables P) (CELL_CONTEXT y) (symbol_text P y)"
    by simp_all
  show "printable R (ptables P) (CELL_DYN_SYMBOL p q) \<Longrightarrow> cell_text R (ptables P) (CELL_DYN_SYMBOL p q) (p @ CHR '':'' # q)"
    using w_dynamic [of R p q "ptables P"] symbol_name_ok by (auto simp: name_ok_def)
qed


lemma printed_text:
  "prints_for R P \<Longrightarrow> printable R (ptables P) c \<Longrightarrow> printFlag \<Longrightarrow> adds (cell_text R (ptables P) c) st (printCell P printFlag c st)"
  "prints_for R P \<Longrightarrow> \<forall>c\<in>set cs. printable R (ptables P) c \<Longrightarrow> adds (items_text R (ptables P) cs) st (print_items P k cs st)"
  "prints_for R P \<Longrightarrow> \<forall>c\<in>set cs. printable R (ptables P) c \<Longrightarrow> adds (items_text R (ptables P) cs) st (print_none P cs st)"
proof (induction P printFlag c st and P k cs st and P cs st rule: printCell_print_items_print_none.induct)
  case (10 P printFlag c st)
  have "adds (\<lambda>s. s = [CHR 0x27]) st ((varPrintf [CHR 0x27] st)\<lparr>flag_double := True\<rparr>)"
    by (intro adds_flag adds_varPrintf) simp
  from adds_trans [OF this 10(1)] 10(2-4)
  have "adds (cell_text R (ptables P) (CELL_QUOTE c)) st (printCell P printFlag c ((varPrintf [CHR 0x27] st)\<lparr>flag_double := True\<rparr>))"
    using w_quote by (auto simp: cell_text_def c_string_simps)
  then show ?case by (simp add: adds_flag)
next
  case (12 P printFlag cs st)
  then show ?case
    by (simp add: adds_list [OF _ list_text(3) adds_open_list])
next
  case (13 P printFlag cs st)
  then show ?case
    by (simp add: adds_list [OF _ list_text(4) adds_open_list])
next
  case (14 P printFlag cs st)
  have open2: "adds spaces st (prettyPrint P (open_list P st))"
    by (rule adds_trans [OF adds_open_list adds_prettyPrint]) (use 14 in auto)
  have list: "adds (cell_text R (ptables P) (CELL_EXPRESSION cs)) st ((close_par st')\<lparr>flag_double := False\<rparr>)"
    if "adds (items_text R (ptables P) cs) (open_par ''('' st1) st'" "adds spaces st st1" for st1 st'
    by (rule adds_list [OF that(1) _ that(2)], rule list_text(1)) (use 14 in simp_all)
  have body: "first_line P cs = 0 \<Longrightarrow> adds (items_text R (ptables P) cs) (open_par ''('' (open_list P st)) (print_items P None cs (open_par ''('' (open_list P st)))"
    "first_line P cs \<noteq> 0 \<Longrightarrow> adds (items_text R (ptables P) cs) (open_par ''('' (prettyPrint P (open_list P st)))
       (print_items P (Some (first_line P cs)) cs (open_par ''('' (prettyPrint P (open_list P st))))"
    using 14 by auto
  show ?case
    using list [OF body(1) adds_open_list [OF 14(3)]] list [OF body(2) open2] by (simp del: print_items.simps)
next
  case (15 P printFlag cs st)
  have open2: "adds spaces st (prettyPrint P (open_list P st))"
    by (rule adds_trans [OF adds_open_list adds_prettyPrint]) (use 15 in auto)
  have list: "adds (cell_text R (ptables P) (CELL_ARRAY cs)) st ((close_par st')\<lparr>flag_double := False\<rparr>)"
    if "adds (items_text R (ptables P) cs) (open_par ''('' st1) st'" "adds spaces st st1" for st1 st'
    by (rule adds_list [OF that(1) _ that(2)], rule list_text(2)) (use 15 in simp_all)
  have body: "first_line P cs = 0 \<Longrightarrow> adds (items_text R (ptables P) cs) (open_par ''('' (open_list P st)) (print_items P None cs (open_par ''('' (open_list P st)))"
    "first_line P cs \<noteq> 0 \<Longrightarrow> adds (items_text R (ptables P) cs) (open_par ''('' (prettyPrint P (open_list P st)))
       (print_items P (Some (first_line P cs)) cs (open_par ''('' (prettyPrint P (open_list P st))))"
    using 15 by auto
  show ?case
    using list [OF body(1) adds_open_list [OF 15(3)]] list [OF body(2) open2] by (simp del: print_items.simps)
next
  case (16 P cs st)
  show ?case unfolding print_items.simps
    by (rule adds_trans [OF adds_prettyPrint [OF 16(2)] 16(1) [OF 16(2,3)]]) (rule items_text_blank)
next
  case (17 P k st)
  have "adds spaces st (prettyPrint P (st\<lparr>flag_double := True\<rparr>))"
    using adds_prettyPrint [OF 17(1), of "st\<lparr>flag_double := True\<rparr>"] by (simp add: adds_def)
  then show ?case
    by (auto simp: adds_def items_text_def spaces_c_string intro: w_nil [OF spaces_blank])
next
  case (18 P k c cs st)
  let ?st = "printCell P True c st"
  let ?next = "if cs \<noteq> [] then varPrintf '' '' ?st else ?st\<lparr>flag_double := True\<rparr>"
  have "adds (cell_text R (ptables P) c) st ?st" using 18 by simp
  moreover have "adds (\<lambda>s. s = '' '' \<or> s = [] \<and> cs = []) ?st ?next" by (auto intro: adds_varPrintf adds_flag adds_none)
  moreover have "adds (items_text R (ptables P) cs) ?next (print_items P (Some k) cs ?next)"
    by (rule 18(2) [OF 18(3), unfolded Let_def]) (use 18(4) in simp)
  ultimately show ?case using adds_item by (simp add: Let_def)
next
  case (21 P c cs st)
  let ?st = "printCell P True c (line_full P st)"
  let ?next = "if cs \<noteq> [] then varPrintf '' '' ?st else ?st"
  have "adds (cell_text R (ptables P) c) (line_full P st) ?st" using 21 by simp
  with adds_line_full [OF 21(3), of st] have "adds (cell_text R (ptables P) c) st ?st"
    by (rule adds_trans) (rule cell_text_blank)
  moreover have "adds (\<lambda>s. s = '' '' \<or> s = [] \<and> cs = []) ?st ?next" by (auto intro: adds_varPrintf adds_none)
  moreover have "adds (items_text R (ptables P) cs) ?next (print_none P cs ?next)"
    by (rule 21(2) [OF 21(3), unfolded Let_def]) (use 21(4) in simp)
  ultimately show ?case using adds_item by (simp add: Let_def)
qed (auto intro!: adds_flag adds_varPrintf atom_text simp: items_text_def adds_none w_nil blank_Nil c_string_simps)


definition small_printer :: printer where
  "small_printer = \<lparr>prettyPrintMaxLength = 80, prettyPrintTab = '' '', stringOutputRaw = True, print_float = (\<lambda>x. ''0''),
     print_primitive = (\<lambda>a. ''@''), print_type = (\<lambda>s. 0), pcontext = MAIN, ptables = small_main\<rparr>"

lemma small_legible: "legible small_reader small_main \<lparr>scontext = MAIN, sname = ''x''\<rparr>"
  by (auto simp: legible_def small_reader_def small_main_def MAIN_def new_info_def symbol_name_def symbol_char_def byte_def MAX_SYMBOL_def is_digit_def lambda_type_def)

definition small_cell :: cell where
  "small_cell = CELL_LAMBDA [CELL_EXPRESSION [CELL_SYMBOL \<lparr>scontext = MAIN, sname = ''x''\<rparr>],
     CELL_QUOTE (CELL_STRING [CHR 0x22, CHR 0x00]), CELL_LONG (-7)]"

definition console :: printing where
  "console = \<lparr>printed = [], prettyPrintPars = 0, prettyPrintCurrent = 0, prettyPrintLength = 0, flag_double = False, flag_string = False\<rparr>"


section \<open>Texts that are misread\<close>

text \<open>A quote in front of a closing parenthesis takes the parenthesis for itself: the list goes on to
  the next one, and the parenthesis of the outer list is its own.\<close>

lemma quote_takes_parenthesis:
  "map_option (map_sum id fst) (read_expr small_reader (''((x '' @ [CHR 0x27] @ '') x) y'') small_main) =
     Some (Inr (CELL_EXPRESSION [CELL_EXPRESSION [CELL_SYMBOL \<lparr>scontext = MAIN, sname = ''x''\<rparr>, CELL_QUOTE CELL_NIL,
       CELL_SYMBOL \<lparr>scontext = MAIN, sname = ''x''\<rparr>]]))"
  by code_simp

text \<open>The word \<open>lambda\<close> behind a list changes that list.\<close>

lemma lambda_changes_item:
  "map_option (map_sum id fst) (read_expr small_reader ''((x) lambda x)'' small_main) =
     Some (Inr (CELL_EXPRESSION [CELL_LAMBDA [CELL_SYMBOL \<lparr>scontext = MAIN, sname = ''x''\<rparr>],
       CELL_SYMBOL \<lparr>scontext = MAIN, sname = ''x''\<rparr>]))"
  by code_simp

text \<open>An exponent letter at the end of the text.\<close>

lemma exponent_read_past_end: "getToken (CHR ''.'') ''1E'' = Inl C_UNDEFINED"
  by code_simp

text \<open>A context symbol is printed by its name alone, also in a context that has a symbol of that name.\<close>

definition two_contexts :: contexts where
  "two_contexts =
     (\<lambda>c. if c = MAIN then Sym BLACK NIL_SYM (''Bar'', new_info AS_CONTEXT MAIN ''Bar'')
            (Sym RED NIL_SYM (''Foo'', new_info AS_CONTEXT MAIN ''Foo'') NIL_SYM)
          else if c = ''Foo'' then Sym BLACK NIL_SYM (''Bar'', new_info AS_NIL ''Foo'' ''Bar'') NIL_SYM
          else NIL_SYM)"

lemma context_symbol_hidden:
  "symbol_text (small_printer\<lparr>pcontext := ''Foo'', ptables := two_contexts\<rparr>) \<lparr>scontext = MAIN, sname = ''Bar''\<rparr> = ''Bar'' \<and>
   map_sum id fst (read_symbol ''Foo'' ''Bar'' two_contexts) = Inr (CELL_SYMBOL \<lparr>scontext = ''Foo'', sname = ''Bar''\<rparr>)"
  by code_simp

end
