(* ===== verification/NL_Arith.thy ===== *)
theory NL_Arith
  imports NL_Cell
begin

text \<open>
  The integer operators of \<^verbatim>\<open>nl-math.c\<close> on evaluated arguments:
  \<^verbatim>\<open>arithmetikOp\<close> behind \<^verbatim>\<open>+ - * / % & | ^ << >>\<close>, \<^verbatim>\<open>abs\<close>,
  \<^verbatim>\<open>bigint\<close>, \<^verbatim>\<open>gcd\<close>, \<^verbatim>\<open>factor\<close>, \<^verbatim>\<open>bits\<close>,
  \<^verbatim>\<open>odd?\<close>, \<^verbatim>\<open>even?\<close>, and the relational operators. The type of the first
  argument decides whether an operator computes on 64-bit integers, which wrap, or on big
  integers. The interface \<open>integer_ops\<close> states what the big-integer routines promise; the
  sums, products and greatest common divisors the operators compute from them are derived from
  it. A result \<open>None\<close> would mean that a loop does not return.
\<close>

unbundle bit_operations_syntax

section \<open>Operators\<close>

datatype operator =
    OP_ADD | OP_SUBTRACT | OP_MULTIPLY | OP_DIVIDE | OP_BIT_OR | OP_BIT_AND | OP_BIT_XOR
  | OP_SHIFTL | OP_SHIFTR | OP_MODULO

datatype relation =
    OP_LESS | OP_GREATER | OP_LESS_EQUAL | OP_GREATER_EQUAL | OP_EQUAL | OP_NOTEQUAL

text \<open>One step of the loop on 64-bit integers. A shift takes its count modulo 64, as the
  processor does.\<close>

fun int64_op :: "operator \<Rightarrow> int \<Rightarrow> int \<Rightarrow> int result" where
  "int64_op OP_ADD result number = Inr (wrap64 (result + number))"
| "int64_op OP_SUBTRACT result number = Inr (wrap64 (result - number))"
| "int64_op OP_MULTIPLY result number = Inr (wrap64 (result * number))"
| "int64_op OP_DIVIDE result number =
     (if number = 0 then Inl ERR_MATH
      else if result = - (2 ^ 63) \<and> number = -1 then Inl C_UNDEFINED
      else Inr (result sdiv number))"
| "int64_op OP_BIT_OR result number = Inr (result OR number)"
| "int64_op OP_BIT_AND result number = Inr (result AND number)"
| "int64_op OP_BIT_XOR result number = Inr (result XOR number)"
| "int64_op OP_SHIFTL result number = Inr (wrap64 (result * 2 ^ nat (number mod 64)))"
| "int64_op OP_SHIFTR result number = Inr (result div 2 ^ nat (number mod 64))"
| "int64_op OP_MODULO result number =
     (if number = 0 then Inl ERR_MATH
      else if result = - (2 ^ 63) \<and> number = -1 then Inl C_UNDEFINED
      else Inr (result smod number))"

fun int64_loop :: "operator \<Rightarrow> int \<Rightarrow> cell list \<Rightarrow> int result" where
  "int64_loop op result [] = Inr result"
| "int64_loop op result (c # params) =
     (case getInteger64Ext c of
        Inl e \<Rightarrow> Inl e
      | Inr number \<Rightarrow>
          (case int64_op op result number of
             Inl e \<Rightarrow> Inl e
           | Inr result' \<Rightarrow> int64_loop op result' params))"

text \<open>The operation with a single 64-bit operand.\<close>

fun int64_single :: "operator \<Rightarrow> int \<Rightarrow> int" where
  "int64_single OP_SUBTRACT result = wrap64 (- result)"
| "int64_single OP_SHIFTL result = wrap64 (result * 2)"
| "int64_single OP_SHIFTR result = result div 2"
| "int64_single _ result = result"

fun big_single :: "operator \<Rightarrow> bigint \<Rightarrow> bigint result" where
  "big_single OP_SUBTRACT b = Inr (b\<lparr>bsign := - bsign b\<rparr>)"
| "big_single OP_ADD b = Inr b"
| "big_single OP_MULTIPLY b = Inr b"
| "big_single OP_DIVIDE b = Inr b"
| "big_single OP_MODULO b = Inr b"
| "big_single _ b = Inl ERR_BIGINT_NOT_ALLOWED"

fun big_op :: "machine \<Rightarrow> operator \<Rightarrow> bigint \<Rightarrow> bigint \<Rightarrow> bigint result option" where
  "big_op M OP_ADD x y = Some (Inr (addBigint x y))"
| "big_op M OP_SUBTRACT x y = Some (Inr (subBigint x y))"
| "big_op M OP_MULTIPLY x y = Some (Inr (mulBigint x y))"
| "big_op M OP_DIVIDE x y = divModBigint (rnd M) x y False"
| "big_op M OP_MODULO x y = divModBigint (rnd M) x y True"
| "big_op M _ x y = Some (Inl ERR_BIGINT_NOT_ALLOWED)"

fun big_loop :: "machine \<Rightarrow> operator \<Rightarrow> bigint \<Rightarrow> cell list \<Rightarrow> bigint result option" where
  "big_loop M op x [] = Some (Inr x)"
| "big_loop M op x (c # params) =
     (case getBigintSizeDirect M c of
        Inl e \<Rightarrow> Some (Inl e)
      | Inr y \<Rightarrow>
          (case big_op M op x y of
             None \<Rightarrow> None
           | Some (Inl e) \<Rightarrow> Some (Inl e)
           | Some (Inr z) \<Rightarrow> big_loop M op z params))"

definition arithmetikOp :: "machine \<Rightarrow> cell list \<Rightarrow> operator \<Rightarrow> cell result option" where
  "arithmetikOp M params op =
     (case params of
        [] \<Rightarrow>
          Some (if op = OP_ADD then Inr (CELL_LONG 0)
                else if op = OP_MULTIPLY then Inr (CELL_LONG 1)
                else Inl ERR_NUMBER_EXPECTED)
      | CELL_BIGINT b # rest \<Rightarrow>
          (if rest = [] then Some (map_sum id CELL_BIGINT (big_single op b))
           else map_option (map_sum id CELL_BIGINT) (big_loop M op b rest))
      | c # rest \<Rightarrow>
          Some (case getInteger64Ext c of
                  Inl e \<Rightarrow> Inl e
                | Inr result \<Rightarrow>
                    map_sum id CELL_LONG
                      (if rest = [] then Inr (int64_single op result)
                       else int64_loop op result rest)))"

fun p_bitNot :: "cell \<Rightarrow> cell result" where
  "p_bitNot c = map_sum id (\<lambda>n. CELL_LONG (- n - 1)) (getInteger64Ext c)"

fun p_abs :: "cell \<Rightarrow> cell result" where
  "p_abs (CELL_BIGINT b) = Inr (CELL_BIGINT (if bsign b = -1 then b\<lparr>bsign := 1\<rparr> else b))"
| "p_abs (CELL_FLOAT d) =
     Inr (CELL_FLOAT (case d of Fin r \<Rightarrow> Fin (if r < 0 then r * -1 else r) | NInf \<Rightarrow> PInf | _ \<Rightarrow> d))"
| "p_abs c = map_sum id (\<lambda>n. CELL_LONG (if n < 0 then wrap64 (n * -1) else n)) (getInteger64Ext c)"

text \<open>\<^verbatim>\<open>bigint\<close> reads the digits at the front of a string, after an optional sign, which
  it counts as one of them.\<close>

definition big_prefix :: "string \<Rightarrow> nat" where
  "big_prefix s =
     (if s \<noteq> [] \<and> (hd s = CHR ''-'' \<or> hd s = CHR ''+'')
      then 1 + length (takeWhile is_digit (tl s))
      else length (takeWhile is_digit s))"

fun p_bigInt :: "machine \<Rightarrow> cell \<Rightarrow> cell result" where
  "p_bigInt M (CELL_BIGINT b) = Inr (CELL_BIGINT b)"
| "p_bigInt M (CELL_STRING s) =
     (if big_prefix s = 0 then Inr CELL_NIL
      else Inr (CELL_BIGINT (strToBigint s (big_prefix s))))"
| "p_bigInt M c = map_sum id CELL_BIGINT (getBigintSizeDirect M c)"

section \<open>Greatest common divisor and prime factors\<close>

partial_function (option) gcdBig :: "machine \<Rightarrow> cell \<Rightarrow> cell \<Rightarrow> cell result option" where
  "gcdBig M a b =
     (if isZero b then Some (Inr a)
      else
        (case arithmetikOp M [a, b] OP_MODULO of
           None \<Rightarrow> None
         | Some (Inl e) \<Rightarrow> Some (Inl e)
         | Some (Inr c) \<Rightarrow> gcdBig M b c))"

text \<open>The loop over the further arguments when the first is a big integer; with none the
  missing argument evaluates to nil.\<close>

fun gcd_big_loop :: "machine \<Rightarrow> cell \<Rightarrow> cell list \<Rightarrow> cell result option" where
  "gcd_big_loop M x [] = Some (Inr x)"
| "gcd_big_loop M x (c # params) =
     (case p_bigInt M c of
        Inl e \<Rightarrow> Some (Inl e)
      | Inr y \<Rightarrow>
          (case gcdBig M x y of
             None \<Rightarrow> None
           | Some (Inl e) \<Rightarrow> Some (Inl e)
           | Some (Inr z) \<Rightarrow> gcd_big_loop M z params))"

text \<open>Euclid's loop of \<^verbatim>\<open>p_gcd\<close> on 64-bit integers.\<close>

function gcd_int_loop :: "int \<Rightarrow> int \<Rightarrow> int result" where
  "gcd_int_loop m n =
     (if n = 0 then Inr m
      else if m = - (2 ^ 63) \<and> n = -1 then Inl C_UNDEFINED
      else gcd_int_loop n (m smod n))"
  by pat_completeness auto
termination
proof (relation "measure (\<lambda>(m, n). nat \<bar>n\<bar>)")
  fix m n :: int
  assume "n \<noteq> 0"
  then have "\<bar>m smod n\<bar> < \<bar>n\<bar>" by (simp add: signed_modulo_int_def abs_mult)
  then show "((n, m smod n), m, n) \<in> measure (\<lambda>(m, n). nat \<bar>n\<bar>)" using \<open>n \<noteq> 0\<close> by auto
qed simp

fun gcd_int_params :: "int \<Rightarrow> cell list \<Rightarrow> int result" where
  "gcd_int_params m [] = Inr m"
| "gcd_int_params m (c # params) =
     (case getInteger64Ext c of
        Inl e \<Rightarrow> Inl e
      | Inr n \<Rightarrow>
          (case gcd_int_loop m n of
             Inl e \<Rightarrow> Inl e
           | Inr m' \<Rightarrow> gcd_int_params m' params))"

definition p_gcd :: "machine \<Rightarrow> cell list \<Rightarrow> cell result option" where
  "p_gcd M params =
     (case params of
        [] \<Rightarrow> Some (Inl ERR_NUMBER_EXPECTED)
      | CELL_BIGINT b # rest \<Rightarrow>
          (case gcd_big_loop M (CELL_BIGINT b) (if rest = [] then [CELL_NIL] else rest) of
             None \<Rightarrow> None
           | Some (Inl e) \<Rightarrow> Some (Inl e)
           | Some (Inr (CELL_BIGINT g)) \<Rightarrow> Some (Inr (CELL_BIGINT (g\<lparr>bsign := 1\<rparr>)))
           | Some (Inr c) \<Rightarrow> Some (Inr c))
      | c # rest \<Rightarrow>
          Some (case getInteger64Ext c of
                  Inl e \<Rightarrow> Inl e
                | Inr m \<Rightarrow>
                    map_sum id (\<lambda>g. CELL_LONG (if g < 0 then wrap64 (- g) else g))
                      (gcd_int_params m rest)))"

text \<open>Dividing out a divisor, with the number of times it divides. The guard on the operands
  makes the recursion total; the loop of the source runs it on positive numbers only.\<close>

function divide_out :: "int \<Rightarrow> int \<Rightarrow> int \<times> nat" where
  "divide_out d n =
     (if 1 < d \<and> 0 < n \<and> n smod d = 0
      then (let (n', k) = divide_out d (n sdiv d) in (n', Suc k))
      else (n, 0))"
  by pat_completeness auto
termination
  by (relation "measure (\<lambda>(d, n). nat n)") (auto simp: sdiv_nonneg int_div_less_self)

partial_function (option) factor_loop :: "int \<Rightarrow> int \<Rightarrow> int list \<Rightarrow> (int \<times> int list) option" where
  "factor_loop d n fs =
     (if wrap64 (d * d) \<le> n
      then (let (n', k) = divide_out d n in factor_loop (wrap64 (d + 2)) n' (fs @ replicate k d))
      else Some (n, fs))"

definition p_factor :: "cell \<Rightarrow> cell result option" where
  "p_factor c =
     (case getInteger64Ext c of
        Inl e \<Rightarrow> Some (Inl e)
      | Inr n \<Rightarrow>
          if n < 2 then Some (Inr CELL_NIL)
          else
            (let (n', k) = divide_out 2 n
             in map_option
                  (\<lambda>(m, fs). Inr (CELL_EXPRESSION
                     (map CELL_LONG (if m > 1 then fs @ [m] else fs))))
                  (factor_loop 3 n' (replicate k 2))))"

section \<open>Bits and parity\<close>

text \<open>The bits of a number from the lowest, at most 64 of them.\<close>

fun bit_loop :: "nat \<Rightarrow> int \<Rightarrow> bool list" where
  "bit_loop 0 num = []"
| "bit_loop (Suc k) num =
     (num smod 2 \<noteq> 0) # (if num div 2 \<noteq> 0 then bit_loop k (num div 2) else [])"

definition p_bits :: "cell \<Rightarrow> bool \<Rightarrow> cell result" where
  "p_bits c flag =
     map_sum id
       (\<lambda>num. let temp = bit_loop 64 num
              in if flag then CELL_EXPRESSION (map (\<lambda>b. if b then CELL_TRUE else CELL_NIL) temp)
                 else CELL_STRING (map (\<lambda>b. if b then CHR ''1'' else CHR ''0'') (rev temp)))
       (getInteger64Ext c)"

fun isOddEven :: "cell \<Rightarrow> bool \<Rightarrow> bool result" where
  "isOddEven (CELL_BIGINT b) want_odd =
     Inr (if last (bdigits b) AND 1 = 0 then \<not> want_odd else want_odd)"
| "isOddEven c want_odd =
     map_sum id (\<lambda>num. if num AND 1 = 0 then \<not> want_odd else want_odd) (getInteger64Ext c)"

section \<open>Relational operators\<close>

text \<open>Whether a comparison result lets the loop of \<^verbatim>\<open>compareOp\<close> go on.\<close>

fun rel_holds :: "relation \<Rightarrow> int \<Rightarrow> bool" where
  "rel_holds OP_LESS c = (\<not> c \<ge> 0)"
| "rel_holds OP_GREATER c = (\<not> c \<le> 0)"
| "rel_holds OP_LESS_EQUAL c = (\<not> c > 0)"
| "rel_holds OP_GREATER_EQUAL c = (\<not> c < 0)"
| "rel_holds OP_EQUAL c = (\<not> c \<noteq> 0)"
| "rel_holds OP_NOTEQUAL c = (\<not> c = 0)"

fun compare_chain :: "machine \<Rightarrow> relation \<Rightarrow> cell \<Rightarrow> cell list \<Rightarrow> bool result" where
  "compare_chain M op left [] = Inr True"
| "compare_chain M op left (right # params) =
     (case compareCells M left right of
        Inl e \<Rightarrow> Inl e
      | Inr c \<Rightarrow>
          if c = 9 then Inr (op = OP_NOTEQUAL)
          else if \<not> rel_holds op c then Inr False
          else compare_chain M op right params)"

text \<open>A single argument is compared with 0, the empty string or the empty list.\<close>

definition compareOp :: "machine \<Rightarrow> cell list \<Rightarrow> relation \<Rightarrow> bool result" where
  "compareOp M params op =
     (case (case params of [] \<Rightarrow> [CELL_NIL] | _ \<Rightarrow> params) of
        [left] \<Rightarrow>
          (if isNumber left then compare_chain M op left [CELL_LONG 0]
           else if compare_type left = 4 then compare_chain M op left [CELL_STRING []]
           else if isList left then compare_chain M op left [CELL_EXPRESSION []]
           else Inr True)
      | left # rest \<Rightarrow> compare_chain M op left rest
      | [] \<Rightarrow> Inr True)"

section \<open>Operators on integers\<close>

fun int_value :: "cell \<Rightarrow> int" where
  "int_value (CELL_LONG n) = n"
| "int_value (CELL_BIGINT b) = bval b"
| "int_value _ = 0"

fun exact_arg :: "cell \<Rightarrow> bool" where
  "exact_arg (CELL_LONG n) =
     (int64 n \<and> n \<noteq> - (2 ^ 63) \<and> int_split_ok \<bar>n\<bar> \<and> \<bar>n\<bar> \<noteq> BIGINT_BASE \<and> \<bar>n\<bar> \<noteq> BIGINT_BASE2)"
| "exact_arg (CELL_BIGINT b) = wf_bigint b"
| "exact_arg _ = False"

lemma exact_argE:
  assumes "exact_arg c"
  obtains y where "getBigintSizeDirect M c = Inr y" "wf_bigint y" "bval y = int_value c"
  using assms by (cases c rule: exact_arg.cases) (auto simp: intToBigint_ok)

lemma exact_args:
  assumes "list_all exact_arg cs"
  shows "\<exists>ys. map (getBigintSizeDirect M) cs = map Inr ys \<and> list_all wf_bigint ys \<and> map bval ys = map int_value cs"
  using assms
proof (induction cs)
  case (Cons c cs)
  then obtain ys where "map (getBigintSizeDirect M) cs = map Inr ys" "list_all wf_bigint ys" "map bval ys = map int_value cs"
    by auto
  moreover obtain y where "getBigintSizeDirect M c = Inr y" "wf_bigint y" "bval y = int_value c"
    using Cons.prems by (auto elim: exact_argE)
  ultimately show ?case by (intro exI [of _ "y # ys"]) simp
qed simp

lemma big_loop_fold:
  assumes "map (getBigintSizeDirect M) cs = map Inr ys" "\<And>x y. big_op M op x y = Some (Inr (f x y))"
  shows "big_loop M op x cs = Some (Inr (foldl f x ys))"
  using assms(1)
proof (induction cs arbitrary: x ys)
  case (Cons c cs)
  then show ?case using assms(2) by (cases ys) auto
qed simp

context double_rounding
begin

lemma divmod_op:
  assumes "wf_bigint x" "wf_bigint y" "bval y \<noteq> 0"
  shows "\<exists>q. divModBigint fl x y m = Some (Inr q) \<and> bval q = (if m then bval x smod bval y else bval x sdiv bval y) \<and> wf_bigint q"
  using big.div_law [OF assms] big.mod_law [OF assms] by (cases m) auto

end

lemma big_loop_divmod:
  assumes fl: "ieee_double (rnd M)" and "wf_bigint x" "list_all exact_arg cs" "\<forall>c\<in>set cs. int_value c \<noteq> 0"
    and op: "op = OP_DIVIDE \<and> f = (sdiv) \<or> op = OP_MODULO \<and> f = (smod)"
  shows "\<exists>q. big_loop M op x cs = Some (Inr q) \<and> bval q = foldl f (bval x) (map int_value cs) \<and> wf_bigint q"
  using assms(2-4)
proof (induction cs arbitrary: x)
  case (Cons c cs)
  obtain y where y: "getBigintSizeDirect M c = Inr y" "wf_bigint y" "bval y = int_value c"
    using Cons.prems by (auto elim: exact_argE)
  obtain q where q: "divModBigint (rnd M) x y (op = OP_MODULO) = Some (Inr q)" "bval q = f (bval x) (bval y)" "wf_bigint q"
    using double_rounding.divmod_op [OF double_rounding.intro [OF fl], of x y "op = OP_MODULO"] Cons.prems y op by auto
  have "big_op M op x y = Some (Inr q)" using q op by auto
  then show ?case using Cons.IH [OF q(3)] Cons.prems y q by simp
qed simp

lemma arithmetikOp_big:
  assumes "rest \<noteq> []"
  shows "arithmetikOp M (CELL_BIGINT b # rest) op = map_option (map_sum id CELL_BIGINT) (big_loop M op b rest)"
  using assms by (simp add: arithmetikOp_def)





lemma wrap64_ring:
  "wrap64 (wrap64 a + b) = wrap64 (a + b)" "wrap64 (wrap64 a - b) = wrap64 (a - b)" "wrap64 (wrap64 a * b) = wrap64 (a * b)"
  unfolding wrap64_eq_iff by (metis mod_add_left_eq wrap64_mod) (metis mod_diff_left_eq wrap64_mod, metis mod_mult_left_eq wrap64_mod)

lemma int64_loop_wrap:
  "int64_loop OP_ADD (wrap64 n) (map CELL_LONG ns) = Inr (wrap64 (n + sum_list ns))"
  "int64_loop OP_SUBTRACT (wrap64 n) (map CELL_LONG ns) = Inr (wrap64 (n - sum_list ns))"
  "int64_loop OP_MULTIPLY (wrap64 n) (map CELL_LONG ns) = Inr (wrap64 (n * prod_list ns))"
  by (induction ns arbitrary: n) (simp_all add: wrap64_ring add.assoc mult.assoc diff_diff_eq)

text \<open>(C15) With a 64-bit integer first, \<^verbatim>\<open>+\<close>, \<^verbatim>\<open>-\<close> and \<^verbatim>\<open>*\<close> of 64-bit
  integers compute modulo \<open>2 ^ 64\<close>: the intermediate wrap-arounds of the loop do not change
  the result.\<close>

theorem int64_operators:
  assumes "int64 n" "ns \<noteq> []"
  shows "arithmetikOp M (map CELL_LONG (n # ns)) OP_ADD = Some (Inr (CELL_LONG (wrap64 (n + sum_list ns)))) \<and>
    arithmetikOp M (map CELL_LONG (n # ns)) OP_SUBTRACT = Some (Inr (CELL_LONG (wrap64 (n - sum_list ns)))) \<and>
    arithmetikOp M (map CELL_LONG (n # ns)) OP_MULTIPLY = Some (Inr (CELL_LONG (wrap64 (n * prod_list ns))))"
  using int64_loop_wrap [of n ns] assms by (simp add: arithmetikOp_def)

theorem int64_operators_witness:
  "\<forall>M. arithmetikOp M [CELL_LONG (2 ^ 63 - 1), CELL_LONG 3, CELL_LONG (-2)] OP_ADD = Some (Inr (CELL_LONG (- (2 ^ 63))))"
proof
  fix M
  have "wrap64 (2 ^ 63) = - (2 ^ 63)" by (simp add: wrap64_def signed_take_bit_eq_if_negative)
  then show "arithmetikOp M [CELL_LONG (2 ^ 63 - 1), CELL_LONG 3, CELL_LONG (-2)] OP_ADD = Some (Inr (CELL_LONG (- (2 ^ 63))))"
    using int64_operators [of "2 ^ 63 - 1" "[3, -2]" M] by (simp add: int64_def)
qed

section \<open>Greatest common divisor\<close>

lemma gcd_smod: "gcd (n::int) (m smod n) = gcd m n"
  using gcd_add_mult [of n "m sdiv n" "m smod n"] by (simp add: sdiv_mult_smod_eq gcd.commute)

lemma smod_less: "n \<noteq> 0 \<Longrightarrow> \<bar>m smod n\<bar> < \<bar>n :: int\<bar>"
  by (simp add: signed_modulo_int_def abs_mult)

declare gcd_int_loop.simps [simp del]

lemma gcd_int_loop_correct:
  assumes "\<bar>m\<bar> < 2 ^ 63" "\<bar>n\<bar> < 2 ^ 63"
  shows "\<exists>g. gcd_int_loop m n = Inr g \<and> \<bar>g\<bar> = gcd m n"
  using assms
proof (induction m n rule: gcd_int_loop.induct)
  case (1 m n)
  show ?case
  proof (cases "n = 0")
    case False
    have "\<bar>m smod n\<bar> < 2 ^ 63" using smod_less [OF False, of m] 1 by simp
    then show ?thesis using 1 False gcd_smod [of n m] gcd_int_loop.simps [of m n] by auto
  qed (simp add: gcd_int_loop.simps)
qed

lemma gcd_int_params_correct:
  assumes "\<bar>m\<bar> < 2 ^ 63" "\<forall>n\<in>set ns. \<bar>n\<bar> < 2 ^ 63"
  shows "\<exists>g. gcd_int_params m (map CELL_LONG ns) = Inr g \<and> \<bar>g\<bar> = Gcd (set (m # ns)) \<and> \<bar>g\<bar> < 2 ^ 63"
  using assms
proof (induction ns arbitrary: m)
  case (Cons n ns)
  obtain g where g: "gcd_int_loop m n = Inr g" "\<bar>g\<bar> = gcd m n" using gcd_int_loop_correct [of m n] Cons.prems by auto
  have "\<bar>g\<bar> < 2 ^ 63"
  proof (cases "m = 0 \<and> n = 0")
    case False
    then have "gcd m n \<le> \<bar>m\<bar> \<or> gcd m n \<le> \<bar>n\<bar>" using gcd_le1_int gcd_le2_int by (metis abs_ge_zero abs_0_eq gcd_abs1_int gcd_abs2_int gcd_0_left_int gcd_0_int order_refl zero_less_abs_iff)
    then show ?thesis using g Cons.prems by auto
  qed (use g in simp)
  moreover have "Gcd (set (g # ns)) = Gcd (set (m # n # ns))"
    using g(2) by (simp add: gcd.assoc [symmetric]) (metis gcd_abs1_int)
  ultimately show ?case using Cons.IH [of g] Cons.prems g by (auto simp del: Gcd_insert)
qed simp

lemma isZero_big: "wf_bigint b \<Longrightarrow> isZero (CELL_BIGINT b) \<longleftrightarrow> bval b = 0"
  using dval_zero_iff [of "bdigits b"] by (auto simp: bval_def wf_bigint_def)

lemma gcdBig_correct:
  assumes fl: "ieee_double (rnd M)" and "wf_bigint a" "wf_bigint b"
  shows "\<exists>g. gcdBig M (CELL_BIGINT a) (CELL_BIGINT b) = Some (Inr (CELL_BIGINT g)) \<and> wf_bigint g \<and> \<bar>bval g\<bar> = gcd (bval a) (bval b)"
  using assms(2,3)
proof (induction "nat \<bar>bval b\<bar>" arbitrary: a b rule: less_induct)
  case less
  show ?case
  proof (cases "bval b = 0")
    case True
    then show ?thesis using less.prems isZero_big [of b] by (simp add: gcdBig.simps)
  next
    case False
    obtain r where r: "divModBigint (rnd M) a b True = Some (Inr r)" "bval r = bval a smod bval b" "wf_bigint r"
      using double_rounding.divmod_op [OF double_rounding.intro [OF fl] less.prems False, of True] by auto
    have op: "arithmetikOp M [CELL_BIGINT a, CELL_BIGINT b] OP_MODULO = Some (Inr (CELL_BIGINT r))"
      using r by (simp add: arithmetikOp_big)
    have "\<bar>bval r\<bar> < \<bar>bval b\<bar>" using r smod_less [OF False] by simp
    then obtain g where "gcdBig M (CELL_BIGINT b) (CELL_BIGINT r) = Some (Inr (CELL_BIGINT g))" "wf_bigint g" 
      "\<bar>bval g\<bar> = gcd (bval b) (bval r)" using less.hyps [of r b] less.prems r False by auto
    then show ?thesis using op isZero_big [OF less.prems(2)] False r gcd_smod [of "bval b" "bval a"]
      by (subst gcdBig.simps) (simp del: isZero.simps)
  qed
qed


lemma gcd_big_loop_correct:
  assumes fl: "ieee_double (rnd M)" and "wf_bigint x" "list_all exact_arg cs"
  shows "\<exists>g. gcd_big_loop M (CELL_BIGINT x) cs = Some (Inr (CELL_BIGINT g)) \<and> wf_bigint g \<and>
     \<bar>bval g\<bar> = Gcd (set (bval x # map int_value cs))"
  using assms(2,3)
proof (induction cs arbitrary: x)
  case (Cons c cs)
  obtain y where y: "getBigintSizeDirect M c = Inr y" "wf_bigint y" "bval y = int_value c"
    using Cons.prems by (auto elim: exact_argE)
  have p: "p_bigInt M c = Inr (CELL_BIGINT y)" using y Cons.prems by (cases c) auto
  obtain g where g: "gcdBig M (CELL_BIGINT x) (CELL_BIGINT y) = Some (Inr (CELL_BIGINT g))" "wf_bigint g"
    "\<bar>bval g\<bar> = gcd (bval x) (bval y)" using gcdBig_correct [OF fl Cons.prems(1) y(2)] by blast
  have "Gcd (set (bval g # map int_value cs)) = Gcd (set (bval x # map int_value (c # cs)))"
    using g(3) y(3) by (simp add: gcd.assoc [symmetric]) (metis gcd_abs1_int)
  then show ?case using Cons.IH [OF g(2)] Cons.prems p g by (auto simp del: Gcd_insert)
qed simp





section \<open>Prime factors\<close>

declare divide_out.simps [simp del]

definition is_prime :: "int \<Rightarrow> bool" where
  "is_prime p \<longleftrightarrow> 1 < p \<and> (\<forall>d. 1 < d \<and> d dvd p \<longrightarrow> d = p)"

definition FACTOR_LIMIT :: int where
  "FACTOR_LIMIT = 3037000499"

lemma divide_out_correct:
  assumes "1 < d" "0 < n"
  shows "n = fst (divide_out d n) * d ^ snd (divide_out d n) \<and> 0 < fst (divide_out d n) \<and> \<not> d dvd fst (divide_out d n)
    \<and> fst (divide_out d n) \<le> n"
  using assms
proof (induction d n rule: divide_out.induct)
  case (1 d n)
  show ?case
  proof (cases "d dvd n")
    case True
    then have nd: "n smod d = 0" "n sdiv d = n div d" "0 < n div d" "n div d * d = n" "n div d \<le> n"
      using "1.prems" by (auto simp: c_arith pos_imp_zdiv_pos_iff zdvd_imp_le int_div_less_self order_less_imp_le)
    obtain m k where mk: "divide_out d (n div d) = (m, k)" by fastforce
    then have "n div d = m * d ^ k \<and> 0 < m \<and> \<not> d dvd m \<and> m \<le> n div d" using "1.IH" "1.prems" nd by auto
    moreover have "divide_out d n = (m, Suc k)" using divide_out.simps [of d n] "1.prems" nd mk by simp
    ultimately show ?thesis using nd by (simp add: mult.assoc [symmetric]) (metis mult.assoc mult.commute)
  next
    case False
    then have "n smod d \<noteq> 0" using "1.prems" by (simp add: c_arith dvd_eq_mod_eq_0)
    then show ?thesis using False "1.prems" divide_out.simps [of d n] by simp
  qed
qed

definition no_factor_below :: "int \<Rightarrow> int \<Rightarrow> bool" where
  "no_factor_below d n \<longleftrightarrow> (\<forall>e. 1 < e \<and> e < d \<longrightarrow> \<not> e dvd n)"

lemma prime_if_no_factor:
  assumes "no_factor_below d n" "1 < n" "n < d * d" "0 < d"
  shows "is_prime n"
  unfolding is_prime_def
proof (intro conjI allI impI)
  fix e assume e: "1 < e \<and> e dvd n"
  then obtain k where k: "n = e * k" by (elim conjE dvdE)
  show "e = n"
  proof (rule ccontr)
    assume "e \<noteq> n"
    then have "1 < k" using k e assms by (metis dual_order.strict_trans int_one_le_iff_zero_less less_le_not_le mult.right_neutral not_less order_le_less zero_less_mult_pos zero_less_one)
    then have "d \<le> e" "d \<le> k" using assms(1) e k by (auto simp: no_factor_below_def not_less [symmetric])
    then have "d * d \<le> e * k" using assms by (intro mult_mono) auto
    then show False using k assms by simp
  qed
qed (rule assms)


definition factor_inv :: "int \<Rightarrow> int \<Rightarrow> int \<Rightarrow> int list \<Rightarrow> bool" where
  "factor_inv N d n fs \<longleftrightarrow> 0 < n \<and> n * prod_list fs = N \<and> no_factor_below d n \<and>
     (\<forall>p\<in>set fs. is_prime p \<and> p < d) \<and> sorted fs"

lemma sorted_append_replicate: "sorted fs \<Longrightarrow> \<forall>p\<in>set fs. p \<le> d \<Longrightarrow> sorted (fs @ replicate k (d::int))"
  by (simp add: sorted_append)

lemma factor_inv_step:
  assumes "factor_inv N d n fs" "1 < d" "odd d \<and> d' = d + 2 \<or> d = 2 \<and> d' = 3" "divide_out d n = (m, k)"
  shows "factor_inv N d' m (fs @ replicate k d) \<and> m \<le> n"
proof -
  have m: "n = m * d ^ k" "0 < m" "\<not> d dvd m" "m \<le> n" using divide_out_correct [of d n] assms by (auto simp: factor_inv_def)
  have nf: "\<not> e dvd m" if "1 < e" "e < d'" for e
  proof
    assume "e dvd m"
    then have "e dvd n" using m(1) by simp
    then have "d \<le> e" using assms(1) that by (auto simp: factor_inv_def no_factor_below_def not_less [symmetric])
    moreover have "e \<noteq> d" using \<open>e dvd m\<close> m(3) by blast
    ultimately have e: "e = d + 1" "odd d" "2 < d" using that assms(2,3) by presburger+
    then have "2 dvd n" using \<open>e dvd n\<close> by (metis dvd_trans even_plus_one_iff)
    then show False using assms(1) e by (auto simp: factor_inv_def no_factor_below_def)
  qed
  have "is_prime d" if "k \<noteq> 0"
    unfolding is_prime_def
  proof (intro conjI allI impI)
    fix e assume e: "1 < e \<and> e dvd d"
    then have "e dvd n" using m(1) that by (metis dvd_mult dvd_power dvd_trans neq0_conv)
    then have "d \<le> e" using assms(1) e by (auto simp: factor_inv_def no_factor_below_def not_less [symmetric])
    then show "e = d" using e zdvd_imp_le [of e d] assms(2) by auto
  qed (rule assms)
  moreover have "d < d'" using assms(3) by auto
  ultimately show ?thesis using assms(1) m nf
    by (auto simp: factor_inv_def no_factor_below_def sorted_append intro: order.strict_trans)
qed

lemma factor_loop_correct:
  assumes "factor_inv N d n fs" "1 < d" "odd d" "d \<le> FACTOR_LIMIT" "n < FACTOR_LIMIT * FACTOR_LIMIT"
  shows "\<exists>m gs d'. factor_loop d n fs = Some (m, gs) \<and> factor_inv N d' m gs \<and> m < d' * d' \<and> 1 < d'"
  using assms
proof (induction "nat (FACTOR_LIMIT - d)" arbitrary: d n fs rule: less_induct)
  case less
  have "d * d \<le> FACTOR_LIMIT * FACTOR_LIMIT" using less.prems by (intro mult_mono) auto
  then have w: "wrap64 (d * d) = d * d" "wrap64 (d + 2) = d + 2"
    using less.prems by (auto intro!: wrap64_id simp: int64_def FACTOR_LIMIT_def) (smt (verit) mult_nonneg_nonneg)
  show ?case
  proof (cases "d * d \<le> n")
    case True
    obtain m k where mk: "divide_out d n = (m, k)" by fastforce
    note st = factor_inv_step [OF less.prems(1,2) _ mk, of "d + 2"]
    have "d < FACTOR_LIMIT" using True less.prems by (metis leD order_le_less)
    moreover have "odd FACTOR_LIMIT" by (simp add: FACTOR_LIMIT_def)
    ultimately have "d + 2 \<le> FACTOR_LIMIT" using less.prems(3) by presburger
    then obtain m' gs d' where "factor_loop (d + 2) m (fs @ replicate k d) = Some (m', gs)" "factor_inv N d' m' gs" "m' < d' * d'" "1 < d'"
      using less.hyps [of "d + 2" m "fs @ replicate k d"] st less.prems by auto
    then show ?thesis using w mk True by (subst factor_loop.simps) auto
  next
    case False
    then show ?thesis using w less.prems by (subst factor_loop.simps) auto
  qed
qed

text \<open>(C16) \<^verbatim>\<open>factor\<close> of an integer from 2 up to the square of 3037000499 returns its
  prime factors in ascending order: all are prime and their product is the number. Above that
  bound the square in the loop test overflows.\<close>

theorem p_factor_correct:
  assumes "2 \<le> n" "n < FACTOR_LIMIT * FACTOR_LIMIT"
  shows "\<exists>fs. p_factor (CELL_LONG n) = Some (Inr (CELL_EXPRESSION (map CELL_LONG fs))) \<and>
     prod_list fs = n \<and> (\<forall>p\<in>set fs. is_prime p) \<and> sorted fs"
proof -
  obtain n' k where nk: "divide_out 2 n = (n', k)" by fastforce
  have "factor_inv n 2 n []" using assms by (auto simp: factor_inv_def no_factor_below_def)
  from factor_inv_step [OF this _ _ nk, of 3]
  have "factor_inv n 3 n' (replicate k 2)" "n' \<le> n" by auto
  then obtain m gs d where f: "factor_loop 3 n' (replicate k 2) = Some (m, gs)" "factor_inv n d m gs" "m < d * d" "1 < d"
    using factor_loop_correct [of n 3 n' "replicate k 2"] assms by (auto simp: FACTOR_LIMIT_def)
  define fs where "fs = (if m > 1 then gs @ [m] else gs)"
  have p: "p_factor (CELL_LONG n) = Some (Inr (CELL_EXPRESSION (map CELL_LONG fs)))"
    using assms nk f by (simp add: p_factor_def fs_def)
  have m: "0 < m" "m * prod_list gs = n" "\<forall>p\<in>set gs. is_prime p \<and> p < d" "sorted gs" using f(2) by (auto simp: factor_inv_def)
  have pm: "is_prime m \<and> d \<le> m" if "1 < m"
    using prime_if_no_factor [of d m] f that by (auto simp: factor_inv_def no_factor_below_def)
  show ?thesis
  proof (intro exI conjI)
    show "prod_list fs = n" using m by (auto simp: fs_def)
    show "\<forall>q\<in>set fs. is_prime q" using m pm by (auto simp: fs_def)
    show "sorted fs" using m pm by (force simp: fs_def sorted_append)
  qed (rule p)
qed

theorem p_factor_correct_witness:
  "\<exists>fs. p_factor (CELL_LONG 123456789012345678) = Some (Inr (CELL_EXPRESSION (map CELL_LONG fs))) \<and>
     prod_list fs = 123456789012345678 \<and> list_all is_prime fs \<and> sorted fs"
  using p_factor_correct [of 123456789012345678] by (simp add: FACTOR_LIMIT_def list_all_iff)

section \<open>Bits and parity of integers\<close>

text \<open>The number a list of bits denotes, lowest bit first.\<close>

fun bits_value :: "bool list \<Rightarrow> int" where
  "bits_value [] = 0"
| "bits_value (b # bs) = of_bool b + 2 * bits_value bs"

lemma smod_2: "(n smod 2 \<noteq> 0) = odd (n :: int)"
  by (cases "n = 0") (auto simp: signed_modulo_int_def even_iff_mod_2_eq_zero [symmetric] sgn_0_0)

lemma bit_loop_value: "bits_value (bit_loop k n) = n mod 2 ^ k"
proof (induction k arbitrary: n)
  case (Suc k)
  have "n mod 2 ^ Suc k = n mod 2 + 2 * (n div 2 mod 2 ^ k)" by (simp add: zmod_zmult2_eq)
  moreover have "of_bool (n smod 2 \<noteq> 0) = n mod 2" by (simp add: smod_2 mod2_eq_if)
  moreover have "n mod 2 ^ Suc k = n mod 2" if "n div 2 = 0" using that calculation(1) by simp
  ultimately show ?case using Suc.IH by (simp split: if_splits)
qed simp

lemma bit_loop_length: "length (bit_loop k n) \<le> k"
  by (induction k arbitrary: n) auto

lemma bit_loop_Nil: "bit_loop (Suc k) n \<noteq> []"
  by simp

lemma bit_loop_last: "n \<noteq> 0 \<Longrightarrow> - (2 ^ k) \<le> n \<Longrightarrow> n < 2 ^ Suc k \<Longrightarrow> last (bit_loop (Suc k) n)"
proof (induction k arbitrary: n)
  case 0
  then have "n = 1 \<or> n = -1" by auto
  then show ?case by (auto simp: smod_2)
next
  case (Suc k)
  show ?case
  proof (cases "n div 2 = 0")
    case True
    then have "n = 1" using Suc.prems by (auto simp: div_eq_0_iff)
    then show ?thesis by (simp add: smod_2)
  next
    case False
    have "last (bit_loop (Suc k) (n div 2))" using Suc.prems False by (intro Suc.IH) auto
    then show ?thesis using False by simp
  qed
qed

text \<open>(C24) \<^verbatim>\<open>bits\<close> gives the binary digits of the number modulo \<open>2 ^ 64\<close>, at least one
  and at most 64, without a leading zero unless the number is 0; the list form holds the same
  bits, the lowest first.\<close>

theorem p_bits_correct:
  assumes "int64 n"
  shows "\<exists>bs. p_bits (CELL_LONG n) True = Inr (CELL_EXPRESSION (map (\<lambda>b. if b then CELL_TRUE else CELL_NIL) bs)) \<and>
    p_bits (CELL_LONG n) False = Inr (CELL_STRING (map (\<lambda>b. if b then CHR ''1'' else CHR ''0'') (rev bs))) \<and>
    bits_value bs = n mod 2 ^ 64 \<and> bs \<noteq> [] \<and> length bs \<le> 64 \<and> (n \<noteq> 0 \<longrightarrow> last bs)"
proof (intro exI conjI impI)
  show "bits_value (bit_loop 64 n) = n mod 2 ^ 64" by (rule bit_loop_value)
  show "length (bit_loop 64 n) \<le> 64" by (rule bit_loop_length)
  show "bit_loop 64 n \<noteq> []" using bit_loop_Nil [of 63 n] by simp
  show "last (bit_loop 64 n)" if "n \<noteq> 0" using bit_loop_last [of n 63] assms that by (simp add: int64_def del: bit_loop.simps)
qed (simp_all add: p_bits_def Let_def del: bit_loop.simps)

theorem p_bits_correct_witness:
  "\<exists>bs. p_bits (CELL_LONG (-2)) True = Inr (CELL_EXPRESSION (map (\<lambda>b. if b then CELL_TRUE else CELL_NIL) bs)) \<and>
     bits_value bs = 2 ^ 64 - 2 \<and> last bs"
  using p_bits_correct [of "-2"] by (auto simp: int64_def)

lemma and_1: "((n::int) AND 1 = 0) = even n" 
  by (simp add: and_one_eq even_iff_mod_2_eq_zero)



section \<open>Increments in place\<close>

text \<open>\<^verbatim>\<open>++\<close> and \<^verbatim>\<open>--\<close> change the number in a place. What the evaluation of the place leaves:
  the symbol it belongs to, if there is one, with its protection (\<^verbatim>\<open>symbolCheck\<close>), and the cell,
  \<open>None\<close> when that is \<^verbatim>\<open>nilCell\<close> itself. A place that holds nil counts as 0. The value is the new
  contents of the cell.\<close>

definition incDecI :: "machine \<Rightarrow> bool option \<Rightarrow> cell option \<Rightarrow> cell option \<Rightarrow> int \<Rightarrow> cell result" where
  "incDecI M symbolCheck place adjust type =
     (if symbolCheck = Some True then Inl ERR_SYMBOL_PROTECTED
      else
        (case place of
           None \<Rightarrow> Inl ERR_INVALID_PARAMETER
         | Some (CELL_BIGINT b) \<Rightarrow>
             map_sum id (\<lambda>n. CELL_BIGINT (if type < 0 then subBigint b n else addBigint b n))
               (case adjust of None \<Rightarrow> Inr (intToBigint 1) | Some c \<Rightarrow> getBigintSizeDirect M c)
         | Some c \<Rightarrow>
             (case (if isNil c then Inr 0 else getInteger64Ext c) of
                Inl e \<Rightarrow> Inl e
              | Inr lValue \<Rightarrow>
                  map_sum id (\<lambda>n. CELL_LONG (wrap64 (lValue + n * type)))
                    (case adjust of None \<Rightarrow> Inr 1 | Some a \<Rightarrow> getInteger64Ext a))))"

lemma incDecI_big:
  assumes "wf_bigint b" "exact_arg c" "symbolCheck \<noteq> Some True" "type = 1 \<or> type = -1"
  shows "\<exists>n. incDecI M symbolCheck (Some (CELL_BIGINT b)) (Some c) type = Inr (CELL_BIGINT n) \<and>
     wf_bigint n \<and> bval n = bval b + type * int_value c"
proof -
  obtain y where y: "getBigintSizeDirect M c = Inr y" "wf_bigint y" "bval y = int_value c"
    using exact_argE [OF assms(2)] by blast
  show ?thesis
    using bigs.add_law [OF assms(1) y(2)] bigs.sub_law [OF assms(1) y(2)] y(1,3) assms(3,4) by (auto simp: incDecI_def)
qed

lemma incDecI_int:
  assumes "symbolCheck \<noteq> Some True"
  shows "incDecI M symbolCheck (Some (CELL_LONG m)) (Some (CELL_LONG n)) type = Inr (CELL_LONG (wrap64 (m + n * type)))"
    "incDecI M symbolCheck (Some CELL_NIL) None type = Inr (CELL_LONG (wrap64 type))"
  using assms by (simp_all add: incDecI_def)

end
