(* ===== verification/NL_VM.thy ===== *)
theory NL_VM
  imports NL_Arith
begin

text \<open>
The byte-code compiler and machine of \<^verbatim>\<open>nl-vm.c\<close>. \<open>compileExpr\<close> translates an
expression, form by form, into the bytes of \<open>vm_opcode\<close>; \<open>compileLambda\<close> translates a function.
The machine executes one instruction per \<open>vm_step\<close> on a stack of pointers, with a frame per call.
Stack and code grow on demand in the source; that memory does not run out is assumed.
\<close>


section \<open>Byte code\<close>

datatype vm_opcode =
    OP_NOP | OP_NIL | OP_TRUE | OP_CONST | OP_POP | OP_DUP
  | OP_LOAD_LOCAL | OP_STORE_LOCAL | OP_LOAD_GLOBAL | OP_STORE_GLOBAL | OP_LOAD_SELF
  | OP_JUMP | OP_JUMP_IF_NIL | OP_JUMP_IF_NOT_NIL | OP_RET
  | OP_LT | OP_GT | OP_LE | OP_GE | OP_EQ | OP_NE
  | OP_ADD | OP_SUB | OP_MUL | OP_DIV | OP_MOD | OP_NEG
  | OP_CALL | OP_CALL_SELF
  | OP_LOAD_LOCAL_0 | OP_LOAD_LOCAL_1 | OP_LOAD_LOCAL_2 | OP_LOAD_LOCAL_3
  | OP_STORE_LOCAL_0 | OP_STORE_LOCAL_1 | OP_STORE_LOCAL_2 | OP_STORE_LOCAL_3
  | OP_CONST_0 | OP_CONST_1 | OP_CONST_2 | OP_SUB_1 | OP_SUB_2 | OP_ADD_1
  | OP_TAIL_CALL | OP_TAIL_CALL_SELF

definition vm_opcodes :: "vm_opcode list" where
  "vm_opcodes =
     [OP_NOP, OP_NIL, OP_TRUE, OP_CONST, OP_POP, OP_DUP,
      OP_LOAD_LOCAL, OP_STORE_LOCAL, OP_LOAD_GLOBAL, OP_STORE_GLOBAL, OP_LOAD_SELF,
      OP_JUMP, OP_JUMP_IF_NIL, OP_JUMP_IF_NOT_NIL, OP_RET,
      OP_LT, OP_GT, OP_LE, OP_GE, OP_EQ, OP_NE,
      OP_ADD, OP_SUB, OP_MUL, OP_DIV, OP_MOD, OP_NEG,
      OP_CALL, OP_CALL_SELF,
      OP_LOAD_LOCAL_0, OP_LOAD_LOCAL_1, OP_LOAD_LOCAL_2, OP_LOAD_LOCAL_3,
      OP_STORE_LOCAL_0, OP_STORE_LOCAL_1, OP_STORE_LOCAL_2, OP_STORE_LOCAL_3,
      OP_CONST_0, OP_CONST_1, OP_CONST_2, OP_SUB_1, OP_SUB_2, OP_ADD_1,
      OP_TAIL_CALL, OP_TAIL_CALL_SELF]"

text \<open>The number of an operation is its place in the enumeration.\<close>

definition op_byte :: "vm_opcode \<Rightarrow> int" where
  "op_byte op = int (length (takeWhile (\<lambda>x. x \<noteq> op) vm_opcodes))"

definition op_decode :: "int \<Rightarrow> vm_opcode option" where
  "op_decode b = (if 0 \<le> b \<and> nat b < length vm_opcodes then Some (vm_opcodes ! nat b) else None)"

lemma op_decode_byte [simp]: "op_decode (op_byte op) = Some op"
  by (cases op) (simp_all add: op_byte_def op_decode_def vm_opcodes_def)

lemma op_byte_range: "0 \<le> op_byte op \<and> op_byte op < 256"
  by (cases op) (simp_all add: op_byte_def vm_opcodes_def)

record bytecode =
  bcode :: "int list"
  bconstants :: "cell list"
  bsymbols :: "symbol list"
  num_params :: nat
  num_locals :: nat

section \<open>The compiler\<close>

text \<open>A compilation succeeds, gives up (\<^verbatim>\<open>failed\<close>), so that the tree walker takes over, or a
  comparison of constants raises an error. After \<^verbatim>\<open>failed\<close> is set nothing is emitted any
  more, and \<^verbatim>\<open>compileLambda\<close> returns NULL.\<close>

datatype 'a cresult = Compiled 'a | Failed nat | Raised nl_error

fun then_c :: "'a cresult \<Rightarrow> ('a \<Rightarrow> 'b cresult) \<Rightarrow> 'b cresult" where
  "then_c (Compiled x) f = f x"
| "then_c (Failed n) f = Failed n"
| "then_c (Raised e) f = Raised e"

lemma then_c_cong [fundef_cong]:
  "x = y \<Longrightarrow> (\<And>v. y = Compiled v \<Longrightarrow> f v = g v) \<Longrightarrow> then_c x f = then_c y g"
  by (cases y) auto

lemma then_c_Compiled: "then_c x f = Compiled z \<longleftrightarrow> (\<exists>y. x = Compiled y \<and> f y = Compiled z)"
  by (cases x) auto

text \<open>The locals are the slots in use; the counter slot of \<^verbatim>\<open>dotimes\<close> has no symbol.\<close>

record compiler =
  locals :: "symbol option list"
  max_locals :: nat
  self_symbol :: "symbol option"
  code :: "int list"
  constants :: "cell list"
  symbols :: "symbol list"

text \<open>What the compiler looks up outside: flags and contents of symbols.\<close>

record compile_env =
  cmachine :: machine
  cflags :: "symbol \<Rightarrow> int"
  ccontents :: "symbol \<Rightarrow> cell"

text \<open>The buffer of the code doubles when it is full. \<open>Failed n\<close> keeps the size the code had when
  the compiler gave up: the loops patch their backward jump without looking at \<^verbatim>\<open>failed\<close>, so
  that they then write the two bytes behind the code, which the buffer may not have.\<close>

function grow :: "nat \<Rightarrow> nat \<Rightarrow> nat" where
  "grow cap n = (if cap < n \<and> 0 < cap then grow (2 * cap) n else cap)"
  by pat_completeness auto
termination by (relation "measure (\<lambda>(cap, n). n - cap)") auto

declare grow.simps [simp del]

definition code_capacity :: "nat \<Rightarrow> nat" where
  "code_capacity n = (if n = 0 then 0 else grow 64 n)"

abbreviation failed :: "compiler \<Rightarrow> 'a cresult" where
  "failed c \<equiv> Failed (length (code c))"

fun patch_guard :: "'a cresult \<Rightarrow> 'a cresult" where
  "patch_guard (Failed n) = (if n + 1 < code_capacity n then Failed n else Raised C_UNDEFINED)"
| "patch_guard r = r"

lemma patch_guard_cong [fundef_cong]: "x = y \<Longrightarrow> patch_guard x = patch_guard y"
  by simp

lemma patch_guard_Compiled [simp]: "patch_guard r = Compiled c \<longleftrightarrow> r = Compiled c"
  by (cases r) auto

definition emitByte :: "int \<Rightarrow> compiler \<Rightarrow> compiler" where
  "emitByte b c = c\<lparr>code := code c @ [b mod 256]\<rparr>"

definition emitOp :: "vm_opcode \<Rightarrow> compiler \<Rightarrow> compiler" where
  "emitOp op c = emitByte (op_byte op) c"

definition emitUint16 :: "int \<Rightarrow> compiler \<Rightarrow> compiler" where
  "emitUint16 v c = emitByte (v mod 65536 div 256) (emitByte (v mod 65536) c)"

definition emitJump :: "vm_opcode \<Rightarrow> compiler \<Rightarrow> compiler" where
  "emitJump op c = emitUint16 0 (emitOp op c)"

text \<open>The position \<^verbatim>\<open>emitJump\<close> returns.\<close>

definition jump_pos :: "compiler \<Rightarrow> nat" where
  "jump_pos c = length (code c) + 1"

definition int16 :: "int \<Rightarrow> int" where
  "int16 n = (n + 32768) mod 65536 - 32768"

definition patch :: "nat \<Rightarrow> int \<Rightarrow> compiler \<Rightarrow> compiler" where
  "patch pos offset c =
     c\<lparr>code := (code c)[pos := int16 offset mod 256, pos + 1 := int16 offset div 256 mod 256]\<rparr>"

definition patchJump :: "nat \<Rightarrow> compiler \<Rightarrow> compiler" where
  "patchJump pos c = patch pos (int (length (code c)) - int (pos + 2)) c"

definition patchBack :: "nat \<Rightarrow> nat \<Rightarrow> compiler \<Rightarrow> compiler" where
  "patchBack start pos c = patch pos (int start - int (pos + 2)) c"

fun find_constant :: "machine \<Rightarrow> cell \<Rightarrow> nat \<Rightarrow> cell list \<Rightarrow> nat option result" where
  "find_constant M v i [] = Inr None"
| "find_constant M v i (k # ks) =
     (case compareCells M k v of
        Inl e \<Rightarrow> Inl e
      | Inr d \<Rightarrow> if d = 0 then Inr (Some i) else find_constant M v (Suc i) ks)"

text \<open>Index and compiler. Both tables are indexed with 16 bits.\<close>

definition addConstant :: "machine \<Rightarrow> cell \<Rightarrow> compiler \<Rightarrow> (int \<times> compiler) cresult" where
  "addConstant M v c =
     (case find_constant M v 0 (constants c) of
        Inl e \<Rightarrow> Raised e
      | Inr (Some i) \<Rightarrow> Compiled (int i mod 65536, c)
      | Inr None \<Rightarrow> Compiled (int (length (constants c)) mod 65536, c\<lparr>constants := constants c @ [v]\<rparr>))"

fun find_symbol :: "symbol \<Rightarrow> nat \<Rightarrow> symbol list \<Rightarrow> nat option" where
  "find_symbol s i [] = None"
| "find_symbol s i (x # xs) = (if x = s then Some i else find_symbol s (Suc i) xs)"

definition addSymbol :: "symbol \<Rightarrow> compiler \<Rightarrow> int \<times> compiler" where
  "addSymbol s c =
     (case find_symbol s 0 (symbols c) of
        Some i \<Rightarrow> (int i mod 65536, c)
      | None \<Rightarrow> (int (length (symbols c)) mod 65536, c\<lparr>symbols := symbols c @ [s]\<rparr>))"

definition MAX_LOCALS :: nat where
  "MAX_LOCALS = 256"

definition addLocal :: "symbol option \<Rightarrow> compiler \<Rightarrow> compiler cresult" where
  "addLocal s c =
     (if length (locals c) \<ge> MAX_LOCALS then failed c
      else Compiled (c\<lparr>locals := locals c @ [s], max_locals := max (max_locals c) (Suc (length (locals c)))\<rparr>))"

text \<open>The search runs from the innermost local outwards.\<close>

fun last_index :: "symbol \<Rightarrow> symbol option list \<Rightarrow> nat option" where
  "last_index s [] = None"
| "last_index s (x # xs) =
     (case last_index s xs of
        Some i \<Rightarrow> Some (Suc i)
      | None \<Rightarrow> if x = Some s then Some 0 else None)"

definition findLocal :: "symbol \<Rightarrow> compiler \<Rightarrow> nat option" where
  "findLocal s c = last_index s (locals c)"

text \<open>Forms compiled in line, and the names no function call is compiled for.\<close>

unbundle bit_operations_syntax

definition inline_forms :: "string list" where
  "inline_forms = [''if'', ''when'', ''cond'', ''begin'', ''while'', ''let'', ''local'', ''dotimes'']"

definition special_names :: "string list" where
  "special_names =
     [''letn'', ''letex'', ''case'', ''until'', ''unless'', ''if-not'', ''macro'', ''find-all'', ''filter'', ''clean'',
      ''index'', ''catch'', ''throw'', ''throw-error'', ''collect'', ''amb'', ''dolist'', ''dotree'', ''dostring'',
      ''for'', ''for-all'', ''do-until'', ''do-while'', ''doargs'', ''setf'', ''define'', ''define-macro'', ''def-new'',
      ''new'', ''quote'', ''time'', ''trace'', ''trace-highlight'', ''expand'', ''lambda'', ''fn'', ''lambda-macro'',
      ''fn-macro'', ''args'', ''env'', ''curry'', ''context'', ''eval'']"

definition isSpecialForm :: "compile_env \<Rightarrow> symbol \<Rightarrow> bool" where
  "isSpecialForm E s \<longleftrightarrow>
     cflags E s AND 0x600 \<noteq> 0 \<or>
     (case ccontents E s of CELL_FEXPR _ \<Rightarrow> True | _ \<Rightarrow> False) \<or>
     (cflags E s AND 3 \<noteq> 0 \<and> sname s \<notin> set inline_forms) \<or>
     sname s \<in> set special_names"

datatype form =
    F_if | F_when | F_cond | F_and | F_or | F_begin | F_while | F_let | F_local | F_dotimes
  | F_assign bool | F_step bool | F_compare vm_opcode | F_plus | F_minus | F_times | F_divide
  | F_self | F_special | F_call

text \<open>The chain of comparisons with the name of the head, in its order.\<close>

definition form_of :: "compile_env \<Rightarrow> symbol option \<Rightarrow> symbol \<Rightarrow> form" where
  "form_of E self h =
     (let name = sname h
      in if name = ''if'' then F_if
         else if name = ''when'' then F_when
         else if name = ''cond'' then F_cond
         else if name = ''and'' then F_and
         else if name = ''or'' then F_or
         else if name = ''begin'' then F_begin
         else if name = ''while'' then F_while
         else if name = ''let'' then F_let
         else if name = ''local'' then F_local
         else if name = ''dotimes'' then F_dotimes
         else if name = ''setq'' then F_assign True
         else if name = ''set'' then F_assign False
         else if name = ''inc'' then F_step True
         else if name = ''dec'' then F_step False
         else if name = ''<'' then F_compare OP_LT
         else if name = ''>'' then F_compare OP_GT
         else if name = ''<='' then F_compare OP_LE
         else if name = ''>='' then F_compare OP_GE
         else if name = ''='' then F_compare OP_EQ
         else if name = ''!='' then F_compare OP_NE
         else if name = ''+'' then F_plus
         else if name = ''-'' then F_minus
         else if name = ''*'' then F_times
         else if name = ''/'' then F_divide
         else if self = Some h \<or> name = ''self'' then F_self
         else if isSpecialForm E h then F_special
         else F_call)"

definition emitLoad :: "nat \<Rightarrow> compiler \<Rightarrow> compiler" where
  "emitLoad slot c =
     (if slot < 4 then emitOp ([OP_LOAD_LOCAL_0, OP_LOAD_LOCAL_1, OP_LOAD_LOCAL_2, OP_LOAD_LOCAL_3] ! slot) c
      else emitUint16 (int slot) (emitOp OP_LOAD_LOCAL c))"

definition emitStore :: "nat \<Rightarrow> compiler \<Rightarrow> compiler" where
  "emitStore slot c =
     (if slot < 4 then emitOp ([OP_STORE_LOCAL_0, OP_STORE_LOCAL_1, OP_STORE_LOCAL_2, OP_STORE_LOCAL_3] ! slot) c
      else emitUint16 (int slot) (emitOp OP_STORE_LOCAL c))"

definition emitConst :: "compile_env \<Rightarrow> cell \<Rightarrow> compiler \<Rightarrow> compiler cresult" where
  "emitConst E v c =
     then_c (addConstant (cmachine E) v c) (\<lambda>(i, c). Compiled (emitUint16 i (emitOp OP_CONST c)))"

definition emitLong :: "compile_env \<Rightarrow> int \<Rightarrow> compiler \<Rightarrow> compiler cresult" where
  "emitLong E n c =
     (if n = 0 then Compiled (emitOp OP_CONST_0 c)
      else if n = 1 then Compiled (emitOp OP_CONST_1 c)
      else if n = 2 then Compiled (emitOp OP_CONST_2 c)
      else emitConst E (CELL_LONG n) c)"

definition emitGlobal :: "vm_opcode \<Rightarrow> symbol \<Rightarrow> compiler \<Rightarrow> compiler" where
  "emitGlobal op s c = (let (i, c) = addSymbol s c in emitUint16 i (emitOp op c))"

definition emitSymbol :: "symbol \<Rightarrow> compiler \<Rightarrow> compiler" where
  "emitSymbol s c =
     (case findLocal s c of
        Some slot \<Rightarrow> emitLoad slot c
      | None \<Rightarrow>
          if self_symbol c = Some s \<or> sname s = ''self'' then emitOp OP_LOAD_SELF c
          else emitGlobal OP_LOAD_GLOBAL s c)"

definition emitAssign :: "nat option \<Rightarrow> symbol \<Rightarrow> compiler \<Rightarrow> compiler" where
  "emitAssign slot s c =
     (case slot of
        Some k \<Rightarrow> emitStore k c
      | None \<Rightarrow> emitGlobal OP_STORE_GLOBAL s c)"

text \<open>The variables of \<^verbatim>\<open>local\<close>, each set to nil.\<close>

fun compile_locals :: "cell list \<Rightarrow> compiler \<Rightarrow> compiler cresult" where
  "compile_locals [] c = Compiled c"
| "compile_locals (CELL_SYMBOL s # vs) c =
     then_c (addLocal (Some s) c) (\<lambda>c'. compile_locals vs (emitStore (length (locals c)) (emitOp OP_NIL c')))"
| "compile_locals (_ # vs) c = failed c"

definition is_long :: "int \<Rightarrow> cell \<Rightarrow> bool" where
  "is_long n e \<longleftrightarrow> e = CELL_LONG n"

text \<open>The symbol a quoted or plain first argument names.\<close>

fun quoted_symbol :: "cell \<Rightarrow> symbol option" where
  "quoted_symbol (CELL_QUOTE (CELL_SYMBOL s)) = Some s"
| "quoted_symbol _ = None"

fun plain_symbol :: "cell \<Rightarrow> symbol option" where
  "plain_symbol (CELL_SYMBOL s) = Some s"
| "plain_symbol _ = None"

text \<open>The variable and the initial value of a binding in a list of pairs.\<close>

fun pair_binding :: "cell list \<Rightarrow> (symbol \<times> cell) option" where
  "pair_binding (CELL_SYMBOL s # v # _) = Some (s, v)"
| "pair_binding [CELL_SYMBOL s] = Some (s, CELL_NIL)"
| "pair_binding _ = None"

lemma pair_binding_size: "pair_binding ps = Some (s, v) \<Longrightarrow> size v < size_list size ps + 1"
  by (induction ps rule: pair_binding.induct) auto

text \<open>The size of a list of expressions; every call below is on something smaller.\<close>

abbreviation cells_size :: "cell list \<Rightarrow> nat" where
  "cells_size \<equiv> size_list size"

lemma binding_smaller [termination_simp]: "pair_binding ps = Some (s, v) \<Longrightarrow> size v < Suc (cells_size ps)"
  using pair_binding_size [of ps s v] by simp

function compileExpr :: "compile_env \<Rightarrow> compiler \<Rightarrow> cell \<Rightarrow> bool \<Rightarrow> compiler cresult"
  and compile_form :: "compile_env \<Rightarrow> compiler \<Rightarrow> form \<Rightarrow> cell list \<Rightarrow> bool \<Rightarrow> compiler cresult"
  and compile_body :: "compile_env \<Rightarrow> compiler \<Rightarrow> cell list \<Rightarrow> bool \<Rightarrow> compiler cresult"
  and compile_discard :: "compile_env \<Rightarrow> compiler \<Rightarrow> cell list \<Rightarrow> compiler cresult"
  and compile_clauses :: "compile_env \<Rightarrow> compiler \<Rightarrow> nat list \<Rightarrow> cell list \<Rightarrow> bool \<Rightarrow> compiler cresult"
  and compile_and :: "compile_env \<Rightarrow> compiler \<Rightarrow> nat list \<Rightarrow> cell list \<Rightarrow> bool \<Rightarrow> compiler cresult"
  and compile_or :: "compile_env \<Rightarrow> compiler \<Rightarrow> nat list \<Rightarrow> cell list \<Rightarrow> bool \<Rightarrow> compiler cresult"
  and compile_lets :: "compile_env \<Rightarrow> compiler \<Rightarrow> cell list \<Rightarrow> compiler cresult"
  and compile_assigns :: "compile_env \<Rightarrow> compiler \<Rightarrow> bool \<Rightarrow> cell list \<Rightarrow> compiler cresult"
  and compile_ops :: "compile_env \<Rightarrow> compiler \<Rightarrow> vm_opcode \<Rightarrow> cell list \<Rightarrow> compiler cresult"
  and compile_args :: "compile_env \<Rightarrow> compiler \<Rightarrow> cell list \<Rightarrow> compiler cresult" where
  "compileExpr E c e is_tail =
     (case e of
        CELL_NIL \<Rightarrow> Compiled (emitOp OP_NIL c)
      | CELL_TRUE \<Rightarrow> Compiled (emitOp OP_TRUE c)
      | CELL_LONG n \<Rightarrow> emitLong E n c
      | CELL_FLOAT d \<Rightarrow> emitConst E (CELL_FLOAT d) c
      | CELL_STRING s \<Rightarrow> emitConst E (CELL_STRING s) c
      | CELL_QUOTE v \<Rightarrow> emitConst E v c
      | CELL_SYMBOL s \<Rightarrow> Compiled (emitSymbol s c)
      | CELL_EXPRESSION es \<Rightarrow>
          (case es of
             [] \<Rightarrow> Compiled (emitOp OP_NIL c)
           | h # args \<Rightarrow>
               let f = (case h of CELL_SYMBOL s \<Rightarrow> form_of E (self_symbol c) s | _ \<Rightarrow> F_call)
               in if f = F_call
                  then then_c (compileExpr E c h False) (\<lambda>c1.
                       then_c (compile_args E c1 args) (\<lambda>c2.
                       Compiled (emitByte (int (length args)) (emitOp (if is_tail then OP_TAIL_CALL else OP_CALL) c2))))
                  else compile_form E c f args is_tail)
      | _ \<Rightarrow> failed c)"
| "compile_form E c f args is_tail =
     (case f of
        F_if \<Rightarrow>
          (case args of
             test # yes # rest \<Rightarrow>
               then_c (compileExpr E c test False) (\<lambda>c1.
               then_c (compileExpr E (emitJump OP_JUMP_IF_NIL c1) yes is_tail) (\<lambda>c2.
               let c3 = patchJump (jump_pos c1) (emitJump OP_JUMP c2)
               in then_c (case rest of [] \<Rightarrow> Compiled (emitOp OP_NIL c3) | no # _ \<Rightarrow> compileExpr E c3 no is_tail) (\<lambda>c4.
                  Compiled (patchJump (jump_pos c2) c4))))
           | _ \<Rightarrow> failed c)
      | F_when \<Rightarrow>
          (case args of
             [] \<Rightarrow> failed c
           | test # body \<Rightarrow>
               if body = [] then compileExpr E c test is_tail
               else then_c (compileExpr E c test False) (\<lambda>c1.
                    then_c (compile_body E (emitJump OP_JUMP_IF_NIL c1) body is_tail) (\<lambda>c2.
                    Compiled (patchJump (jump_pos c2) (emitOp OP_NIL (patchJump (jump_pos c1) (emitJump OP_JUMP c2)))))))
      | F_cond \<Rightarrow> if args = [] then Compiled (emitOp OP_NIL c) else compile_clauses E (emitOp OP_NIL c) [] args is_tail
      | F_and \<Rightarrow> if args = [] then Compiled (emitOp OP_TRUE c) else compile_and E c [] args is_tail
      | F_or \<Rightarrow> if args = [] then Compiled (emitOp OP_NIL c) else compile_or E c [] args is_tail
      | F_begin \<Rightarrow> if args = [] then Compiled (emitOp OP_NIL c) else compile_body E c args is_tail
      | F_while \<Rightarrow>
          (case args of
             [] \<Rightarrow> failed c
           | test # body \<Rightarrow>
               patch_guard
                 (then_c (compileExpr E c test False) (\<lambda>c1.
                  then_c (compile_discard E (emitJump OP_JUMP_IF_NIL c1) body) (\<lambda>c2.
                  Compiled (emitOp OP_NIL
                    (patchJump (jump_pos c1) (patchBack (length (code c)) (jump_pos c2) (emitJump OP_JUMP c2))))))))
      | F_let \<Rightarrow>
          (case args of
             CELL_EXPRESSION bs # body \<Rightarrow>
               then_c (compile_lets E c bs) (\<lambda>c1.
               then_c (if body = [] then Compiled (emitOp OP_NIL c1) else compile_body E c1 body is_tail) (\<lambda>c2.
               Compiled (c2\<lparr>locals := take (length (locals c)) (locals c2)\<rparr>)))
           | _ \<Rightarrow> failed c)
      | F_local \<Rightarrow>
          (case args of
             CELL_EXPRESSION vs # body \<Rightarrow>
               then_c (compile_locals vs c) (\<lambda>c1.
               then_c (if body = [] then Compiled (emitOp OP_NIL c1) else compile_body E c1 body is_tail) (\<lambda>c2.
               Compiled (c2\<lparr>locals := take (length (locals c)) (locals c2)\<rparr>)))
           | _ \<Rightarrow> failed c)
      | F_dotimes \<Rightarrow>
          (case args of
             CELL_EXPRESSION (CELL_SYMBOL v # count # _) # body \<Rightarrow>
               patch_guard (
               then_c (addLocal None c) (\<lambda>c0.
               then_c (compileExpr E c0 count False) (\<lambda>c1.
               then_c (addLocal (Some v) (emitStore (length (locals c)) c1)) (\<lambda>c2.
               let count_slot = length (locals c); var_slot = length (locals c1);
                   c3 = emitStore var_slot (emitOp OP_CONST_0 c2);
                   c4 = emitOp OP_LT (emitLoad count_slot (emitLoad var_slot c3));
                   c5 = emitJump OP_JUMP_IF_NIL c4
               in then_c (if body = [] then Compiled (emitOp OP_POP (emitOp OP_NIL c5)) else compile_discard E c5 body) (\<lambda>c6.
                  let c7 = emitStore var_slot (emitOp OP_ADD_1 (emitLoad var_slot c6));
                      c8 = emitOp OP_NIL
                             (patchJump (jump_pos c4) (patchBack (length (code c3)) (jump_pos c7) (emitJump OP_JUMP c7)))
                  in Compiled (c8\<lparr>locals := take (length (locals c)) (locals c8)\<rparr>))))))
           | _ \<Rightarrow> failed c)
      | F_assign setq \<Rightarrow> compile_assigns E c setq args
      | F_step up \<Rightarrow>
          (case args of
             [] \<Rightarrow> failed c
           | v # deltas \<Rightarrow>
               (case (case plain_symbol v of Some s \<Rightarrow> Some s | None \<Rightarrow> quoted_symbol v) of
                  None \<Rightarrow> failed c
                | Some s \<Rightarrow>
                    let slot = findLocal s c;
                        c1 = (case slot of
                                Some k \<Rightarrow> emitLoad k c
                              | None \<Rightarrow> emitGlobal OP_LOAD_GLOBAL s c)
                    in then_c (case deltas of
                                 [] \<Rightarrow> Compiled (emitOp (if up then OP_ADD_1 else OP_SUB_1) c1)
                               | delta # _ \<Rightarrow>
                                   then_c (compileExpr E c1 delta False) (\<lambda>c2.
                                   Compiled (emitOp (if up then vm_opcode.OP_ADD else OP_SUB) c2)))
                         (\<lambda>c3. Compiled (emitAssign slot s (emitOp OP_DUP c3)))))
      | F_compare op \<Rightarrow>
          (case args of
             [a, b] \<Rightarrow> then_c (compileExpr E c a False) (\<lambda>c1. then_c (compileExpr E c1 b False) (\<lambda>c2. Compiled (emitOp op c2)))
           | _ \<Rightarrow> failed c)
      | F_plus \<Rightarrow>
          (case args of
             [] \<Rightarrow> Compiled (emitOp OP_CONST_0 c)
           | a # bs \<Rightarrow>
               if length bs = 1 \<and> is_long 1 (hd bs) then then_c (compileExpr E c a False) (\<lambda>c1. Compiled (emitOp OP_ADD_1 c1))
               else if length bs = 1 \<and> is_long 1 a then compile_ops E c OP_ADD_1 bs
               else then_c (compileExpr E c a False) (\<lambda>c1. compile_ops E c1 vm_opcode.OP_ADD bs))
      | F_minus \<Rightarrow>
          (case args of
             [] \<Rightarrow> failed c
           | a # bs \<Rightarrow>
               then_c (compileExpr E c a False) (\<lambda>c1.
               if length bs = 1 \<and> is_long 1 (hd bs) then Compiled (emitOp OP_SUB_1 c1)
               else if length bs = 1 \<and> is_long 2 (hd bs) then Compiled (emitOp OP_SUB_2 c1)
               else if bs = [] then Compiled (emitOp OP_NEG c1)
               else compile_ops E c1 OP_SUB bs))
      | F_times \<Rightarrow>
          (case args of
             [] \<Rightarrow> Compiled (emitOp OP_CONST_1 c)
           | a # bs \<Rightarrow> then_c (compileExpr E c a False) (\<lambda>c1. compile_ops E c1 OP_MUL bs))
      | F_divide \<Rightarrow>
          (case args of
             a # b # bs \<Rightarrow> then_c (compileExpr E c a False) (\<lambda>c1. compile_ops E c1 OP_DIV (b # bs))
           | _ \<Rightarrow> failed c)
      | F_self \<Rightarrow>
          then_c (compile_args E c args) (\<lambda>c1.
          Compiled (emitByte (int (length args)) (emitOp (if is_tail then OP_TAIL_CALL_SELF else OP_CALL_SELF) c1)))
      | _ \<Rightarrow> failed c)"
| "compile_body E c es is_tail =
     (case es of
        [] \<Rightarrow> Compiled c
      | e # rest \<Rightarrow>
          if rest = [] then compileExpr E c e is_tail
          else then_c (compileExpr E c e False) (\<lambda>c1. compile_body E (emitOp OP_POP c1) rest is_tail))"
| "compile_discard E c es =
     (case es of
        [] \<Rightarrow> Compiled c
      | e # rest \<Rightarrow> then_c (compileExpr E c e False) (\<lambda>c1. compile_discard E (emitOp OP_POP c1) rest))"
| "compile_clauses E c ends cs is_tail =
     (case cs of
        [] \<Rightarrow> Compiled (fold patchJump (rev ends) c)
      | CELL_EXPRESSION es # rest \<Rightarrow>
          (case es of
             [] \<Rightarrow> compile_clauses E c ends rest is_tail
           | test # body \<Rightarrow>
               then_c (compileExpr E (emitOp OP_POP c) test False) (\<lambda>c1.
               let c2 = emitOp OP_DUP c1; c3 = emitJump OP_JUMP_IF_NIL c2
               in then_c (if body = [] then Compiled c3 else compile_body E (emitOp OP_POP c3) body is_tail) (\<lambda>c4.
                  if length ends < 64
                  then compile_clauses E (patchJump (jump_pos c2) (emitJump OP_JUMP c4)) (jump_pos c4 # ends) rest is_tail
                  else failed c4)))
      | _ \<Rightarrow> failed c)"
| "compile_and E c exits args is_tail =
     (case args of
        [] \<Rightarrow> Compiled c
      | a # rest \<Rightarrow>
          if rest = []
          then then_c (compileExpr E c a is_tail) (\<lambda>c1.
               Compiled (if exits = [] then c1
                         else patchJump (jump_pos c1) (emitOp OP_NIL (fold patchJump (rev exits) (emitJump OP_JUMP c1)))))
          else then_c (compileExpr E c a False) (\<lambda>c1.
               if length exits < 64 then compile_and E (emitJump OP_JUMP_IF_NIL c1) (jump_pos c1 # exits) rest is_tail
               else failed c1))"
| "compile_or E c exits args is_tail =
     (case args of
        [] \<Rightarrow> Compiled c
      | a # rest \<Rightarrow>
          if rest = []
          then then_c (compileExpr E c a is_tail) (\<lambda>c1. Compiled (fold patchJump (rev exits) c1))
          else then_c (compileExpr E c a False) (\<lambda>c1.
               let c2 = emitOp OP_DUP c1
               in if length exits < 64
                  then compile_or E (emitOp OP_POP (emitJump OP_JUMP_IF_NOT_NIL c2)) (jump_pos c2 # exits) rest is_tail
                  else failed c2))"
| "compile_lets E c bs =
     (case bs of
        [] \<Rightarrow> Compiled c
      | CELL_EXPRESSION ps # rest \<Rightarrow>
          (case pair_binding ps of
             None \<Rightarrow> failed c
           | Some (s, v) \<Rightarrow>
               then_c (addLocal (Some s) c) (\<lambda>c0.
               then_c (compileExpr E c0 v False) (\<lambda>c1. compile_lets E (emitStore (length (locals c)) c1) rest)))
      | CELL_SYMBOL s # vs \<Rightarrow>
          then_c (addLocal (Some s) c) (\<lambda>c0.
          (case vs of
             [] \<Rightarrow> Compiled (emitStore (length (locals c)) (emitOp OP_NIL c0))
           | v # rest \<Rightarrow>
               then_c (compileExpr E c0 v False) (\<lambda>c1. compile_lets E (emitStore (length (locals c)) c1) rest)))
      | _ \<Rightarrow> failed c)"
| "compile_assigns E c setq args =
     (case args of
        v # e # rest \<Rightarrow>
          (case (if setq then plain_symbol v else quoted_symbol v) of
             None \<Rightarrow> failed c
           | Some s \<Rightarrow>
               then_c (compileExpr E c e False) (\<lambda>c1.
               let c2 = emitAssign (findLocal s c) s (emitOp OP_DUP c1)
               in if rest = [] then Compiled c2 else compile_assigns E (emitOp OP_POP c2) setq rest))
      | _ \<Rightarrow> failed c)"
| "compile_ops E c op args =
     (case args of
        [] \<Rightarrow> Compiled c
      | a # rest \<Rightarrow> then_c (compileExpr E c a False) (\<lambda>c1. compile_ops E (emitOp op c1) op rest))"
| "compile_args E c args =
     (case args of
        [] \<Rightarrow> Compiled c
      | a # rest \<Rightarrow> then_c (compileExpr E c a False) (\<lambda>c1. compile_args E c1 rest))"
  by pat_completeness auto

termination
  by (relation "measure (\<lambda>x. case x of
         Inl (Inl (Inl (E, c, e, t))) \<Rightarrow> size e
       | Inl (Inl (Inr (E, c, f, es, t))) \<Rightarrow> Suc (cells_size es)
       | Inl (Inr (Inl (E, c, es, t))) \<Rightarrow> cells_size es
       | Inl (Inr (Inr (Inl (E, c, es)))) \<Rightarrow> cells_size es
       | Inl (Inr (Inr (Inr (E, c, ends, es, t)))) \<Rightarrow> cells_size es
       | Inr (Inl (Inl (E, c, ends, es, t))) \<Rightarrow> cells_size es
       | Inr (Inl (Inr (Inl (E, c, ends, es, t)))) \<Rightarrow> cells_size es
       | Inr (Inl (Inr (Inr (E, c, es)))) \<Rightarrow> cells_size es
       | Inr (Inr (Inl (E, c, q, es))) \<Rightarrow> cells_size es
       | Inr (Inr (Inr (Inl (E, c, op, es)))) \<Rightarrow> cells_size es
       | Inr (Inr (Inr (Inr (E, c, es)))) \<Rightarrow> cells_size es)")
     (auto dest!: binding_smaller simp: Let_def)

declare compileExpr.simps [simp del] compile_form.simps [simp del] compile_body.simps [simp del]
  compile_discard.simps [simp del] compile_clauses.simps [simp del] compile_and.simps [simp del]
  compile_or.simps [simp del] compile_lets.simps [simp del] compile_assigns.simps [simp del]
  compile_ops.simps [simp del] compile_args.simps [simp del]

text \<open>Parameters before a comma are filled by arguments, names behind it are further locals.\<close>

fun parse_params :: "cell list \<Rightarrow> bool \<Rightarrow> symbol option list \<Rightarrow> nat \<Rightarrow> (symbol option list \<times> nat) cresult" where
  "parse_params [] in_locals ls n = Compiled (ls, n)"
| "parse_params (CELL_SYMBOL s # ps) in_locals ls n =
     (if sname s = '','' then parse_params ps True ls n
      else if length ls \<ge> MAX_LOCALS then Failed 0
      else parse_params ps in_locals (ls @ [Some s]) (if in_locals then n else Suc n))"
| "parse_params (_ # ps) in_locals ls n = Failed 0"

fun compileLambda :: "compile_env \<Rightarrow> cell \<Rightarrow> symbol option \<Rightarrow> bytecode cresult" where
  "compileLambda E (CELL_LAMBDA (CELL_EXPRESSION params # body)) self =
     then_c (parse_params params False [] 0) (\<lambda>(ls, n).
     let c = \<lparr>locals = ls, max_locals = length ls, self_symbol = self, code = [], constants = [], symbols = []\<rparr>
     in then_c (if body = [] then Compiled (emitOp OP_NIL c) else compile_body E c body True) (\<lambda>c1.
        Compiled \<lparr>bcode = code (emitOp OP_RET c1), bconstants = constants c1, bsymbols = symbols c1,
                  num_params = n, num_locals = max_locals c1\<rparr>))"
| "compileLambda E _ self = Failed 0"

declare compileLambda.simps [simp del]

section \<open>The machine\<close>

type_synonym globals = "symbol \<Rightarrow> cell"

text \<open>The stack holds pointers. \<^verbatim>\<open>OP_LOAD_GLOBAL\<close> pushes the address of the contents of a symbol,
  without a copy, and \<^verbatim>\<open>OP_STORE_GLOBAL\<close> frees the contents it replaces, so a stack entry is a
  cell of its own (a constant, or a cell the collector keeps alive while it is on the stack), a cell
  that belongs to a symbol, or a cell that has been freed.\<close>

datatype item = Own cell | Borrowed symbol cell | Dangling

fun val :: "item \<Rightarrow> cell option" where
  "val (Own v) = Some v"
| "val (Borrowed s v) = Some v"
| "val Dangling = None"

text \<open>Replacing the contents of the symbols \<open>ss\<close> frees what was borrowed from them.\<close>

fun kill :: "symbol list \<Rightarrow> item \<Rightarrow> item" where
  "kill ss (Borrowed s v) = (if s \<in> set ss then Dangling else Borrowed s v)"
| "kill ss it = it"

text \<open>A frame names the function it runs; the byte code belongs to that cell. The number of arguments
  the code also notes in the frame is never read.\<close>

record vm_frame =
  fbytecode :: bytecode
  fip :: nat
  ffp :: nat
  fself :: item

text \<open>The frames of one call of \<^verbatim>\<open>executeBytecode\<close>, the current one first; the part of the stack
  this call uses, from the bottom, so that \<^verbatim>\<open>vm_sp\<close> is its length; the contents of the symbols,
  and the byte code attached to functions (the field \<^verbatim>\<open>aux\<close> of a lambda cell).\<close>

record vm =
  vm_stack :: "item list"
  vm_frames :: "vm_frame list"
  vm_ip :: nat
  vm_globals :: globals
  vm_aux :: "cell \<Rightarrow> bytecode option"

text \<open>\<open>Stuck\<close> stands for what C leaves undefined: a freed cell is used, a byte that is no operation or
  lies behind the code is executed.\<close>

datatype vm_outcome = Running vm | Returned cell globals | Error nl_error | Stuck

text \<open>What the machine needs of the rest of the interpreter: the arithmetic of cells, the flags of
  symbols, the evaluation of an expression, and the call of whatever has no byte code. The last two
  also return the assignments to symbols they made.\<close>

type_synonym assignments = "(symbol \<times> cell) list"

record host =
  hmachine :: machine
  hflags :: "symbol \<Rightarrow> int"
  heval :: "cell \<Rightarrow> globals \<Rightarrow> (cell \<times> assignments) result"
  hcall :: "cell \<Rightarrow> cell list \<Rightarrow> globals \<Rightarrow> (item \<times> assignments) result"

definition host_env :: "host \<Rightarrow> globals \<Rightarrow> compile_env" where
  "host_env H G = \<lparr>cmachine = hmachine H, cflags = hflags H, ccontents = G\<rparr>"

definition assign :: "assignments \<Rightarrow> globals \<Rightarrow> globals" where
  "assign as G = fold (\<lambda>(s, v) G. G(s := v)) as G"

definition vm_assign :: "assignments \<Rightarrow> vm \<Rightarrow> vm" where
  "vm_assign as m =
     m\<lparr>vm_stack := map (kill (map fst as)) (vm_stack m),
       vm_frames := map (\<lambda>f. f\<lparr>fself := kill (map fst as) (fself f)\<rparr>) (vm_frames m),
       vm_globals := assign as (vm_globals m)\<rparr>"

subsection \<open>Operators\<close>

definition cond_nil :: "cell \<Rightarrow> bool" where
  "cond_nil v \<longleftrightarrow> isNil v \<or> v = CELL_EXPRESSION []"

text \<open>When the operands are not all integers the primitive is called, which evaluates its arguments.\<close>

fun eval_operands :: "host \<Rightarrow> cell list \<Rightarrow> globals \<Rightarrow> (cell list \<times> assignments) result" where
  "eval_operands H [] G = Inr ([], [])"
| "eval_operands H (a # rest) G =
     (case heval H a G of
        Inl e \<Rightarrow> Inl e
      | Inr (v, as) \<Rightarrow>
          (case eval_operands H rest (assign as G) of
             Inl e \<Rightarrow> Inl e
           | Inr (vs, bs) \<Rightarrow> Inr (v # vs, as @ bs)))"

definition vm_primitive :: "host \<Rightarrow> operator \<Rightarrow> cell list \<Rightarrow> globals \<Rightarrow> ((cell \<times> assignments) result) option" where
  "vm_primitive H op args G =
     (case eval_operands H args G of
        Inl e \<Rightarrow> Some (Inl e)
      | Inr (vs, as) \<Rightarrow> map_option (map_sum id (\<lambda>v. (v, as))) (arithmetikOp (hmachine H) vs op))"

definition vm_operator :: "vm_opcode \<Rightarrow> operator" where
  "vm_operator op =
     (case op of vm_opcode.OP_ADD \<Rightarrow> operator.OP_ADD | OP_SUB \<Rightarrow> OP_SUBTRACT | OP_MUL \<Rightarrow> OP_MULTIPLY
      | OP_DIV \<Rightarrow> OP_DIVIDE | _ \<Rightarrow> OP_MODULO)"

definition vm_binary :: "host \<Rightarrow> vm_opcode \<Rightarrow> cell \<Rightarrow> cell \<Rightarrow> globals \<Rightarrow> ((cell \<times> assignments) result) option" where
  "vm_binary H op a b G =
     (case (a, b) of
        (CELL_LONG x, CELL_LONG y) \<Rightarrow>
          Some (case op of
                  vm_opcode.OP_ADD \<Rightarrow> Inr (CELL_LONG (wrap64 (x + y)), [])
                | OP_SUB \<Rightarrow> Inr (CELL_LONG (wrap64 (x - y)), [])
                | OP_MUL \<Rightarrow> Inr (CELL_LONG (wrap64 (x * y)), [])
                | _ \<Rightarrow>
                    if y = 0 then Inl ERR_MATH
                    else if x = - (2 ^ 63) \<and> y = -1 then Inl C_UNDEFINED
                    else Inr (CELL_LONG (if op = OP_DIV then x sdiv y else x smod y), []))
      | _ \<Rightarrow> vm_primitive H (vm_operator op) [a, b] G)"

definition vm_negate :: "host \<Rightarrow> cell \<Rightarrow> globals \<Rightarrow> ((cell \<times> assignments) result) option" where
  "vm_negate H a G =
     (case a of
        CELL_LONG x \<Rightarrow> Some (Inr (CELL_LONG (wrap64 (- x)), []))
      | _ \<Rightarrow> vm_primitive H OP_SUBTRACT [a] G)"

definition vm_test :: "vm_opcode \<Rightarrow> int \<Rightarrow> bool" where
  "vm_test op d =
     (case op of OP_LT \<Rightarrow> d < 0 | OP_GT \<Rightarrow> d > 0 | OP_LE \<Rightarrow> d \<le> 0 | OP_GE \<Rightarrow> d \<ge> 0 | OP_EQ \<Rightarrow> d = 0 | _ \<Rightarrow> d \<noteq> 0)"

definition bool_cell :: "bool \<Rightarrow> cell" where
  "bool_cell b = (if b then CELL_TRUE else CELL_NIL)"

definition vm_compare :: "host \<Rightarrow> vm_opcode \<Rightarrow> cell \<Rightarrow> cell \<Rightarrow> cell result" where
  "vm_compare H op a b =
     (case (a, b) of
        (CELL_LONG x, CELL_LONG y) \<Rightarrow> Inr (bool_cell (vm_test op (x - y)))
      | _ \<Rightarrow> map_sum id (\<lambda>d. bool_cell (vm_test op d)) (compareCells (hmachine H) a b))"

subsection \<open>Stack and code\<close>

definition vm_fetch :: "vm \<Rightarrow> nat \<Rightarrow> int option" where
  "vm_fetch m i =
     (case vm_frames m of
        [] \<Rightarrow> None
      | f # _ \<Rightarrow>
          if fself f \<noteq> Dangling \<and> i < length (bcode (fbytecode f)) then Some (bcode (fbytecode f) ! i) else None)"

text \<open>A 16-bit operand in little-endian order, and the execution of the instruction behind it.\<close>

definition vm_operand :: "vm \<Rightarrow> (int \<Rightarrow> vm \<Rightarrow> vm_outcome) \<Rightarrow> vm_outcome" where
  "vm_operand m f =
     (case (vm_fetch m (vm_ip m), vm_fetch m (vm_ip m + 1)) of
        (Some lo, Some hi) \<Rightarrow> f (lo + 256 * hi) (m\<lparr>vm_ip := vm_ip m + 2\<rparr>)
      | _ \<Rightarrow> Stuck)"

definition vm_push :: "item \<Rightarrow> vm \<Rightarrow> vm" where
  "vm_push it m = m\<lparr>vm_stack := vm_stack m @ [it]\<rparr>"

definition vm_pop :: "vm \<Rightarrow> (item \<Rightarrow> vm \<Rightarrow> vm_outcome) \<Rightarrow> vm_outcome" where
  "vm_pop m f = (if vm_stack m = [] then Stuck else f (last (vm_stack m)) (m\<lparr>vm_stack := butlast (vm_stack m)\<rparr>))"

text \<open>Popping a cell that is read.\<close>

definition vm_pop_cell :: "vm \<Rightarrow> (cell \<Rightarrow> vm \<Rightarrow> vm_outcome) \<Rightarrow> vm_outcome" where
  "vm_pop_cell m f = vm_pop m (\<lambda>it m. case val it of None \<Rightarrow> Stuck | Some v \<Rightarrow> f v m)"

definition current_frame :: "vm \<Rightarrow> vm_frame" where
  "current_frame m = hd (vm_frames m)"

definition vm_const :: "nat \<Rightarrow> vm \<Rightarrow> vm_outcome" where
  "vm_const i m =
     (let ks = bconstants (fbytecode (current_frame m))
      in if i < length ks then Running (vm_push (Own (ks ! i)) m) else Stuck)"

definition vm_load :: "nat \<Rightarrow> vm \<Rightarrow> vm_outcome" where
  "vm_load slot m =
     (let i = ffp (current_frame m) + slot
      in if i < length (vm_stack m) then Running (vm_push (vm_stack m ! i) m) else Stuck)"

definition vm_store :: "nat \<Rightarrow> vm \<Rightarrow> vm_outcome" where
  "vm_store slot m =
     vm_pop m (\<lambda>it m.
       let i = ffp (current_frame m) + slot
       in if i < length (vm_stack m) then Running (m\<lparr>vm_stack := (vm_stack m)[i := it]\<rparr>) else Stuck)"

definition vm_symbol :: "nat \<Rightarrow> vm \<Rightarrow> (symbol \<Rightarrow> vm_outcome) \<Rightarrow> vm_outcome" where
  "vm_symbol i m f =
     (let ss = bsymbols (fbytecode (current_frame m)) in if i < length ss then f (ss ! i) else Stuck)"

text \<open>The offset counts from the instruction behind the operand.\<close>

definition vm_jump :: "int \<Rightarrow> vm \<Rightarrow> vm_outcome" where
  "vm_jump offset m =
     (let t = int (vm_ip m) + int16 offset in if t < 0 then Stuck else Running (m\<lparr>vm_ip := nat t\<rparr>))"

definition vm_result :: "((cell \<times> assignments) result) option \<Rightarrow> vm \<Rightarrow> vm_outcome" where
  "vm_result r m =
     (case r of
        None \<Rightarrow> Stuck
      | Some (Inl e) \<Rightarrow> Error e
      | Some (Inr (v, as)) \<Rightarrow> Running (vm_push (Own v) (vm_assign as m)))"

definition vm_arith :: "host \<Rightarrow> vm_opcode \<Rightarrow> vm \<Rightarrow> vm_outcome" where
  "vm_arith H op m =
     vm_pop_cell m (\<lambda>b m. vm_pop_cell m (\<lambda>a m. vm_result (vm_binary H op a b (vm_globals m)) m))"

text \<open>\<^verbatim>\<open>OP_ADD_1\<close>, \<^verbatim>\<open>OP_SUB_1\<close>, \<^verbatim>\<open>OP_SUB_2\<close>: the second operand is in the instruction.\<close>

definition vm_arith_const :: "host \<Rightarrow> vm_opcode \<Rightarrow> int \<Rightarrow> vm \<Rightarrow> vm_outcome" where
  "vm_arith_const H op n m = vm_pop_cell m (\<lambda>a m. vm_result (vm_binary H op a (CELL_LONG n) (vm_globals m)) m)"

definition vm_relation :: "host \<Rightarrow> vm_opcode \<Rightarrow> vm \<Rightarrow> vm_outcome" where
  "vm_relation H op m =
     vm_pop_cell m (\<lambda>b m. vm_pop_cell m (\<lambda>a m.
       (case vm_compare H op a b of Inl e \<Rightarrow> Error e | Inr v \<Rightarrow> Running (vm_push (Own v) m))))"

subsection \<open>Calls\<close>

text \<open>Returning to the caller, or out of the machine with a copy.\<close>

definition vm_return :: "item \<Rightarrow> vm \<Rightarrow> vm_outcome" where
  "vm_return it m =
     (case vm_frames m of
        [] \<Rightarrow> Stuck
      | [f] \<Rightarrow> (case val it of None \<Rightarrow> Stuck | Some v \<Rightarrow> Returned v (vm_globals m))
      | f # caller # fs \<Rightarrow>
          Running (m\<lparr>vm_stack := take (ffp f) (vm_stack m) @ [it], vm_frames := caller # fs, vm_ip := fip caller\<rparr>))"

text \<open>The slots of a frame: the arguments, nil for missing parameters, nil for further locals.\<close>

definition frame_slots :: "bytecode \<Rightarrow> item list \<Rightarrow> item list" where
  "frame_slots bc args =
     args @ replicate (max (num_params bc) (num_locals bc) - length args) (Own CELL_NIL)"

definition vm_enter :: "bytecode \<Rightarrow> item \<Rightarrow> item list \<Rightarrow> item list \<Rightarrow> vm_frame list \<Rightarrow> vm \<Rightarrow> vm" where
  "vm_enter bc self base args callers m =
     m\<lparr>vm_stack := base @ frame_slots bc args,
       vm_frames := \<lparr>fbytecode = bc, fip = 0, ffp = length base, fself = self\<rparr> # callers, vm_ip := 0\<rparr>"

text \<open>The callers of a new frame: the current one, with the place to continue at.\<close>

definition save_ip :: "vm \<Rightarrow> vm_frame list" where
  "save_ip m = (case vm_frames m of [] \<Rightarrow> [] | f # fs \<Rightarrow> f\<lparr>fip := vm_ip m\<rparr> # fs)"

text \<open>Entering a function that has byte code. \<^verbatim>\<open>OP_CALL\<close> and \<^verbatim>\<open>OP_CALL_SELF\<close> count the
  arguments up to the parameters in 8 bits, so that with 256 parameters the loop does not end.\<close>

definition call_code :: "bytecode \<Rightarrow> item \<Rightarrow> item list \<Rightarrow> item list \<Rightarrow> vm \<Rightarrow> vm_outcome" where
  "call_code bc self base args m =
     (if num_params bc \<ge> 256 then Stuck else Running (vm_enter bc self base args (save_ip m) m))"

definition tail_call_code :: "bytecode \<Rightarrow> item \<Rightarrow> item list \<Rightarrow> vm \<Rightarrow> vm_outcome" where
  "tail_call_code bc self args m =
     Running (vm_enter bc self (take (ffp (current_frame m)) (vm_stack m)) args (tl (vm_frames m)) m)"

text \<open>The arguments a call finds on the stack, and what lies below them.\<close>

definition vm_args :: "nat \<Rightarrow> vm \<Rightarrow> (item list \<Rightarrow> item list \<Rightarrow> vm_outcome) \<Rightarrow> vm_outcome" where
  "vm_args argc m f =
     (if length (vm_stack m) < argc then Stuck
      else let n = length (vm_stack m) - argc in f (take n (vm_stack m)) (drop n (vm_stack m)))"

text \<open>The byte code of a function, compiled when it has none, and attached then.\<close>

definition code_for :: "host \<Rightarrow> cell \<Rightarrow> vm \<Rightarrow> (bytecode option \<times> vm) result" where
  "code_for H fn m =
     (case fn of
        CELL_LAMBDA _ \<Rightarrow>
          (case vm_aux m fn of
             Some bc \<Rightarrow> Inr (Some bc, m)
           | None \<Rightarrow>
               (case compileLambda (host_env H (vm_globals m)) fn None of
                  Compiled bc \<Rightarrow> Inr (Some bc, m\<lparr>vm_aux := (vm_aux m)(fn := Some bc)\<rparr>)
                | Failed _ \<Rightarrow> Inr (None, m)
                | Raised e \<Rightarrow> Inl e))
      | _ \<Rightarrow> Inr (None, m))"

text \<open>Anything else that can be applied is left to the interpreter; the rest gives nil.\<close>

definition vm_fallback :: "host \<Rightarrow> cell \<Rightarrow> cell list \<Rightarrow> globals \<Rightarrow> (item \<times> assignments) result" where
  "vm_fallback H fn args G =
     (case fn of
        CELL_NIL \<Rightarrow> Inr (Own CELL_NIL, [])
      | CELL_TRUE \<Rightarrow> Inr (Own CELL_NIL, [])
      | CELL_SYMBOL _ \<Rightarrow> Inr (Own CELL_NIL, [])
      | CELL_QUOTE _ \<Rightarrow> Inr (Own CELL_NIL, [])
      | CELL_FEXPR _ \<Rightarrow> Inr (Own CELL_NIL, [])
      | CELL_DYN_SYMBOL _ _ \<Rightarrow> Inr (Own CELL_NIL, [])
      | _ \<Rightarrow> hcall H fn args G)"

definition item_values :: "item list \<Rightarrow> cell list option" where
  "item_values its = those (map val its)"

definition call_outside :: "host \<Rightarrow> bool \<Rightarrow> cell \<Rightarrow> item list \<Rightarrow> item list \<Rightarrow> vm \<Rightarrow> vm_outcome" where
  "call_outside H is_tail fn items base m =
     (case item_values items of
        None \<Rightarrow> Stuck
      | Some args \<Rightarrow>
          (case vm_fallback H fn args (vm_globals m) of
             Inl e \<Rightarrow> Error e
           | Inr (res, as) \<Rightarrow>
               let m = vm_assign as (m\<lparr>vm_stack := base\<rparr>)
               in if is_tail then vm_return res m else Running (vm_push res m)))"

definition vm_apply :: "host \<Rightarrow> bool \<Rightarrow> cell \<Rightarrow> item \<Rightarrow> item list \<Rightarrow> item list \<Rightarrow> vm \<Rightarrow> vm_outcome" where
  "vm_apply H is_tail fn it items base m =
     (case code_for H fn m of
        Inl e \<Rightarrow> Error e
      | Inr (Some bc, m) \<Rightarrow> if is_tail then tail_call_code bc it items m else call_code bc it base items m
      | Inr (None, m) \<Rightarrow> call_outside H is_tail fn items base m)"

definition vm_call :: "host \<Rightarrow> nat \<Rightarrow> bool \<Rightarrow> vm \<Rightarrow> vm_outcome" where
  "vm_call H argc is_tail m =
     vm_args (Suc argc) m (\<lambda>base top.
       case val (hd top) of None \<Rightarrow> Stuck | Some fn \<Rightarrow> vm_apply H is_tail fn (hd top) (tl top) base m)"

definition vm_call_self :: "nat \<Rightarrow> bool \<Rightarrow> vm \<Rightarrow> vm_outcome" where
  "vm_call_self argc is_tail m =
     (let f = current_frame m
      in vm_args argc m (\<lambda>base args.
           if is_tail then tail_call_code (fbytecode f) (fself f) args m
           else call_code (fbytecode f) (fself f) base args m))"

text \<open>The number of arguments follows the instruction.\<close>

definition vm_argc :: "vm \<Rightarrow> (nat \<Rightarrow> vm \<Rightarrow> vm_outcome) \<Rightarrow> vm_outcome" where
  "vm_argc m f =
     (case vm_fetch m (vm_ip m) of None \<Rightarrow> Stuck | Some n \<Rightarrow> f (nat n) (m\<lparr>vm_ip := vm_ip m + 1\<rparr>))"

subsection \<open>Dispatch\<close>

definition vm_dispatch :: "host \<Rightarrow> vm_opcode \<Rightarrow> vm \<Rightarrow> vm_outcome" where
  "vm_dispatch H op m =
     (case op of
        OP_NOP \<Rightarrow> Running m
      | OP_NIL \<Rightarrow> Running (vm_push (Own CELL_NIL) m)
      | OP_TRUE \<Rightarrow> Running (vm_push (Own CELL_TRUE) m)
      | OP_CONST \<Rightarrow> vm_operand m (\<lambda>i m. vm_const (nat i) m)
      | OP_CONST_0 \<Rightarrow> Running (vm_push (Own (CELL_LONG 0)) m)
      | OP_CONST_1 \<Rightarrow> Running (vm_push (Own (CELL_LONG 1)) m)
      | OP_CONST_2 \<Rightarrow> Running (vm_push (Own (CELL_LONG 2)) m)
      | OP_POP \<Rightarrow> vm_pop m (\<lambda>_ m. Running m)
      | OP_DUP \<Rightarrow> vm_pop m (\<lambda>it m. Running (vm_push it (vm_push it m)))
      | OP_LOAD_LOCAL \<Rightarrow> vm_operand m (\<lambda>i m. vm_load (nat i) m)
      | OP_LOAD_LOCAL_0 \<Rightarrow> vm_load 0 m
      | OP_LOAD_LOCAL_1 \<Rightarrow> vm_load 1 m
      | OP_LOAD_LOCAL_2 \<Rightarrow> vm_load 2 m
      | OP_LOAD_LOCAL_3 \<Rightarrow> vm_load 3 m
      | OP_STORE_LOCAL \<Rightarrow> vm_operand m (\<lambda>i m. vm_store (nat i) m)
      | OP_STORE_LOCAL_0 \<Rightarrow> vm_store 0 m
      | OP_STORE_LOCAL_1 \<Rightarrow> vm_store 1 m
      | OP_STORE_LOCAL_2 \<Rightarrow> vm_store 2 m
      | OP_STORE_LOCAL_3 \<Rightarrow> vm_store 3 m
      | OP_LOAD_GLOBAL \<Rightarrow>
          vm_operand m (\<lambda>i m. vm_symbol (nat i) m (\<lambda>s. Running (vm_push (Borrowed s (vm_globals m s)) m)))
      | OP_STORE_GLOBAL \<Rightarrow>
          vm_operand m (\<lambda>i m. vm_symbol (nat i) m (\<lambda>s. vm_pop_cell m (\<lambda>v m. Running (vm_assign [(s, v)] m))))
      | OP_LOAD_SELF \<Rightarrow> Running (vm_push (fself (current_frame m)) m)
      | OP_JUMP \<Rightarrow> vm_operand m vm_jump
      | OP_JUMP_IF_NIL \<Rightarrow>
          vm_operand m (\<lambda>i m. vm_pop_cell m (\<lambda>v m. if cond_nil v then vm_jump i m else Running m))
      | OP_JUMP_IF_NOT_NIL \<Rightarrow>
          vm_operand m (\<lambda>i m. vm_pop_cell m (\<lambda>v m. if cond_nil v then Running m else vm_jump i m))
      | OP_RET \<Rightarrow> vm_pop m (\<lambda>it m. vm_return it m)
      | OP_LT \<Rightarrow> vm_relation H op m
      | OP_GT \<Rightarrow> vm_relation H op m
      | OP_LE \<Rightarrow> vm_relation H op m
      | OP_GE \<Rightarrow> vm_relation H op m
      | OP_EQ \<Rightarrow> vm_relation H op m
      | OP_NE \<Rightarrow> vm_relation H op m
      | vm_opcode.OP_ADD \<Rightarrow> vm_arith H op m
      | OP_SUB \<Rightarrow> vm_arith H op m
      | OP_MUL \<Rightarrow> vm_arith H op m
      | OP_DIV \<Rightarrow> vm_arith H op m
      | OP_MOD \<Rightarrow> vm_arith H op m
      | OP_ADD_1 \<Rightarrow> vm_arith_const H vm_opcode.OP_ADD 1 m
      | OP_SUB_1 \<Rightarrow> vm_arith_const H OP_SUB 1 m
      | OP_SUB_2 \<Rightarrow> vm_arith_const H OP_SUB 2 m
      | OP_NEG \<Rightarrow> vm_pop_cell m (\<lambda>a m. vm_result (vm_negate H a (vm_globals m)) m)
      | OP_CALL \<Rightarrow> vm_argc m (\<lambda>n. vm_call H n False)
      | OP_TAIL_CALL \<Rightarrow> vm_argc m (\<lambda>n. vm_call H n True)
      | OP_CALL_SELF \<Rightarrow> vm_argc m (\<lambda>n. vm_call_self n False)
      | OP_TAIL_CALL_SELF \<Rightarrow> vm_argc m (\<lambda>n. vm_call_self n True))"

lemma vm_dispatch_simps:
  "vm_dispatch H OP_NOP m = Running m"
  "vm_dispatch H OP_NIL m = Running (vm_push (Own CELL_NIL) m)"
  "vm_dispatch H OP_TRUE m = Running (vm_push (Own CELL_TRUE) m)"
  "vm_dispatch H OP_CONST m = vm_operand m (\<lambda>i m. vm_const (nat i) m)"
  "vm_dispatch H OP_CONST_0 m = Running (vm_push (Own (CELL_LONG 0)) m)"
  "vm_dispatch H OP_CONST_1 m = Running (vm_push (Own (CELL_LONG 1)) m)"
  "vm_dispatch H OP_CONST_2 m = Running (vm_push (Own (CELL_LONG 2)) m)"
  "vm_dispatch H OP_POP m = vm_pop m (\<lambda>_ m. Running m)"
  "vm_dispatch H OP_DUP m = vm_pop m (\<lambda>it m. Running (vm_push it (vm_push it m)))"
  "vm_dispatch H OP_LOAD_LOCAL m = vm_operand m (\<lambda>i m. vm_load (nat i) m)"
  "vm_dispatch H OP_LOAD_LOCAL_0 m = vm_load 0 m"
  "vm_dispatch H OP_LOAD_LOCAL_1 m = vm_load 1 m"
  "vm_dispatch H OP_LOAD_LOCAL_2 m = vm_load 2 m"
  "vm_dispatch H OP_LOAD_LOCAL_3 m = vm_load 3 m"
  "vm_dispatch H OP_STORE_LOCAL m = vm_operand m (\<lambda>i m. vm_store (nat i) m)"
  "vm_dispatch H OP_STORE_LOCAL_0 m = vm_store 0 m"
  "vm_dispatch H OP_STORE_LOCAL_1 m = vm_store 1 m"
  "vm_dispatch H OP_STORE_LOCAL_2 m = vm_store 2 m"
  "vm_dispatch H OP_STORE_LOCAL_3 m = vm_store 3 m"
  "vm_dispatch H OP_LOAD_GLOBAL m =
     vm_operand m (\<lambda>i m. vm_symbol (nat i) m (\<lambda>s. Running (vm_push (Borrowed s (vm_globals m s)) m)))"
  "vm_dispatch H OP_LOAD_SELF m = Running (vm_push (fself (current_frame m)) m)"
  "vm_dispatch H OP_JUMP m = vm_operand m vm_jump"
  "vm_dispatch H OP_JUMP_IF_NIL m =
     vm_operand m (\<lambda>i m. vm_pop_cell m (\<lambda>v m. if cond_nil v then vm_jump i m else Running m))"
  "vm_dispatch H OP_JUMP_IF_NOT_NIL m =
     vm_operand m (\<lambda>i m. vm_pop_cell m (\<lambda>v m. if cond_nil v then Running m else vm_jump i m))"
  "vm_dispatch H OP_RET m = vm_pop m (\<lambda>it m. vm_return it m)"
  "vm_dispatch H OP_ADD_1 m = vm_arith_const H vm_opcode.OP_ADD 1 m"
  "vm_dispatch H OP_SUB_1 m = vm_arith_const H OP_SUB 1 m"
  "vm_dispatch H OP_SUB_2 m = vm_arith_const H OP_SUB 2 m"
  "vm_dispatch H OP_NEG m = vm_pop_cell m (\<lambda>a m. vm_result (vm_negate H a (vm_globals m)) m)"
  "vm_dispatch H OP_CALL m = vm_argc m (\<lambda>n. vm_call H n False)"
  "vm_dispatch H OP_TAIL_CALL m = vm_argc m (\<lambda>n. vm_call H n True)"
  "vm_dispatch H OP_CALL_SELF m = vm_argc m (\<lambda>n. vm_call_self n False)"
  "vm_dispatch H OP_TAIL_CALL_SELF m = vm_argc m (\<lambda>n. vm_call_self n True)"
  by (simp_all add: vm_dispatch_def)

definition vm_step :: "host \<Rightarrow> vm \<Rightarrow> vm_outcome" where
  "vm_step H m =
     (case vm_fetch m (vm_ip m) of
        None \<Rightarrow> Stuck
      | Some b \<Rightarrow>
          (case op_decode b of
             None \<Rightarrow> Stuck
           | Some op \<Rightarrow> vm_dispatch H op (m\<lparr>vm_ip := vm_ip m + 1\<rparr>)))"

text \<open>The loop, with a bound on the number of instructions.\<close>

fun vm_steps :: "host \<Rightarrow> nat \<Rightarrow> vm_outcome \<Rightarrow> vm_outcome" where
  "vm_steps H 0 r = r"
| "vm_steps H (Suc k) r = vm_steps H k (case r of Running m \<Rightarrow> vm_step H m | _ \<Rightarrow> r)"

text \<open>The call of a function that has byte code, with evaluated arguments.\<close>

definition executeBytecode :: "bytecode \<Rightarrow> item \<Rightarrow> cell list \<Rightarrow> globals \<Rightarrow> (cell \<Rightarrow> bytecode option) \<Rightarrow> vm" where
  "executeBytecode bc self args G aux =
     vm_enter bc self [] (map Own args) []
       \<lparr>vm_stack = [], vm_frames = [], vm_ip = 0, vm_globals = G, vm_aux = aux\<rparr>"

end
