(* ===== verification/NL_Emit.thy ===== *)
theory NL_Emit
  imports NL_VM "HOL-Library.Sublist"
begin

text \<open>
  What the byte-code compiler emits. Compiling an expression only appends: the code before it is not
  changed, the tables of constants and symbols grow by at most the number of bytes emitted, the scopes
  are closed again (\<open>compile_tidy\<close>). Where a form patches its jumps, the bytes it leaves are given
  explicitly, with the offsets of the jumps; \<open>closes\<close> describes the forms that leave jumps open.
\<close>

section \<open>What compiling adds\<close>

definition small_frame :: "compiler \<Rightarrow> bool" where
  "small_frame c \<longleftrightarrow> length (locals c) \<le> max_locals c \<and> max_locals c \<le> MAX_LOCALS"

text \<open>The tables of the compiler only grow, by no more entries than bytes are emitted.\<close>

definition grows :: "compiler \<Rightarrow> compiler \<Rightarrow> bool" where
  "grows c c' \<longleftrightarrow>
     prefix (constants c) (constants c') \<and> prefix (symbols c) (symbols c') \<and>
     length (constants c') + length (code c) \<le> length (constants c) + length (code c') \<and>
     length (symbols c') + length (code c) \<le> length (symbols c) + length (code c') \<and>
     length (code c) \<le> length (code c') \<and>
     self_symbol c' = self_symbol c \<and> max_locals c \<le> max_locals c' \<and> (small_frame c \<longrightarrow> max_locals c' \<le> MAX_LOCALS)"

text \<open>No byte of the code before is changed.\<close>

definition extends :: "compiler \<Rightarrow> compiler \<Rightarrow> bool" where
  "extends c c' \<longleftrightarrow> grows c c' \<and> prefix (code c) (code c')"

definition keeps :: "compiler \<Rightarrow> compiler \<Rightarrow> bool" where
  "keeps c c' \<longleftrightarrow> extends c c' \<and> locals c' = locals c"

lemma extends_refl [simp]: "extends c c"
  by (simp add: extends_def grows_def small_frame_def)

lemma grows_len: "grows c c' \<Longrightarrow> length (code c) \<le> length (code c')"
  by (simp add: grows_def)

lemma extends_len: "extends c c' \<Longrightarrow> length (code c) \<le> length (code c')"
  by (simp add: extends_def grows_def)

lemma keeps_refl [simp]: "keeps c c"
  by (simp add: keeps_def)

lemma keeps_small: "keeps c c' \<Longrightarrow> small_frame c \<Longrightarrow> small_frame c'"
  by (auto simp: keeps_def extends_def grows_def small_frame_def)

lemma keeps_trans [trans]:
  assumes "keeps a b" "keeps b c"
  shows "keeps a c"
proof -
  have "prefix (constants a) (constants c)" "prefix (symbols a) (symbols c)" "prefix (code a) (code c)"
    using assms prefix_order.trans by (auto simp: keeps_def extends_def grows_def)
  then show ?thesis using assms keeps_small [OF assms(1)]
    by (auto simp: keeps_def extends_def grows_def small_frame_def)
qed

subsection \<open>Emitting\<close>

lemma code_emitByte [simp]: "code (emitByte b c) = code c @ [b mod 256]"
  by (simp add: emitByte_def)

lemma code_emitOp [simp]: "code (emitOp op c) = code c @ [op_byte op]"
  using op_byte_range [of op] by (simp add: emitOp_def)

lemma emitOp_fields [simp]:
  "locals (emitOp op c) = locals c" "constants (emitOp op c) = constants c" "symbols (emitOp op c) = symbols c"
  "max_locals (emitOp op c) = max_locals c" "self_symbol (emitOp op c) = self_symbol c"
  by (simp_all add: emitOp_def emitByte_def)

lemma emitByte_fields [simp]:
  "locals (emitByte b c) = locals c" "constants (emitByte b c) = constants c" "symbols (emitByte b c) = symbols c"
  "max_locals (emitByte b c) = max_locals c" "self_symbol (emitByte b c) = self_symbol c"
  by (simp_all add: emitByte_def)

lemma code_emitUint16 [simp]: "code (emitUint16 v c) = code c @ [v mod 65536 mod 256, v mod 65536 div 256 mod 256]"
  by (simp add: emitUint16_def)

lemma emitUint16_fields [simp]:
  "locals (emitUint16 v c) = locals c" "constants (emitUint16 v c) = constants c" "symbols (emitUint16 v c) = symbols c"
  "max_locals (emitUint16 v c) = max_locals c" "self_symbol (emitUint16 v c) = self_symbol c"
  by (simp_all add: emitUint16_def)

lemma code_emitJump [simp]: "code (emitJump op c) = code c @ [op_byte op, 0, 0]"
  by (simp add: emitJump_def)

lemma emitJump_fields [simp]:
  "locals (emitJump op c) = locals c" "constants (emitJump op c) = constants c" "symbols (emitJump op c) = symbols c"
  "max_locals (emitJump op c) = max_locals c" "self_symbol (emitJump op c) = self_symbol c"
  by (simp_all add: emitJump_def)

text \<open>Any step that leaves the tables alone and appends code.\<close>

lemma keeps_append:
  "code c' = code c @ bs \<Longrightarrow> constants c' = constants c \<Longrightarrow> symbols c' = symbols c \<Longrightarrow> locals c' = locals c \<Longrightarrow>
   max_locals c' = max_locals c \<Longrightarrow> self_symbol c' = self_symbol c \<Longrightarrow> keeps c c'"
  by (simp add: keeps_def extends_def grows_def small_frame_def)

lemma keeps_emitOp: "keeps c (emitOp op c)"
  and keeps_emitByte: "keeps c (emitByte b c)"
  and keeps_emitUint16: "keeps c (emitUint16 v c)"
  and keeps_emitJump: "keeps c (emitJump op c)"
  by (rule keeps_append; simp)+

lemma emitLoad_fields [simp]:
  "locals (emitLoad i c) = locals c" "constants (emitLoad i c) = constants c" "symbols (emitLoad i c) = symbols c"
  "max_locals (emitLoad i c) = max_locals c" "self_symbol (emitLoad i c) = self_symbol c"
  by (simp_all add: emitLoad_def)

lemma emitStore_fields [simp]:
  "locals (emitStore i c) = locals c" "constants (emitStore i c) = constants c" "symbols (emitStore i c) = symbols c"
  "max_locals (emitStore i c) = max_locals c" "self_symbol (emitStore i c) = self_symbol c"
  by (simp_all add: emitStore_def)

definition u16 :: "int \<Rightarrow> int list" where
  "u16 v = [v mod 65536 mod 256, v mod 65536 div 256 mod 256]"

definition load_bytes :: "nat \<Rightarrow> int list" where
  "load_bytes i =
     (if i < 4 then [op_byte ([OP_LOAD_LOCAL_0, OP_LOAD_LOCAL_1, OP_LOAD_LOCAL_2, OP_LOAD_LOCAL_3] ! i)]
      else op_byte OP_LOAD_LOCAL # u16 (int i))"

definition store_bytes :: "nat \<Rightarrow> int list" where
  "store_bytes i =
     (if i < 4 then [op_byte ([OP_STORE_LOCAL_0, OP_STORE_LOCAL_1, OP_STORE_LOCAL_2, OP_STORE_LOCAL_3] ! i)]
      else op_byte OP_STORE_LOCAL # u16 (int i))"

lemma code_emitLoad [simp]: "code (emitLoad i c) = code c @ load_bytes i"
  and code_emitStore [simp]: "code (emitStore i c) = code c @ store_bytes i"
  by (simp_all add: emitLoad_def emitStore_def load_bytes_def store_bytes_def u16_def)

lemma keeps_emitLoad: "keeps c (emitLoad i c)"
  and keeps_emitStore: "keeps c (emitStore i c)"
  by (rule keeps_append; simp)+

text \<open>Constants and symbols are found or appended.\<close>

lemma find_constant_found: "find_constant M v i ks = Inr (Some j) \<Longrightarrow> i \<le> j \<and> j - i < length ks \<and> compareCells M (ks ! (j - i)) v = Inr 0"
proof (induction ks arbitrary: i)
  case (Cons k ks)
  show ?case
  proof (cases "i = j")
    case True
    then show ?thesis using Cons.prems Cons.IH [of "Suc i"] by (auto split: sum.splits if_splits)
  next
    case False
    then have "find_constant M v (Suc i) ks = Inr (Some j)" using Cons.prems by (auto split: sum.splits if_splits)
    from Cons.IH [OF this] show ?thesis using Suc_diff_Suc [of i j] by auto
  qed
qed simp

lemma find_symbol_found: "find_symbol s i xs = Some j \<Longrightarrow> i \<le> j \<and> j - i < length xs \<and> xs ! (j - i) = s"
proof (induction xs arbitrary: i)
  case (Cons x xs)
  show ?case
  proof (cases "x = s")
    case False
    then have "find_symbol s (Suc i) xs = Some j" using Cons.prems by simp
    from Cons.IH [OF this] show ?thesis using Suc_diff_Suc [of i j] by auto
  qed (use Cons.prems in auto)
qed simp

lemma emitConst_code:
  assumes "emitConst E v c = Compiled c'"
  obtains i where "i < length (constants c')" "compareCells (cmachine E) (constants c' ! i) v = Inr 0 \<or> constants c' ! i = v"
    "code c' = code c @ op_byte OP_CONST # u16 (int i)" "keeps c c'" "i \<le> length (constants c)"
proof -
  consider (found) i where "find_constant (cmachine E) v 0 (constants c) = Inr (Some i)"
      "c' = emitUint16 (int i mod 65536) (emitOp OP_CONST c)"
    | (added) "c' = emitUint16 (int (length (constants c)) mod 65536) (emitOp OP_CONST (c\<lparr>constants := constants c @ [v]\<rparr>))"
    using assms by (auto simp: emitConst_def addConstant_def then_c_Compiled split: sum.splits option.splits)
  then show thesis
  proof cases
    case found
    have "keeps c c'" using found(2) by (intro keeps_append) auto
    then show thesis using find_constant_found [OF found(1)] found(2) by (intro that [of i]) (auto simp: u16_def)
  next
    case added
    have "keeps c c'" using added by (simp add: keeps_def extends_def grows_def small_frame_def)
    then show thesis using added by (intro that [of "length (constants c)"]) (auto simp: u16_def)
  qed
qed

lemma emitGlobal_code:
  obtains i where "i < length (symbols (emitGlobal op s c))" "symbols (emitGlobal op s c) ! i = s" "i \<le> length (symbols c)"
    "code (emitGlobal op s c) = code c @ op_byte op # u16 (int i)" "keeps c (emitGlobal op s c)"
proof (cases "find_symbol s 0 (symbols c)")
  case None
  then have e: "emitGlobal op s c = emitUint16 (int (length (symbols c)) mod 65536) (emitOp op (c\<lparr>symbols := symbols c @ [s]\<rparr>))"
    by (simp add: emitGlobal_def addSymbol_def)
  have "keeps c (emitGlobal op s c)" using e by (simp add: keeps_def extends_def grows_def small_frame_def)
  then show thesis using e by (intro that [of "length (symbols c)"]) (auto simp: u16_def)
next
  case (Some i)
  then have e: "emitGlobal op s c = emitUint16 (int i mod 65536) (emitOp op c)"
    by (simp add: emitGlobal_def addSymbol_def)
  have "keeps c (emitGlobal op s c)" unfolding e by (rule keeps_append) auto
  then show thesis using e find_symbol_found [OF Some] by (intro that [of i]) (auto simp: u16_def)
qed

lemma keeps_emitGlobal: "keeps c (emitGlobal op s c)"
  using emitGlobal_code by blast

lemma keeps_emitConst: "emitConst E v c = Compiled c' \<Longrightarrow> keeps c c'"
  using emitConst_code by blast

lemma keeps_emitLong: "emitLong E i c = Compiled c' \<Longrightarrow> keeps c c'"
  by (auto simp: emitLong_def keeps_emitOp split: if_splits dest: keeps_emitConst)

lemma keeps_emitSymbol: "keeps c (emitSymbol s c)"
  by (simp add: emitSymbol_def keeps_emitLoad keeps_emitOp keeps_emitGlobal split: option.split)

lemma keeps_emitAssign: "keeps c (emitAssign k s c)"
  by (simp add: emitAssign_def keeps_emitStore keeps_emitGlobal split: option.split)

subsection \<open>Patching\<close>

lemma patch_fields [simp]:
  "locals (patch p d c) = locals c" "constants (patch p d c) = constants c" "symbols (patch p d c) = symbols c"
  "max_locals (patch p d c) = max_locals c" "self_symbol (patch p d c) = self_symbol c"
  by (simp_all add: patch_def)

definition patched :: "nat \<Rightarrow> nat \<Rightarrow> int list \<Rightarrow> int list" where
  "patched to p xs =
     xs[p := int16 (int to - int (p + 2)) mod 256, p + 1 := int16 (int to - int (p + 2)) div 256 mod 256]"

lemma length_patched [simp]: "length (patched to p xs) = length xs"
  by (simp add: patched_def)

lemma code_patchJump: "code (patchJump p c) = patched (length (code c)) p (code c)"
  by (simp add: patchJump_def patch_def patched_def)

lemma code_patchBack: "code (patchBack to p c) = patched to p (code c)"
  by (simp add: patchBack_def patch_def patched_def)

lemma patch_jump_fields [simp]:
  "locals (patchJump p c) = locals c" "constants (patchJump p c) = constants c" "symbols (patchJump p c) = symbols c"
  "max_locals (patchJump p c) = max_locals c" "self_symbol (patchJump p c) = self_symbol c"
  "locals (patchBack to p c) = locals c" "constants (patchBack to p c) = constants c" "symbols (patchBack to p c) = symbols c"
  "max_locals (patchBack to p c) = max_locals c" "self_symbol (patchBack to p c) = self_symbol c"
  by (simp_all add: patchJump_def patchBack_def)

lemma patched_append2: "length xs \<le> p \<Longrightarrow> patched to p (xs @ ys) = xs @ (ys[p - length xs := int16 (int to - int (p + 2)) mod 256, Suc (p - length xs) := int16 (int to - int (p + 2)) div 256 mod 256])"
  by (simp add: patched_def list_update_append Suc_diff_le)

lemma patched_append1: "p + 1 < length xs \<Longrightarrow> patched to p (xs @ ys) = patched to p xs @ ys"
  by (simp add: patched_def list_update_append)

lemma int16_bytes: "int16 d mod 256 = d mod 65536 mod 256 \<and> int16 d div 256 mod 256 = d mod 65536 div 256 mod 256"
proof -
  have "\<exists>k. int16 d = d mod 65536 + 65536 * k"
  proof -
    have "(int16 d - d) mod 65536 = 0" by (simp add: int16_def mod_diff_left_eq mod_diff_eq algebra_simps)
    then obtain k where "int16 d - d = 65536 * k" by auto
    then have "int16 d = d mod 65536 + 65536 * (d div 65536 + k)"
      using mult_div_mod_eq [of 65536 d] by (simp add: algebra_simps)
    then show ?thesis by blast
  qed
  then obtain k where k: "int16 d = d mod 65536 + 256 * (256 * k)" by (auto simp: algebra_simps)
  have "(d mod 65536 + 256 * (256 * k)) div 256 = 256 * k + d mod 65536 div 256" by (rule div_mult_self2) simp
  then show ?thesis unfolding k by (simp only: mod_mult_self2 mod_mult_self4 simp_thms)
qed

definition jump_bytes :: "vm_opcode \<Rightarrow> int \<Rightarrow> int list" where
  "jump_bytes op off = op_byte op # u16 off"

text \<open>The patch of a jump that was emitted behind \<open>xs\<close>.\<close>

lemma patched_jump:
  "patched to (Suc (length xs)) (xs @ op_byte op # a # b # ys) = xs @ jump_bytes op (int to - int (length xs + 3)) @ ys"
proof -
  have e: "int (Suc (length xs) + 2) = int (length xs + 3)" by simp
  show ?thesis
    by (subst patched_append2) (simp_all only: e int16_bytes jump_bytes_def u16_def le_Suc_eq order_refl disjI1 disjI2 diff_Suc_Suc, simp_all)
qed

lemma keeps_patch:
  assumes "keeps c c'" "length (code c) \<le> p" "code c'' = patched to p (code c')" "constants c'' = constants c'"
    "symbols c'' = symbols c'" "locals c'' = locals c'" "max_locals c'' = max_locals c'" "self_symbol c'' = self_symbol c'"
  shows "keeps c c''"
proof -
  obtain bs where "code c' = code c @ bs" using assms(1) by (auto simp: keeps_def extends_def prefix_def)
  then have "prefix (code c) (code c'')" using assms(2,3) by (simp add: patched_append2)
  then show ?thesis using assms by (auto simp: keeps_def extends_def grows_def small_frame_def)
qed

lemma keeps_patchJump: "keeps c c' \<Longrightarrow> length (code c) \<le> p \<Longrightarrow> keeps c (patchJump p c')"
  and keeps_patchBack: "keeps c c' \<Longrightarrow> length (code c) \<le> p \<Longrightarrow> keeps c (patchBack to p c')"
  by (rule keeps_patch, assumption, assumption, rule code_patchJump code_patchBack; simp)+

subsection \<open>Open jumps\<close>

definition patches :: "nat \<Rightarrow> nat list \<Rightarrow> int list \<Rightarrow> int list" where
  "patches to ps xs = foldr (patched to) ps xs"

lemma patches_simps [simp]: "patches to [] xs = xs" "patches to (p # ps) xs = patched to p (patches to ps xs)"
  by (simp_all add: patches_def)

lemma length_patches [simp]: "length (patches to ps xs) = length xs"
  by (induction ps) simp_all

definition pending :: "nat list \<Rightarrow> compiler \<Rightarrow> bool" where
  "pending ps c \<longleftrightarrow> (\<forall>p\<in>set ps. p + 1 < length (code c))"

lemma patches_append: "\<forall>p\<in>set ps. p + 1 < length xs \<Longrightarrow> patches to ps (xs @ ys) = patches to ps xs @ ys"
  by (induction ps) (simp_all add: patched_append1)

lemma patch_all:
  "code (fold patchJump (rev ps) c) = patches (length (code c)) ps (code c)"
  "locals (fold patchJump (rev ps) c) = locals c" "constants (fold patchJump (rev ps) c) = constants c"
  "symbols (fold patchJump (rev ps) c) = symbols c" "max_locals (fold patchJump (rev ps) c) = max_locals c"
  "self_symbol (fold patchJump (rev ps) c) = self_symbol c"
  by (induction ps) (simp_all add: code_patchJump)

definition closes :: "nat \<Rightarrow> nat list \<Rightarrow> compiler \<Rightarrow> compiler \<Rightarrow> bool" where
  "closes to ps c c' \<longleftrightarrow> grows c c' \<and> locals c' = locals c \<and> prefix (patches to ps (code c)) (code c')"

definition emitted :: "compiler \<Rightarrow> compiler \<Rightarrow> int list" where
  "emitted c c' = drop (length (code c)) (code c')"

lemma closes_Nil [simp]: "closes to [] c c' \<longleftrightarrow> keeps c c'"
  by (auto simp: closes_def keeps_def extends_def)

lemma closes_code: "closes to ps c c' \<Longrightarrow> code c' = patches to ps (code c) @ emitted c c'"
  by (auto simp: closes_def emitted_def prefix_def)

lemma keeps_code: "keeps c c' \<Longrightarrow> code c' = code c @ emitted c c'"
  by (auto simp: keeps_def extends_def emitted_def prefix_def)

lemma keeps_grows: "keeps c c' \<Longrightarrow> grows c c'" "keeps c c' \<Longrightarrow> locals c' = locals c"
  by (auto simp: keeps_def extends_def)

lemma grows_trans:
  assumes "grows a b" "grows b c" "locals b = locals a"
  shows "grows a c"
proof -
  have "prefix (constants a) (constants c)" "prefix (symbols a) (symbols c)"
    using assms prefix_order.trans by (auto simp: grows_def)
  then show ?thesis using assms by (auto simp: grows_def small_frame_def)
qed

lemma pending_keeps: "pending ps c \<Longrightarrow> keeps c c' \<Longrightarrow> pending ps c'"
  using extends_len by (fastforce simp: pending_def keeps_def)

lemma keeps_closes: "keeps a b \<Longrightarrow> closes to ps b c \<Longrightarrow> grows a c" "keeps a b \<Longrightarrow> closes to ps b c \<Longrightarrow> locals c = locals a"
  using grows_trans [of a b c] keeps_grows [of a b] by (simp_all add: closes_def)

lemma closes_after:
  assumes "keeps c c1" "pending ps c" "closes to ps c1 c'"
  shows "closes to ps c c' \<and> code c' = patches to ps (code c) @ emitted c c1 @ emitted c1 c'"
proof -
  have "code c' = patches to ps (code c) @ emitted c c1 @ emitted c1 c'"
    using closes_code [OF assms(3)] keeps_code [OF assms(1)] patches_append [of ps "code c" to "emitted c c1"] assms(2)
    by (simp add: pending_def)
  moreover have "grows c c'" "locals c' = locals c"
    using keeps_closes assms(1,3) by blast+
  ultimately show ?thesis by (auto simp: closes_def)
qed

lemma closes_jump:
  assumes "keeps c c1" "pending ps c" "closes to (jump_pos c1 # ps) (emitJump op c1) c'"
  shows "closes to ps c c' \<and> code c' = patches to ps (code c) @ emitted c c1 @
    jump_bytes op (int to - int (length (code c1) + 3)) @ emitted (emitJump op c1) c'"
proof -
  let ?z = "patches to ps (code c) @ emitted c c1"
  have l: "length (code c1) = length ?z" using keeps_code [OF assms(1)] by (metis length_append length_patches)
  have "code (emitJump op c1) = code c @ emitted c c1 @ [op_byte op, 0, 0]"
    using keeps_code [OF assms(1)] by (metis append.assoc code_emitJump)
  then have "patches to ps (code (emitJump op c1)) = ?z @ [op_byte op, 0, 0]"
    using patches_append [of ps "code c" to "emitted c c1 @ [op_byte op, 0, 0]"] assms(2) by (simp add: pending_def)
  then have "patches to (jump_pos c1 # ps) (code (emitJump op c1)) = ?z @ jump_bytes op (int to - int (length (code c1) + 3))"
    using patched_jump [of to ?z op 0 0 "[]"] by (simp add: jump_pos_def l)
  then have c: "code c' = patches to ps (code c) @ emitted c c1 @
      jump_bytes op (int to - int (length (code c1) + 3)) @ emitted (emitJump op c1) c'"
    using closes_code [OF assms(3)] by simp
  moreover have "grows c c'" "locals c' = locals c"
    using keeps_closes [OF keeps_trans [OF assms(1) keeps_emitJump] assms(3)] by blast+
  ultimately show ?thesis by (auto simp: closes_def)
qed

lemma closes_emitted:
  assumes "keeps c c1" "pending ps c" "closes to (jump_pos c1 # ps) (emitJump op c1) c'"
  shows "closes to ps c c'"
    "emitted c c' = emitted c c1 @ jump_bytes op (int to - int (length (code c1) + 3)) @ emitted (emitJump op c1) c'"
  using closes_jump [OF assms] by (simp_all add: emitted_def [of c c'])

lemma pending_jump: "keeps c c1 \<Longrightarrow> pending ps c \<Longrightarrow> pending (jump_pos c1 # ps) (emitJump op c1)"
  using extends_len by (fastforce simp: pending_def jump_pos_def keeps_def)

text \<open>A patch in front of a jump that is emitted last.\<close>

lemma patch_emitJump: "p + 1 < length (code c) \<Longrightarrow> patchJump p (emitJump op c) = emitJump op (patchBack (length (code c) + 3) p c)"
  by (simp add: patchJump_def patchBack_def patch_def emitJump_def emitUint16_def emitOp_def emitByte_def list_update_append)

lemma jump_pos_patchBack [simp]: "jump_pos (patchBack to p c) = jump_pos c" "length (code (patchBack to p c)) = length (code c)"
  by (simp_all add: jump_pos_def code_patchBack)

text \<open>Both jumps of a conditional.\<close>

lemma keeps_patched_jump:
  assumes "keeps c c1" "keeps (emitJump op c1) c2"
  shows "keeps c (patchBack to (jump_pos c1) c2)"
    "emitted c (patchBack to (jump_pos c1) c2) =
       emitted c c1 @ jump_bytes op (int to - int (length (code c1) + 3)) @ emitted (emitJump op c1) c2"
proof -
  let ?c' = "patchBack to (jump_pos c1) c2"
  have k: "keeps c c2" using keeps_trans [OF assms(1) keeps_trans [OF keeps_emitJump assms(2)]] .
  have g: "grows (emitJump op c1) ?c'" "locals ?c' = locals (emitJump op c1)"
    using keeps_grows [OF assms(2)] by (auto simp: grows_def small_frame_def)
  have "code c2 = code c1 @ op_byte op # 0 # 0 # emitted (emitJump op c1) c2"
    using keeps_code [OF assms(2)] by simp
  then have e: "code ?c' = code c1 @ jump_bytes op (int to - int (length (code c1) + 3)) @ emitted (emitJump op c1) c2"
    by (metis code_patchBack jump_pos_def Suc_eq_plus1 patched_jump)
  then have "code ?c' = code c @ emitted c c1 @ jump_bytes op (int to - int (length (code c1) + 3)) @ emitted (emitJump op c1) c2"
    using keeps_code [OF assms(1)] by (metis append.assoc)
  then show "emitted c ?c' = emitted c c1 @ jump_bytes op (int to - int (length (code c1) + 3)) @ emitted (emitJump op c1) c2"
    by (simp add: emitted_def [of c ?c'])
  show "keeps c ?c'" by (rule keeps_patchBack [OF k]) (use extends_len assms(1) in \<open>auto simp: jump_pos_def keeps_def le_SucI\<close>)
qed

section \<open>Scopes\<close>

definition opens :: "compiler \<Rightarrow> compiler \<Rightarrow> bool" where
  "opens c c' \<longleftrightarrow> extends c c' \<and> prefix (locals c) (locals c') \<and> (small_frame c \<longrightarrow> small_frame c')"

lemma keeps_opens: "keeps c c' \<Longrightarrow> opens c c'"
  using keeps_small by (auto simp: opens_def keeps_def)

lemma opens_trans:
  assumes "opens a b" "opens b c"
  shows "opens a c"
proof -
  have "prefix (constants a) (constants c)" "prefix (symbols a) (symbols c)" "prefix (code a) (code c)" "prefix (locals a) (locals c)"
    using assms prefix_order.trans by (auto simp: opens_def extends_def grows_def)
  then show ?thesis using assms by (auto simp: opens_def extends_def grows_def small_frame_def)
qed

lemma opens_close: "opens c c' \<Longrightarrow> keeps c (c'\<lparr>locals := take (length (locals c)) (locals c')\<rparr>)"
  by (auto simp: opens_def keeps_def extends_def grows_def prefix_def)

lemma addLocal_opens: "addLocal s c = Compiled c' \<Longrightarrow> opens c c' \<and> locals c' = locals c @ [s] \<and> code c' = code c \<and>
    constants c' = constants c \<and> symbols c' = symbols c \<and> self_symbol c' = self_symbol c"
  by (auto simp: addLocal_def opens_def extends_def grows_def small_frame_def MAX_LOCALS_def split: if_splits)

lemma compile_locals_opens: "compile_locals vs c = Compiled c' \<Longrightarrow> opens c c'"
proof (induction vs c rule: compile_locals.induct)
  case (2 s vs c)
  then obtain c1 where c1: "addLocal (Some s) c = Compiled c1"
    "compile_locals vs (emitStore (length (locals c)) (emitOp OP_NIL c1)) = Compiled c'"
    by (auto simp: then_c_Compiled)
  have "opens c1 (emitStore (length (locals c)) (emitOp OP_NIL c1))"
    using keeps_trans [OF keeps_emitOp keeps_emitStore] by (rule keeps_opens)
  then show ?case using opens_trans addLocal_opens [OF c1(1)] 2(1) [OF c1] by blast
qed (auto simp: keeps_opens)

section \<open>The compiled forms\<close>

definition tidy :: "compile_env \<Rightarrow> cell \<Rightarrow> bool" where
  "tidy E e \<longleftrightarrow> (\<forall>c t c'. compileExpr E c e t = Compiled c' \<longrightarrow> keeps c c')"

lemma tidyD: "tidy E e \<Longrightarrow> compileExpr E c e t = Compiled c' \<Longrightarrow> keeps c c'"
  by (simp add: tidy_def)

lemma compile_body_keeps:
  "(\<And>e. e \<in> set es \<Longrightarrow> tidy E e) \<Longrightarrow> compile_body E c es t = Compiled c' \<Longrightarrow> keeps c c'"
proof (induction es arbitrary: c)
  case (Cons e es)
  show ?case
  proof (cases "es = []")
    case True
    then show ?thesis using Cons.prems tidyD by (auto simp: compile_body.simps)
  next
    case False
    then obtain c1 where c1: "compileExpr E c e False = Compiled c1" "compile_body E (emitOp OP_POP c1) es t = Compiled c'"
      using Cons.prems(2) by (auto simp: compile_body.simps [of _ _ "e # es"] then_c_Compiled)
    have "keeps (emitOp OP_POP c1) c'" using Cons.IH [OF _ c1(2)] Cons.prems(1) by simp
    then show ?thesis using keeps_trans tidyD [OF Cons.prems(1) c1(1)] keeps_emitOp by (meson list.set_intros(1))
  qed
qed (simp add: compile_body.simps)

lemma compile_discard_keeps:
  "(\<And>e. e \<in> set es \<Longrightarrow> tidy E e) \<Longrightarrow> compile_discard E c es = Compiled c' \<Longrightarrow> keeps c c'"
proof (induction es arbitrary: c)
  case (Cons e es)
  then obtain c1 where c1: "compileExpr E c e False = Compiled c1" "compile_discard E (emitOp OP_POP c1) es = Compiled c'"
    by (auto simp: compile_discard.simps [of _ _ "e # es"] then_c_Compiled)
  have "keeps (emitOp OP_POP c1) c'" using Cons.IH [OF _ c1(2)] Cons.prems(1) by simp
  then show ?case using keeps_trans tidyD [OF Cons.prems(1) c1(1)] keeps_emitOp by (meson list.set_intros(1))
qed (simp add: compile_discard.simps)

lemma compile_args_keeps:
  "(\<And>e. e \<in> set es \<Longrightarrow> tidy E e) \<Longrightarrow> compile_args E c es = Compiled c' \<Longrightarrow> keeps c c'"
proof (induction es arbitrary: c)
  case (Cons e es)
  then obtain c1 where c1: "compileExpr E c e False = Compiled c1" "compile_args E c1 es = Compiled c'"
    by (auto simp: compile_args.simps [of _ _ "e # es"] then_c_Compiled)
  have "keeps c1 c'" using Cons.IH [OF _ c1(2)] Cons.prems(1) by simp
  then show ?case using keeps_trans tidyD [OF Cons.prems(1) c1(1)] by (meson list.set_intros(1))
qed (simp add: compile_args.simps)

lemma compile_ops_keeps:
  "(\<And>e. e \<in> set es \<Longrightarrow> tidy E e) \<Longrightarrow> compile_ops E c op es = Compiled c' \<Longrightarrow> keeps c c'"
proof (induction es arbitrary: c)
  case (Cons e es)
  then obtain c1 where c1: "compileExpr E c e False = Compiled c1" "compile_ops E (emitOp op c1) op es = Compiled c'"
    by (auto simp: compile_ops.simps [of _ _ _ "e # es"] then_c_Compiled)
  have "keeps (emitOp op c1) c'" using Cons.IH [OF _ c1(2)] Cons.prems(1) by simp
  then show ?case using keeps_trans tidyD [OF Cons.prems(1) c1(1)] keeps_emitOp by (meson list.set_intros(1))
qed (simp add: compile_ops.simps)

text \<open>\<^verbatim>\<open>and\<close>, \<^verbatim>\<open>or\<close> and \<^verbatim>\<open>cond\<close> close the jumps they left open, at the end of their code.\<close>

text \<open>The end of \<^verbatim>\<open>and\<close>: a jump over the nil the open jumps go to.\<close>

lemma and_end:
  assumes "keeps c c1" "pending ps c" "ps \<noteq> []"
    "c' = patchJump (jump_pos c1) (emitOp OP_NIL (fold patchJump (rev ps) (emitJump OP_JUMP c1)))"
  shows "closes (length (code c1) + 3) ps c c'" "emitted c c' = emitted c c1 @ jump_bytes OP_JUMP 1 @ [op_byte OP_NIL]"
    "length (code c') = length (code c1) + 4" "grows c1 c'" "locals c' = locals c1"
proof -
  let ?T = "length (code c1) + 3"
  have "code c' = patched (?T + 1) (Suc (length (code c1))) (patches ?T ps (code c1 @ [op_byte OP_JUMP, 0, 0]) @ [op_byte OP_NIL])"
    using assms(4) by (simp add: code_patchJump patch_all jump_pos_def eval_nat_numeral)
  also have "patches ?T ps (code c1 @ [op_byte OP_JUMP, 0, 0]) = patches ?T ps (code c1) @ [op_byte OP_JUMP, 0, 0]"
    by (rule patches_append) (use pending_keeps [OF assms(2,1)] in \<open>simp add: pending_def\<close>)
  also have "patched (?T + 1) (Suc (length (code c1))) ((patches ?T ps (code c1) @ [op_byte OP_JUMP, 0, 0]) @ [op_byte OP_NIL]) =
      patches ?T ps (code c1) @ jump_bytes OP_JUMP 1 @ [op_byte OP_NIL]"
    using patched_jump [of "?T + 1" "patches ?T ps (code c1)" OP_JUMP 0 0 "[op_byte OP_NIL]"] by simp
  finally have c: "code c' = patches ?T ps (code c1) @ jump_bytes OP_JUMP 1 @ [op_byte OP_NIL]" .
  then show l: "length (code c') = length (code c1) + 4" by (simp add: jump_bytes_def u16_def)
  show g: "grows c1 c'" and "locals c' = locals c1" using assms(3,4) c
    by (auto simp: grows_def small_frame_def patch_all jump_bytes_def u16_def)
  then have d: "closes ?T ps c1 c'" using c by (simp add: closes_def)
  show "closes ?T ps c c'" using closes_after [OF assms(1,2) d] by blast
  have "emitted c1 c' = jump_bytes OP_JUMP 1 @ [op_byte OP_NIL]" using c by (simp add: emitted_def)
  then show "emitted c c' = emitted c c1 @ jump_bytes OP_JUMP 1 @ [op_byte OP_NIL]"
    using closes_after [OF assms(1,2) d] by (simp add: emitted_def [of c c'])
qed

lemma compile_and_closes:
  assumes "\<And>e. e \<in> set es \<Longrightarrow> tidy E e" "es \<noteq> []" "pending ps c" "compile_and E c ps es t = Compiled c'"
  shows "closes (length (code c') - 1) ps c c' \<and> (ps \<noteq> [] \<longrightarrow> (\<exists>xs. emitted c c' = xs @ [op_byte OP_NIL]))"
  using assms
proof (induction es arbitrary: c ps)
  case (Cons e es)
  show ?case
  proof (cases "es = []")
    case True
    then obtain c1 where c1: "compileExpr E c e t = Compiled c1"
      "c' = (if ps = [] then c1 else patchJump (jump_pos c1) (emitOp OP_NIL (fold patchJump (rev ps) (emitJump OP_JUMP c1))))"
      using Cons.prems(4) by (auto simp: compile_and.simps [of _ _ _ "[e]"] then_c_Compiled)
    have k: "keeps c c1" by (rule tidyD [OF Cons.prems(1) c1(1)]) simp
    show ?thesis
    proof (cases "ps = []")
      case False
      note e = and_end [OF k Cons.prems(3) False c1(2) [simplified if_not_P [OF False]]]
      have "length (code c') - 1 = length (code c1) + 3" using e(3) by simp
      then show ?thesis using e(1,2) by (auto intro: exI [of _ "emitted c c1 @ jump_bytes OP_JUMP 1"])
    qed (use c1 k in simp)
  next
    case False
    then obtain c1 where c1: "compileExpr E c e False = Compiled c1"
      "compile_and E (emitJump OP_JUMP_IF_NIL c1) (jump_pos c1 # ps) es t = Compiled c'"
      using Cons.prems(4) by (auto simp: compile_and.simps [of _ _ _ "e # es"] then_c_Compiled split: if_splits)
    have k: "keeps c c1" by (rule tidyD [OF Cons.prems(1) c1(1)]) simp
    have r: "closes (length (code c') - 1) (jump_pos c1 # ps) (emitJump OP_JUMP_IF_NIL c1) c'"
      "\<exists>xs. emitted (emitJump OP_JUMP_IF_NIL c1) c' = xs @ [op_byte OP_NIL]"
      using Cons.IH [OF _ False pending_jump [OF k Cons.prems(3)] c1(2)] Cons.prems(1) by simp_all
    from closes_emitted [OF k Cons.prems(3) r(1)] r(2) show ?thesis by (metis append.assoc)
  qed
qed simp

lemma closes_all:
  assumes "keeps c c1" "pending ps c"
  shows "closes (length (code c1)) ps c (fold patchJump (rev ps) c1)"
proof -
  have "closes (length (code c1)) ps c1 (fold patchJump (rev ps) c1)"
    by (auto simp: closes_def patch_all grows_def small_frame_def)
  then show ?thesis using closes_after [OF assms] by blast
qed

lemma length_patch_all [simp]: "length (code (fold patchJump (rev ps) c)) = length (code c)"
  by (simp add: patch_all)

lemma compile_or_closes:
  assumes "\<And>e. e \<in> set es \<Longrightarrow> tidy E e" "es \<noteq> []" "pending ps c" "compile_or E c ps es t = Compiled c'"
  shows "closes (length (code c')) ps c c'"
  using assms
proof (induction es arbitrary: c ps)
  case (Cons e es)
  show ?case
  proof (cases "es = []")
    case True
    then obtain c1 where c1: "compileExpr E c e t = Compiled c1" "c' = fold patchJump (rev ps) c1"
      using Cons.prems(4) by (auto simp: compile_or.simps [of _ _ _ "[e]"] then_c_Compiled)
    have "keeps c c1" by (rule tidyD [OF Cons.prems(1) c1(1)]) simp
    then show ?thesis using closes_all [OF _ Cons.prems(3), of c1] c1(2) by simp
  next
    case False
    then obtain c1 where c1: "compileExpr E c e False = Compiled c1"
      "compile_or E (emitOp OP_POP (emitJump OP_JUMP_IF_NOT_NIL (emitOp OP_DUP c1))) (jump_pos (emitOp OP_DUP c1) # ps) es t = Compiled c'"
      using Cons.prems(4) by (auto simp: compile_or.simps [of _ _ _ "e # es"] then_c_Compiled Let_def split: if_splits)
    let ?c2 = "emitOp OP_DUP c1" let ?c3 = "emitJump OP_JUMP_IF_NOT_NIL ?c2"
    have k: "keeps c ?c2" using tidyD Cons.prems(1) c1(1) keeps_trans keeps_emitOp by (meson list.set_intros(1))
    have p: "pending (jump_pos ?c2 # ps) ?c3" by (rule pending_jump [OF k Cons.prems(3)])
    have "closes (length (code c')) (jump_pos ?c2 # ps) (emitOp OP_POP ?c3) c'"
      using Cons.IH [OF _ False pending_keeps [OF p keeps_emitOp] c1(2)] Cons.prems(1) by simp
    then show ?thesis using closes_jump [OF k Cons.prems(3)] closes_after [OF keeps_emitOp p] by blast
  qed
qed simp

lemma compile_clauses_closes:
  assumes "\<And>e. size e < cells_size cs \<Longrightarrow> tidy E e" "pending ps c" "compile_clauses E c ps cs t = Compiled c'"
  shows "closes (length (code c')) ps c c'"
  using assms
proof (induction cs arbitrary: c ps)
  case Nil
  then have "c' = fold patchJump (rev ps) c" by (simp add: compile_clauses.simps)
  then show ?case using closes_all [of c c ps] Nil by simp
next
  case (Cons x cs)
  note step = Cons.prems(3) [unfolded compile_clauses.simps [of _ _ _ "x # cs"]]
  obtain es where x: "x = CELL_EXPRESSION es" using step by (cases x) auto
  have IH: "pending ps c \<Longrightarrow> compile_clauses E c ps cs t = Compiled c' \<Longrightarrow> closes (length (code c')) ps c c'" for ps c
    using Cons.IH Cons.prems(1) by simp
  show ?case
  proof (cases es)
    case Nil
    then show ?thesis using step x IH Cons.prems(2) by simp
  next
    case es: (Cons test body)
    have "length ps < 64" using step x es by (auto simp: then_c_Compiled Let_def split: if_splits)
    then obtain c1 c4 where c: "compileExpr E (emitOp OP_POP c) test False = Compiled c1"
      "(if body = [] then Compiled (emitJump OP_JUMP_IF_NIL (emitOp OP_DUP c1))
        else compile_body E (emitOp OP_POP (emitJump OP_JUMP_IF_NIL (emitOp OP_DUP c1))) body t) = Compiled c4"
      "compile_clauses E (patchJump (jump_pos (emitOp OP_DUP c1)) (emitJump OP_JUMP c4)) (jump_pos c4 # ps) cs t = Compiled c'"
      using step x es by (auto simp: then_c_Compiled Let_def)
    let ?c2 = "emitOp OP_DUP c1" let ?c3 = "emitJump OP_JUMP_IF_NIL ?c2"
    let ?c4 = "patchBack (length (code c4) + 3) (jump_pos ?c2) c4"
    have smaller: "tidy E test" "\<And>e. e \<in> set body \<Longrightarrow> tidy E e"
      using Cons.prems(1) x es by (auto intro!: Cons.prems(1) dest: size_list_estimation' [of _ _ _ size])
    have "keeps (emitOp OP_POP c) c1" using tidyD smaller(1) c(1) .
    then have k2: "keeps c ?c2" using keeps_trans keeps_emitOp by blast
    have k3: "keeps ?c3 c4"
    proof (cases "body = []")
      case False
      then have "keeps (emitOp OP_POP ?c3) c4" using c(2) compile_body_keeps [OF smaller(2)] by simp
      then show ?thesis using keeps_trans keeps_emitOp by blast
    qed (use c(2) in simp)
    have k: "keeps c ?c4" by (rule keeps_patched_jump [OF k2 k3])
    have "jump_pos ?c2 + 1 < length (code c4)" using extends_len [of ?c3 c4] k3 by (simp add: keeps_def jump_pos_def)
    then have e: "patchJump (jump_pos ?c2) (emitJump OP_JUMP c4) = emitJump OP_JUMP ?c4" by (rule patch_emitJump)
    have "closes (length (code c')) (jump_pos ?c4 # ps) (emitJump OP_JUMP ?c4) c'"
      by (rule IH) (use pending_jump [OF k Cons.prems(2)] c(3) e in simp_all)
    then show ?thesis using closes_jump [OF k Cons.prems(2)] by blast
  qed
qed

lemma compile_lets_opens:
  assumes "\<And>e. size e < Suc (cells_size bs) \<Longrightarrow> tidy E e" "compile_lets E c bs = Compiled c'"
  shows "opens c c'"
  using assms
proof (induction "length bs" arbitrary: bs c rule: less_induct)
  case less
  note step = less.prems(2) [unfolded compile_lets.simps [of _ _ bs]]
  have bind: "opens c c'" if "size e < Suc (cells_size bs)" "addLocal (Some s) c = Compiled c0" "compileExpr E c0 e False = Compiled c1"
    "compile_lets E (emitStore (length (locals c)) c1) rest = Compiled c'" "length rest < length bs" "cells_size rest \<le> cells_size bs"
    for e s c0 c1 rest
  proof -
    have "opens c0 c1" using keeps_opens tidyD less.prems(1) that(1,3) by blast
    moreover have "opens c1 (emitStore (length (locals c)) c1)" using keeps_opens keeps_emitStore by blast
    moreover have "opens (emitStore (length (locals c)) c1) c'" using less.hyps [OF that(5) _ that(4)] less.prems(1) that(6) by simp
    ultimately show ?thesis using addLocal_opens [OF that(2)] opens_trans by blast
  qed
  show ?case
  proof (cases bs)
    case Nil
    then show ?thesis using step by (simp add: keeps_opens)
  next
    case (Cons b bs')
    show ?thesis
    proof (cases b)
      case (CELL_EXPRESSION qs)
      then obtain s e c0 c1 where "pair_binding qs = Some (s, e)" "addLocal (Some s) c = Compiled c0" "compileExpr E c0 e False = Compiled c1"
        "compile_lets E (emitStore (length (locals c)) c1) bs' = Compiled c'"
        using step Cons by (auto simp: then_c_Compiled split: option.splits)
      then show ?thesis using bind [of e s c0 c1 bs'] Cons CELL_EXPRESSION pair_binding_size [of qs s e] by simp
    next
      case (CELL_SYMBOL s)
      show ?thesis
      proof (cases bs')
        case Nil
        then obtain c0 where c0: "addLocal (Some s) c = Compiled c0" "c' = emitStore (length (locals c)) (emitOp OP_NIL c0)"
          using step Cons CELL_SYMBOL by (auto simp: then_c_Compiled)
        have "opens c0 c'" unfolding c0(2) using keeps_trans [OF keeps_emitOp keeps_emitStore] by (rule keeps_opens)
        then show ?thesis using addLocal_opens [OF c0(1)] opens_trans by blast
      next
        case (Cons e rest)
        then obtain c0 c1 where "addLocal (Some s) c = Compiled c0" "compileExpr E c0 e False = Compiled c1"
          "compile_lets E (emitStore (length (locals c)) c1) rest = Compiled c'"
          using step \<open>bs = b # bs'\<close> CELL_SYMBOL by (auto simp: then_c_Compiled)
        then show ?thesis using bind [of e s c0 c1 rest] \<open>bs = b # bs'\<close> Cons by simp
      qed
    qed (use step Cons in auto)
  qed
qed

lemma compile_assigns_keeps:
  assumes "\<And>e. e \<in> set es \<Longrightarrow> tidy E e" "compile_assigns E c q es = Compiled c'"
  shows "keeps c c'"
  using assms
proof (induction "length es" arbitrary: es c rule: less_induct)
  case less
  note step = less.prems(2) [unfolded compile_assigns.simps [of _ _ _ es]]
  obtain v e rest s c1 where es: "es = v # e # rest" "(if q then plain_symbol v else quoted_symbol v) = Some s"
    "compileExpr E c e False = Compiled c1"
    "(if rest = [] then Compiled (emitAssign (findLocal s c) s (emitOp OP_DUP c1))
      else compile_assigns E (emitOp OP_POP (emitAssign (findLocal s c) s (emitOp OP_DUP c1))) q rest) = Compiled c'"
    using step by (auto simp: then_c_Compiled Let_def split: list.splits option.splits)
  let ?c2 = "emitAssign (findLocal s c) s (emitOp OP_DUP c1)"
  have k: "keeps c ?c2" using keeps_trans [OF tidyD [OF less.prems(1) es(3)] keeps_trans [OF keeps_emitOp keeps_emitAssign]] es(1) by simp
  show ?case
  proof (cases "rest = []")
    case False
    then have "keeps (emitOp OP_POP ?c2) c'" using less.hyps [of rest "emitOp OP_POP ?c2"] es(1,4) less.prems(1) by simp
    then show ?thesis using keeps_trans [OF k keeps_trans [OF keeps_emitOp]] by blast
  qed (use k es(4) in simp)
qed

lemma member_size: "e \<in> set es \<Longrightarrow> size e < Suc (cells_size es)"
  using size_list_estimation' [of e es "size e" size] by simp

lemmas keeps_emit = keeps_trans [OF _ keeps_emitOp] keeps_trans [OF _ keeps_emitByte] keeps_trans [OF _ keeps_emitJump]
  keeps_trans [OF _ keeps_emitLoad] keeps_trans [OF _ keeps_emitStore] keeps_trans [OF _ keeps_emitAssign]
  keeps_trans [OF _ keeps_emitSymbol] keeps_trans [OF _ keeps_emitGlobal]

lemma patchJump_back: "patchJump p c = patchBack (length (code c)) p c"
  by (simp add: patchJump_def patchBack_def)

text \<open>The conditional with both branches, and the two loops.\<close>

lemma keeps_branches:
  assumes "keeps c c1" "keeps (emitJump op1 c1) c2" "keeps (patchJump (jump_pos c1) (emitJump op2 c2)) c4"
  shows "keeps c (patchJump (jump_pos c2) c4)"
    "emitted c (patchJump (jump_pos c2) c4) =
       emitted c c1 @ jump_bytes op1 (int (length (emitted (emitJump op1 c1) c2)) + 3) @ emitted (emitJump op1 c1) c2 @
       jump_bytes op2 (int (length (emitted (patchJump (jump_pos c1) (emitJump op2 c2)) c4))) @
       emitted (patchJump (jump_pos c1) (emitJump op2 c2)) c4"
    "length (code (patchJump (jump_pos c1) (emitJump op2 c2))) = length (code c2) + 3"
    "length (code c2) = length (code c1) + 3 + length (emitted (emitJump op1 c1) c2)"
proof -
  let ?t = "length (code c2) + 3"
  let ?d = "patchBack ?t (jump_pos c1) c2"
  let ?b2 = "emitted (emitJump op1 c1) c2"
  have l2: "length (code c2) = length (code c1) + 3 + length ?b2"
    using arg_cong [OF keeps_code [OF assms(2)], of length] by simp
  then show "length (code c2) = length (code c1) + 3 + length ?b2" .
  have "jump_pos c1 + 1 < length (code c2)" using l2 by (simp add: jump_pos_def)
  then have e: "patchJump (jump_pos c1) (emitJump op2 c2) = emitJump op2 ?d" by (rule patch_emitJump)
  then show "length (code (patchJump (jump_pos c1) (emitJump op2 c2))) = length (code c2) + 3" by simp
  note d = keeps_patched_jump [OF assms(1,2), of ?t]
  note f = keeps_patched_jump [OF d(1) assms(3) [unfolded e], of "length (code c4)"]
  have l4: "length (code c4) = ?t + length (emitted (emitJump op2 ?d) c4)"
    using arg_cong [OF keeps_code [OF assms(3) [unfolded e]], of length] by simp
  have p: "patchJump (jump_pos c2) c4 = patchBack (length (code c4)) (jump_pos ?d) c4"
    unfolding jump_pos_patchBack(1) by (rule patchJump_back)
  show "keeps c (patchJump (jump_pos c2) c4)" unfolding p by (rule f(1))
  have "int ?t - int (length (code c1) + 3) = int (length ?b2) + 3" using l2 by simp
  moreover have "int (length (code c4)) - int (length (code ?d) + 3) = int (length (emitted (emitJump op2 ?d) c4))" using l4 by simp
  ultimately show "emitted c (patchJump (jump_pos c2) c4) = emitted c c1 @ jump_bytes op1 (int (length ?b2) + 3) @ ?b2 @
       jump_bytes op2 (int (length (emitted (patchJump (jump_pos c1) (emitJump op2 c2)) c4))) @
       emitted (patchJump (jump_pos c1) (emitJump op2 c2)) c4"
    unfolding p f(2) d(2) e by simp
qed

text \<open>A loop: the condition behind \<open>c\<close> ends in \<open>c1\<close>, the body in \<open>c2\<close>, and the jump back goes to
  \<open>start\<close>.\<close>

lemma keeps_loop:
  fixes start :: nat
  assumes "keeps c c1" "keeps (emitJump OP_JUMP_IF_NIL c1) c2"
  defines "c' \<equiv> patchJump (jump_pos c1) (patchBack start (jump_pos c2) (emitJump OP_JUMP c2))"
  shows "keeps c c'"
    "emitted c c' = emitted c c1 @ jump_bytes OP_JUMP_IF_NIL (int (length (emitted (emitJump OP_JUMP_IF_NIL c1) c2)) + 3) @
       emitted (emitJump OP_JUMP_IF_NIL c1) c2 @ jump_bytes OP_JUMP (int start - int (length (code c2) + 3))"
    "length (code c') = length (code c2) + 3"
    "length (code c2) = length (code c1) + 3 + length (emitted (emitJump OP_JUMP_IF_NIL c1) c2)"
proof -
  let ?b2 = "emitted (emitJump OP_JUMP_IF_NIL c1) c2"
  let ?c3 = "patchBack start (jump_pos c2) (emitJump OP_JUMP c2)"
  have l2: "length (code c2) = length (code c1) + 3 + length ?b2"
    using arg_cong [OF keeps_code [OF assms(2)], of length] by simp
  then show "length (code c2) = length (code c1) + 3 + length ?b2" .
  note d = keeps_patched_jump [OF assms(2) keeps_refl [of "emitJump OP_JUMP c2"], of start]
  have e: "emitted (emitJump OP_JUMP_IF_NIL c1) ?c3 = ?b2 @ jump_bytes OP_JUMP (int start - int (length (code c2) + 3))"
    using d(2) by (simp add: emitted_def)
  show "length (code c') = length (code c2) + 3" by (simp add: c'_def code_patchJump)
  note f = keeps_patched_jump [OF assms(1) d(1), of "length (code c2) + 3"]
  have p: "c' = patchBack (length (code c2) + 3) (jump_pos c1) ?c3"
    by (simp add: c'_def patchJump_def patchBack_def patch_def)
  show "keeps c c'" unfolding p by (rule f(1))
  have "int (length (code c2) + 3) - int (length (code c1) + 3) = int (length ?b2) + 3" using l2 by simp
  then show "emitted c c' = emitted c c1 @ jump_bytes OP_JUMP_IF_NIL (int (length ?b2) + 3) @ ?b2 @
      jump_bytes OP_JUMP (int start - int (length (code c2) + 3))"
    unfolding p f(2) e by simp
qed

text \<open>Behind the opening of a scope.\<close>

lemma opens_keeps_close:
  "opens c c1 \<Longrightarrow> keeps c1 c2 \<Longrightarrow> keeps c (c2\<lparr>locals := take (length (locals c)) (locals c2)\<rparr>)"
  using opens_close [OF opens_trans [OF _ keeps_opens]] .

text \<open>Inversion of the equations of the compiler, form by form.\<close>

lemma compile_if:
  assumes "compile_form E c F_if args t = Compiled c'"
  obtains test yes rest c1 c2 c4 where "args = test # yes # rest" "compileExpr E c test False = Compiled c1"
    "compileExpr E (emitJump OP_JUMP_IF_NIL c1) yes t = Compiled c2"
    "(case rest of [] \<Rightarrow> Compiled (emitOp OP_NIL (patchJump (jump_pos c1) (emitJump OP_JUMP c2)))
      | no # _ \<Rightarrow> compileExpr E (patchJump (jump_pos c1) (emitJump OP_JUMP c2)) no t) = Compiled c4"
    "c' = patchJump (jump_pos c2) c4"
proof -
  obtain test yes rest where "args = test # yes # rest"
    using assms by (auto simp: compile_form.simps [of _ _ F_if] split: list.splits)
  then show thesis using assms that by (auto simp: compile_form.simps [of _ _ F_if] then_c_Compiled Let_def)
qed

lemma compile_when:
  assumes "compile_form E c F_when args t = Compiled c'"
  obtains test where "args = [test]" "compileExpr E c test t = Compiled c'"
  | test body c1 c2 where "args = test # body" "body \<noteq> []" "compileExpr E c test False = Compiled c1"
    "compile_body E (emitJump OP_JUMP_IF_NIL c1) body t = Compiled c2"
    "c' = patchJump (jump_pos c2) (emitOp OP_NIL (patchJump (jump_pos c1) (emitJump OP_JUMP c2)))"
proof (cases args)
  case (Cons test body)
  then show thesis using assms that
    by (cases "body = []") (auto simp: compile_form.simps [of _ _ F_when] then_c_Compiled)
qed (use assms in \<open>simp add: compile_form.simps [of _ _ F_when]\<close>)

lemma compile_while:
  assumes "compile_form E c F_while args t = Compiled c'"
  obtains test body c1 c2 where "args = test # body" "compileExpr E c test False = Compiled c1"
    "compile_discard E (emitJump OP_JUMP_IF_NIL c1) body = Compiled c2"
    "c' = emitOp OP_NIL (patchJump (jump_pos c1) (patchBack (length (code c)) (jump_pos c2) (emitJump OP_JUMP c2)))"
proof (cases args)
  case (Cons test body)
  then show thesis using assms that by (auto simp: compile_form.simps [of _ _ F_while] then_c_Compiled)
qed (use assms in \<open>simp add: compile_form.simps [of _ _ F_while]\<close>)

lemma compile_let:
  assumes "compile_form E c F_let args t = Compiled c'"
  obtains bs body c1 c2 where "args = CELL_EXPRESSION bs # body" "compile_lets E c bs = Compiled c1"
    "(if body = [] then Compiled (emitOp OP_NIL c1) else compile_body E c1 body t) = Compiled c2"
    "c' = c2\<lparr>locals := take (length (locals c)) (locals c2)\<rparr>"
proof -
  obtain bs body where "args = CELL_EXPRESSION bs # body"
    using assms by (auto simp: compile_form.simps [of _ _ F_let] split: list.splits cell.splits)
  then show thesis using assms that by (auto simp: compile_form.simps [of _ _ F_let] then_c_Compiled)
qed

lemma compile_local:
  assumes "compile_form E c F_local args t = Compiled c'"
  obtains vs body c1 c2 where "args = CELL_EXPRESSION vs # body" "compile_locals vs c = Compiled c1"
    "(if body = [] then Compiled (emitOp OP_NIL c1) else compile_body E c1 body t) = Compiled c2"
    "c' = c2\<lparr>locals := take (length (locals c)) (locals c2)\<rparr>"
proof -
  obtain vs body where "args = CELL_EXPRESSION vs # body"
    using assms by (auto simp: compile_form.simps [of _ _ F_local] split: list.splits cell.splits)
  then show thesis using assms that by (auto simp: compile_form.simps [of _ _ F_local] then_c_Compiled)
qed

lemma compile_dotimes:
  assumes "compile_form E c F_dotimes args t = Compiled c'"
  obtains v count more_args body c0 c1 c2 c4 c6 c7 where
    "args = CELL_EXPRESSION (CELL_SYMBOL v # count # more_args) # body" "addLocal None c = Compiled c0"
    "compileExpr E c0 count False = Compiled c1" "addLocal (Some v) (emitStore (length (locals c)) c1) = Compiled c2"
    "c4 = emitOp OP_LT (emitLoad (length (locals c)) (emitLoad (length (locals c1)) (emitStore (length (locals c1)) (emitOp OP_CONST_0 c2))))"
    "(if body = [] then Compiled (emitOp OP_POP (emitOp OP_NIL (emitJump OP_JUMP_IF_NIL c4)))
      else compile_discard E (emitJump OP_JUMP_IF_NIL c4) body) = Compiled c6"
    "c7 = emitStore (length (locals c1)) (emitOp OP_ADD_1 (emitLoad (length (locals c1)) c6))"
    "c' = (let c8 = emitOp OP_NIL (patchJump (jump_pos c4)
             (patchBack (length (code (emitStore (length (locals c1)) (emitOp OP_CONST_0 c2)))) (jump_pos c7) (emitJump OP_JUMP c7)))
           in c8\<lparr>locals := take (length (locals c)) (locals c8)\<rparr>)"
proof -
  obtain v count more_args body where "args = CELL_EXPRESSION (CELL_SYMBOL v # count # more_args) # body"
    using assms by (auto simp: compile_form.simps [of _ _ F_dotimes] split: list.splits cell.splits)
  then show thesis using assms that by (auto simp: compile_form.simps [of _ _ F_dotimes] then_c_Compiled Let_def)
qed

lemma compile_step:
  assumes "compile_form E c (F_step up) args t = Compiled c'"
  obtains v deltas s c1 c3 where "args = v # deltas"
    "(case plain_symbol v of Some s \<Rightarrow> Some s | None \<Rightarrow> quoted_symbol v) = Some s"
    "c1 = (case findLocal s c of Some k \<Rightarrow> emitLoad k c | None \<Rightarrow> emitGlobal OP_LOAD_GLOBAL s c)"
    "(case deltas of [] \<Rightarrow> Compiled (emitOp (if up then OP_ADD_1 else OP_SUB_1) c1)
      | delta # _ \<Rightarrow> then_c (compileExpr E c1 delta False) (\<lambda>c2. Compiled (emitOp (if up then vm_opcode.OP_ADD else OP_SUB) c2))) =
     Compiled c3"
    "c' = emitAssign (findLocal s c) s (emitOp OP_DUP c3)"
proof -
  obtain v deltas s where "args = v # deltas" "(case plain_symbol v of Some s \<Rightarrow> Some s | None \<Rightarrow> quoted_symbol v) = Some s"
    using assms by (cases args) (auto simp: compile_form.simps [of _ _ "F_step up"] split: option.splits)
  then show thesis using assms that by (auto simp: compile_form.simps [of _ _ "F_step up"] then_c_Compiled Let_def)
qed

lemma compile_compare:
  assumes "compile_form E c (F_compare op) args t = Compiled c'"
  obtains a b c1 c2 where "args = [a, b]" "compileExpr E c a False = Compiled c1" "compileExpr E c1 b False = Compiled c2"
    "c' = emitOp op c2"
proof -
  obtain a b where "args = [a, b]"
    using assms by (auto simp: compile_form.simps [of _ _ "F_compare op"] split: list.splits)
  then show thesis using assms that by (auto simp: compile_form.simps [of _ _ "F_compare op"] then_c_Compiled)
qed

lemma compile_form_keeps:
  assumes tidy: "\<And>e. size e < Suc (cells_size args) \<Longrightarrow> tidy E e" and comp: "compile_form E c f args t = Compiled c'"
  shows "keeps c c'"
proof -
  note step = comp [unfolded compile_form.simps [of _ _ f]]
  have tidy': "e \<in> set args \<Longrightarrow> tidy E e" for e using tidy member_size by blast
  have expr: "compileExpr E c0 e t' = Compiled c1 \<Longrightarrow> e \<in> set args \<Longrightarrow> keeps c0 c1" for c0 c1 e t'
    using tidyD tidy' by blast
  have body: "(if es = [] then Compiled (emitOp OP_NIL c0) else compile_body E c0 es t') = Compiled c1 \<Longrightarrow> set es \<subseteq> set args \<Longrightarrow> keeps c0 c1"
    for c0 c1 es t'
    using compile_body_keeps [of es E c0 t' c1] tidy' keeps_emitOp by (auto split: if_splits)
  have discard: "compile_discard E c0 es = Compiled c1 \<Longrightarrow> set es \<subseteq> set args \<Longrightarrow> keeps c0 c1" for c0 c1 es
    using compile_discard_keeps tidy' by blast
  have ops: "then_c (compileExpr E c0 a False) (\<lambda>c1. compile_ops E c1 op es) = Compiled c2 \<Longrightarrow> set (a # es) \<subseteq> set args \<Longrightarrow> keeps c0 c2"
    for c0 c2 a op es
  proof -
    assume a: "then_c (compileExpr E c0 a False) (\<lambda>c1. compile_ops E c1 op es) = Compiled c2" "set (a # es) \<subseteq> set args"
    then obtain c1 where "compileExpr E c0 a False = Compiled c1" "compile_ops E c1 op es = Compiled c2" by (auto simp: then_c_Compiled)
    then show "keeps c0 c2" using keeps_trans expr compile_ops_keeps [of es E c1 op c2] tidy' a(2) by (metis insert_subset list.set(2) subsetD)
  qed
  show ?thesis
  proof (cases f)
    case F_if
    from comp [unfolded this] show ?thesis
    proof (cases rule: compile_if)
      case (1 test yes rest c1 c2 c4)
      have "keeps (patchJump (jump_pos c1) (emitJump OP_JUMP c2)) c4"
        using 1(1,4) expr keeps_emitOp by (cases rest) auto
      then show ?thesis unfolding 1(5) using 1(1-3) expr by (auto intro!: keeps_branches(1))
    qed
  next
    case F_when
    from comp [unfolded this] show ?thesis
    proof (cases rule: compile_when)
      case (1 test)
      then show ?thesis using expr by simp
    next
      case (2 test es c1 c2)
      have k: "keeps c c1" "keeps (emitJump OP_JUMP_IF_NIL c1) c2"
        using expr [OF 2(3)] body [of es _ t c2] 2(1,2,4) by (simp_all add: subset_insertI)
      show ?thesis unfolding 2(5) by (rule keeps_branches(1) [OF k keeps_emitOp])
    qed
  next
    case F_cond
    show ?thesis
    proof (cases "args = []")
      case False
      then have "closes (length (code c')) [] (emitOp OP_NIL c) c'"
        using step F_cond by (intro compile_clauses_closes) (auto intro: tidy simp: pending_def)
      then show ?thesis using keeps_trans [OF keeps_emitOp] by auto
    qed (use step F_cond keeps_emitOp in auto)
  next
    case F_and
    then show ?thesis using step compile_and_closes [of args E "[]" c t c'] tidy' keeps_emitOp
      by (auto simp: pending_def split: if_splits)
  next
    case F_or
    then show ?thesis using step compile_or_closes [of args E "[]" c t c'] tidy' keeps_emitOp
      by (auto simp: pending_def split: if_splits)
  next
    case F_begin
    then show ?thesis using step body by simp
  next
    case F_while
    from comp [unfolded this] show ?thesis
    proof (cases rule: compile_while)
      case (1 test es c1 c2)
      have k: "keeps c c1" "keeps (emitJump OP_JUMP_IF_NIL c1) c2"
        using expr [OF 1(2)] discard [OF 1(3)] 1(1) by (simp_all add: subset_insertI)
      show ?thesis unfolding 1(4) by (rule keeps_trans [OF keeps_loop(1) [OF k] keeps_emitOp])
    qed
  next
    case F_let
    from comp [unfolded this] show ?thesis
    proof (cases rule: compile_let)
      case (1 bs es c1 c2)
      have "opens c c1" by (rule compile_lets_opens [OF _ 1(2)]) (use 1(1) in \<open>auto intro: tidy\<close>)
      moreover have "keeps c1 c2" using body [OF 1(3)] 1(1) by (simp add: subset_insertI)
      ultimately show ?thesis unfolding 1(4) by (rule opens_keeps_close)
    qed
  next
    case F_local
    from comp [unfolded this] show ?thesis
    proof (cases rule: compile_local)
      case (1 vs es c1 c2)
      have "keeps c1 c2" using body [OF 1(3)] 1(1) by (simp add: subset_insertI)
      then show ?thesis unfolding 1(4) using opens_keeps_close compile_locals_opens [OF 1(2)] by blast
    qed
  next
    case F_dotimes
    from comp [unfolded this] show ?thesis
    proof (cases rule: compile_dotimes)
      case (1 v count more_args es c0 c1 c2 c4 c6 c7)
      have count: "keeps c0 c1" by (rule tidyD [OF tidy 1(3)]) (simp add: 1(1))
      have "opens c c2"
        using opens_trans addLocal_opens [OF 1(2)] addLocal_opens [OF 1(4)] keeps_opens [OF keeps_trans [OF count keeps_emitStore]] by blast
      moreover have "keeps c2 c4" unfolding 1(5) by (rule keeps_append) simp_all
      moreover have "keeps (emitJump OP_JUMP_IF_NIL c4) c6"
        using 1(1,6) discard [of "emitJump OP_JUMP_IF_NIL c4" es c6] keeps_trans [OF keeps_emitOp keeps_emitOp, of "emitJump OP_JUMP_IF_NIL c4"]
        by (cases "es = []") (auto simp: subset_insertI)
      then have "keeps (emitJump OP_JUMP_IF_NIL c4) c7"
        unfolding 1(7) by (intro keeps_emit)
      ultimately have "keeps c2 (emitOp OP_NIL (patchJump (jump_pos c4)
             (patchBack (length (code (emitStore (length (locals c1)) (emitOp OP_CONST_0 c2)))) (jump_pos c7) (emitJump OP_JUMP c7))))"
        using keeps_trans [OF keeps_loop(1) keeps_emitOp] by blast
      then show ?thesis unfolding 1(8) Let_def using \<open>opens c c2\<close> opens_keeps_close by blast
    qed
  next
    case (F_assign q)
    then show ?thesis using step compile_assigns_keeps [of args E c q c'] tidy' by simp
  next
    case (F_step up)
    from comp [unfolded this] show ?thesis
    proof (cases rule: compile_step)
      case (1 v deltas s c1 c3)
      have "keeps c c1" unfolding 1(3) by (simp add: keeps_emitLoad keeps_emitGlobal split: option.split)
      moreover have "keeps c1 c3" using 1(1,4) expr by (cases deltas) (auto simp: then_c_Compiled intro!: keeps_emit)
      ultimately show ?thesis unfolding 1(5) by (intro keeps_emit) (rule keeps_trans)
    qed
  next
    case (F_compare op)
    from comp [unfolded this] show ?thesis
    proof (cases rule: compile_compare)
      case (1 a b c1 c2)
      then show ?thesis using keeps_trans [OF expr [OF 1(2)] expr [OF 1(3)]] by (auto intro!: keeps_emit)
    qed
  next
    case F_plus
    show ?thesis
    proof (cases args)
      case (Cons a bs)
      then show ?thesis
        using step F_plus ops [of c a _ bs c'] keeps_trans [OF expr keeps_emitOp, of c a False] compile_ops_keeps [of bs E c OP_ADD_1 c'] tidy'
        by (auto simp: then_c_Compiled split: if_splits)
    qed (use step F_plus keeps_emitOp in auto)
  next
    case F_minus
    show ?thesis
    proof (cases args)
      case (Cons a bs)
      then show ?thesis
        using step F_minus ops [of c a OP_SUB bs c'] keeps_trans [OF expr keeps_emitOp, of c a False]
        by (auto simp: then_c_Compiled split: if_splits)
    qed (use step F_minus in auto)
  next
    case F_times
    then show ?thesis using step ops [of c "hd args" OP_MUL "tl args" c'] keeps_emitOp by (cases args) auto
  next
    case F_divide
    then show ?thesis using step ops [of c "hd args" OP_DIV "tl args" c'] by (cases args; cases "tl args") auto
  next
    case F_self
    then show ?thesis using step compile_args_keeps [of args E c] tidy' by (auto simp: then_c_Compiled intro!: keeps_emit)
  qed (use step in auto)
qed

theorem compile_tidy: "tidy E e"
proof (induction "size e" arbitrary: e rule: less_induct)
  case less
  show ?case unfolding tidy_def
  proof (intro allI impI)
    fix c t c' assume comp: "compileExpr E c e t = Compiled c'"
    note step = comp [unfolded compileExpr.simps [of _ _ e]]
    show "keeps c c'"
    proof (cases e)
      case (CELL_EXPRESSION es)
      show ?thesis
      proof (cases es)
        case (Cons h args)
        let ?f = "case h of CELL_SYMBOL s \<Rightarrow> form_of E (self_symbol c) s | _ \<Rightarrow> F_call"
        have small: "size e' < Suc (cells_size args) \<Longrightarrow> tidy E e'" for e' using less CELL_EXPRESSION Cons by simp
        show ?thesis
        proof (cases "?f = F_call")
          case True
          then obtain c1 c2 where c: "compileExpr E c h False = Compiled c1" "compile_args E c1 args = Compiled c2"
            "c' = emitByte (int (length args)) (emitOp (if t then OP_TAIL_CALL else OP_CALL) c2)"
            using step CELL_EXPRESSION Cons by (auto simp: then_c_Compiled Let_def)
          have "keeps c c1" by (rule tidyD [OF _ c(1)]) (use less CELL_EXPRESSION Cons in simp)
          moreover have "keeps c1 c2" by (rule compile_args_keeps [OF _ c(2)]) (use small member_size in blast)
          ultimately show ?thesis unfolding c(3) by (intro keeps_emit) (rule keeps_trans)
        next
          case False
          then have "compile_form E c ?f args t = Compiled c'" using step CELL_EXPRESSION Cons by (simp add: Let_def)
          then show ?thesis using compile_form_keeps small by blast
        qed
      qed (use step CELL_EXPRESSION keeps_emitOp in auto)
    qed (use step keeps_emitOp keeps_emitLong keeps_emitConst keeps_emitSymbol in auto)
  qed
qed

end
