(* ===== verification/NL_Meaning.thy ===== *)
theory NL_Meaning
  imports NL_VM
begin

text \<open>
  The meaning of the expressions the byte-code compiler accepts, as an evaluator that knows nothing of
  byte code, stacks or jumps: \<open>ev\<close> evaluates an expression in an environment of the local variables,
  \<open>ev_form\<close> a special form, \<open>ev_apply\<close> calls a function. It is the specification of the compiler; where
  \<^verbatim>\<open>nl-vm.c\<close> gives a form another meaning than the interpreter (sequential \<^verbatim>\<open>let\<close>, loops that return nil)
  it follows \<^verbatim>\<open>nl-vm.c\<close>. The number \<open>n\<close> is fuel for rounds of loops and calls. The results: \<open>Value\<close>; \<open>Raises\<close>,
  an error; \<open>Undefined\<close>, an operator the model of the arithmetic gives no result for; \<open>Timeout\<close>, the fuel
  ended; \<open>Outside\<close>, the expression leaves the domain the evaluator describes.
\<close>


section \<open>What compiled code means\<close>

datatype 'a eresult = Value 'a | Raises nl_error | Undefined | Timeout | Outside

fun then_e :: "'a eresult \<Rightarrow> ('a \<Rightarrow> 'b eresult) \<Rightarrow> 'b eresult" where
  "then_e (Value x) f = f x"
| "then_e (Raises e) f = Raises e"
| "then_e Undefined f = Undefined"
| "then_e Timeout f = Timeout"
| "then_e Outside f = Outside"

lemma then_e_cong [fundef_cong]:
  "x = y \<Longrightarrow> (\<And>v. y = Value v \<Longrightarrow> f v = g v) \<Longrightarrow> then_e x f = then_e y g"
  by (cases y) auto

text \<open>Local variables in the order of their slots; a slot without a name belongs to \<^verbatim>\<open>dotimes\<close>, a slot
  without a value has been opened and not yet been set.\<close>

type_synonym env = "(symbol option \<times> cell option) list"

text \<open>What does not change during an evaluation: the host, the global symbols and the symbol a function
  was compiled under.\<close>

record world =
  whost :: host
  wglobals :: globals
  wself :: "cell \<Rightarrow> symbol option"

definition wenv :: "world \<Rightarrow> compile_env" where
  "wenv W = host_env (whost W) (wglobals W)"

definition env_set :: "nat \<Rightarrow> cell \<Rightarrow> env \<Rightarrow> env" where
  "env_set i v env = env[i := (fst (env ! i), Some v)]"

text \<open>An operator that assigned to symbols (through the evaluation of an operand) is outside.\<close>

definition operated :: "((cell \<times> assignments) result) option \<Rightarrow> env \<Rightarrow> (cell \<times> env) eresult" where
  "operated r env =
     (case r of
        None \<Rightarrow> Undefined
      | Some (Inl e) \<Rightarrow> Raises e
      | Some (Inr (v, as)) \<Rightarrow> if as = [] then Value (v, env) else Outside)"

definition binary :: "world \<Rightarrow> vm_opcode \<Rightarrow> cell \<Rightarrow> cell \<Rightarrow> env \<Rightarrow> (cell \<times> env) eresult" where
  "binary W op a b env = operated (vm_binary (whost W) op a b (wglobals W)) env"

definition compared :: "world \<Rightarrow> vm_opcode \<Rightarrow> cell \<Rightarrow> cell \<Rightarrow> cell eresult" where
  "compared W op a b = (case vm_compare (whost W) op a b of Inl e \<Rightarrow> Raises e | Inr v \<Rightarrow> Value v)"

definition outside_call :: "world \<Rightarrow> cell \<Rightarrow> cell list \<Rightarrow> cell eresult" where
  "outside_call W fn args =
     (case vm_fallback (whost W) fn args (wglobals W) of
        Inl e \<Rightarrow> Raises e
      | Inr (it, as) \<Rightarrow> (case val it of Some v \<Rightarrow> if as = [] then Value v else Outside | None \<Rightarrow> Outside))"

fun subcells :: "cell \<Rightarrow> cell list" and subcells_list :: "cell list \<Rightarrow> cell list" where
  "subcells (CELL_QUOTE c) = CELL_QUOTE c # subcells c"
| "subcells (CELL_EXPRESSION cs) = CELL_EXPRESSION cs # subcells_list cs"
| "subcells (CELL_LAMBDA cs) = CELL_LAMBDA cs # subcells_list cs"
| "subcells c = [c]"
| "subcells_list [] = []"
| "subcells_list (c # cs) = subcells c @ subcells_list cs"

text \<open>The jumps of the code fit into 16 bits, its parameters into 8, and the table of constants merges
  no two different literals.\<close>

definition sound_code :: "world \<Rightarrow> cell \<Rightarrow> bytecode \<Rightarrow> bool" where
  "sound_code W fn bc \<longleftrightarrow>
     num_params bc < 256 \<and> length (bcode bc) \<le> 32767 \<and>
     list_all (\<lambda>k. list_all (\<lambda>v. compareCells (hmachine (whost W)) k v = Inr 0 \<longrightarrow> k = v) (subcells fn)) (bconstants bc)"

fun symbols_of :: "cell list \<Rightarrow> symbol list option" where
  "symbols_of [] = Some []"
| "symbols_of (CELL_SYMBOL s # vs) = map_option (Cons s) (symbols_of vs)"
| "symbols_of (_ # vs) = None"

function ev :: "world \<Rightarrow> cell \<Rightarrow> nat \<Rightarrow> env \<Rightarrow> cell \<Rightarrow> (cell \<times> env) eresult"
  and ev_form :: "world \<Rightarrow> cell \<Rightarrow> nat \<Rightarrow> env \<Rightarrow> form \<Rightarrow> cell list \<Rightarrow> (cell \<times> env) eresult"
  and ev_body :: "world \<Rightarrow> cell \<Rightarrow> nat \<Rightarrow> env \<Rightarrow> cell list \<Rightarrow> (cell \<times> env) eresult"
  and ev_discard :: "world \<Rightarrow> cell \<Rightarrow> nat \<Rightarrow> env \<Rightarrow> cell list \<Rightarrow> env eresult"
  and ev_clauses :: "world \<Rightarrow> cell \<Rightarrow> nat \<Rightarrow> env \<Rightarrow> cell \<Rightarrow> cell list \<Rightarrow> (cell \<times> env) eresult"
  and ev_and :: "world \<Rightarrow> cell \<Rightarrow> nat \<Rightarrow> env \<Rightarrow> cell list \<Rightarrow> (cell \<times> env) eresult"
  and ev_or :: "world \<Rightarrow> cell \<Rightarrow> nat \<Rightarrow> env \<Rightarrow> cell list \<Rightarrow> (cell \<times> env) eresult"
  and ev_while :: "world \<Rightarrow> cell \<Rightarrow> nat \<Rightarrow> env \<Rightarrow> cell \<Rightarrow> cell list \<Rightarrow> env eresult"
  and ev_dotimes :: "world \<Rightarrow> cell \<Rightarrow> nat \<Rightarrow> env \<Rightarrow> nat \<Rightarrow> cell list \<Rightarrow> env eresult"
  and ev_lets :: "world \<Rightarrow> cell \<Rightarrow> nat \<Rightarrow> env \<Rightarrow> cell list \<Rightarrow> env eresult"
  and ev_assigns :: "world \<Rightarrow> cell \<Rightarrow> nat \<Rightarrow> env \<Rightarrow> bool \<Rightarrow> cell list \<Rightarrow> (cell \<times> env) eresult"
  and ev_ops :: "world \<Rightarrow> cell \<Rightarrow> nat \<Rightarrow> env \<Rightarrow> vm_opcode \<Rightarrow> cell \<Rightarrow> cell list \<Rightarrow> (cell \<times> env) eresult"
  and ev_args :: "world \<Rightarrow> cell \<Rightarrow> nat \<Rightarrow> env \<Rightarrow> cell list \<Rightarrow> (cell list \<times> env) eresult"
  and ev_apply :: "world \<Rightarrow> nat \<Rightarrow> cell \<Rightarrow> cell list \<Rightarrow> cell eresult" where
  "ev W me n env e =
     (case e of
        CELL_NIL \<Rightarrow> Value (CELL_NIL, env)
      | CELL_TRUE \<Rightarrow> Value (CELL_TRUE, env)
      | CELL_LONG i \<Rightarrow> Value (CELL_LONG i, env)
      | CELL_FLOAT d \<Rightarrow> Value (CELL_FLOAT d, env)
      | CELL_STRING s \<Rightarrow> Value (CELL_STRING s, env)
      | CELL_QUOTE v \<Rightarrow> Value (v, env)
      | CELL_SYMBOL s \<Rightarrow>
          (case last_index s (map fst env) of
             Some i \<Rightarrow> (case snd (env ! i) of Some v \<Rightarrow> Value (v, env) | None \<Rightarrow> Outside)
           | None \<Rightarrow> Value (if wself W me = Some s \<or> sname s = ''self'' then me else wglobals W s, env))
      | CELL_EXPRESSION es \<Rightarrow>
          (case es of
             [] \<Rightarrow> Value (CELL_NIL, env)
           | h # args \<Rightarrow>
               let f = (case h of CELL_SYMBOL s \<Rightarrow> form_of (wenv W) (wself W me) s | _ \<Rightarrow> F_call)
               in if f = F_call
                  then then_e (ev W me n env h) (\<lambda>(fn, env1).
                       then_e (ev_args W me n env1 args) (\<lambda>(vs, env2).
                       if length args < 256
                       then then_e (ev_apply W n fn vs) (\<lambda>v. Value (v, env2)) else Outside))
                  else ev_form W me n env f args)
      | _ \<Rightarrow> Outside)"
| "ev_form W me n env f args =
     (case f of
        F_if \<Rightarrow>
          (case args of
             test # yes # rest \<Rightarrow>
               then_e (ev W me n env test) (\<lambda>(v, env1).
               if cond_nil v then (case rest of [] \<Rightarrow> Value (CELL_NIL, env1) | no # _ \<Rightarrow> ev W me n env1 no)
               else ev W me n env1 yes)
           | _ \<Rightarrow> Outside)
      | F_when \<Rightarrow>
          (case args of
             [] \<Rightarrow> Outside
           | test # body \<Rightarrow>
               then_e (ev W me n env test) (\<lambda>(v, env1).
               if body = [] then Value (v, env1)
               else if cond_nil v then Value (CELL_NIL, env1)
               else ev_body W me n env1 body))
      | F_cond \<Rightarrow> ev_clauses W me n env CELL_NIL args
      | F_and \<Rightarrow> if args = [] then Value (CELL_TRUE, env) else ev_and W me n env args
      | F_or \<Rightarrow> if args = [] then Value (CELL_NIL, env) else ev_or W me n env args
      | F_begin \<Rightarrow> ev_body W me n env args
      | F_while \<Rightarrow>
          (case args of
             [] \<Rightarrow> Outside
           | test # body \<Rightarrow> then_e (ev_while W me n env test body) (\<lambda>env1. Value (CELL_NIL, env1)))
      | F_let \<Rightarrow>
          (case args of
             CELL_EXPRESSION bs # body \<Rightarrow>
               then_e (ev_lets W me n env bs) (\<lambda>env1.
               then_e (ev_body W me n env1 body) (\<lambda>(v, env2). Value (v, take (length env) env2)))
           | _ \<Rightarrow> Outside)
      | F_local \<Rightarrow>
          (case args of
             CELL_EXPRESSION vs # body \<Rightarrow>
               (case symbols_of vs of
                  None \<Rightarrow> Outside
                | Some ss \<Rightarrow>
                    then_e (ev_body W me n (env @ map (\<lambda>s. (Some s, Some CELL_NIL)) ss) body) (\<lambda>(v, env2).
                    Value (v, take (length env) env2)))
           | _ \<Rightarrow> Outside)
      | F_dotimes \<Rightarrow>
          (case args of
             CELL_EXPRESSION (CELL_SYMBOL v # count # _) # body \<Rightarrow>
               then_e (ev W me n (env @ [(None, None)]) count) (\<lambda>(k, env1).
               then_e (ev_dotimes W me n (env_set (length env) k env1 @ [(Some v, Some (CELL_LONG 0))]) (length env) body)
                 (\<lambda>env2. Value (CELL_NIL, take (length env) env2)))
           | _ \<Rightarrow> Outside)
      | F_assign setq \<Rightarrow> ev_assigns W me n env setq args
      | F_step up \<Rightarrow>
          (case args of
             [] \<Rightarrow> Outside
           | v # deltas \<Rightarrow>
               (case (case plain_symbol v of Some s \<Rightarrow> Some s | None \<Rightarrow> quoted_symbol v) of
                  None \<Rightarrow> Outside
                | Some s \<Rightarrow>
                    (case last_index s (map fst env) of
                       None \<Rightarrow> Outside
                     | Some i \<Rightarrow>
                         (case snd (env ! i) of
                            None \<Rightarrow> Outside
                          | Some x \<Rightarrow>
                              then_e (case deltas of
                                        [] \<Rightarrow> binary W (if up then vm_opcode.OP_ADD else OP_SUB) x (CELL_LONG 1) env
                                      | delta # _ \<Rightarrow>
                                          then_e (ev W me n env delta) (\<lambda>(d, env1).
                                          binary W (if up then vm_opcode.OP_ADD else OP_SUB) x d env1))
                                (\<lambda>(y, env2). Value (y, env_set i y env2))))))
      | F_compare op \<Rightarrow>
          (case args of
             [a, b] \<Rightarrow>
               then_e (ev W me n env a) (\<lambda>(x, env1).
               then_e (ev W me n env1 b) (\<lambda>(y, env2).
               then_e (compared W op x y) (\<lambda>v. Value (v, env2))))
           | _ \<Rightarrow> Outside)
      | F_plus \<Rightarrow>
          (case args of
             [] \<Rightarrow> Value (CELL_LONG 0, env)
           | a # bs \<Rightarrow>
               if length bs = 1 \<and> is_long 1 a \<and> \<not> is_long 1 (hd bs)
               then (case bs of b # _ \<Rightarrow> then_e (ev W me n env b) (\<lambda>(x, env1). binary W vm_opcode.OP_ADD x (CELL_LONG 1) env1)
                     | _ \<Rightarrow> Outside)
               else then_e (ev W me n env a) (\<lambda>(x, env1). ev_ops W me n env1 vm_opcode.OP_ADD x bs))
      | F_minus \<Rightarrow>
          (case args of
             [] \<Rightarrow> Outside
           | a # bs \<Rightarrow>
               then_e (ev W me n env a) (\<lambda>(x, env1).
               if bs = [] then operated (vm_negate (whost W) x (wglobals W)) env1
               else ev_ops W me n env1 OP_SUB x bs))
      | F_times \<Rightarrow>
          (case args of
             [] \<Rightarrow> Value (CELL_LONG 1, env)
           | a # bs \<Rightarrow> then_e (ev W me n env a) (\<lambda>(x, env1). ev_ops W me n env1 OP_MUL x bs))
      | F_divide \<Rightarrow>
          (case args of
             a # b # bs \<Rightarrow> then_e (ev W me n env a) (\<lambda>(x, env1). ev_ops W me n env1 OP_DIV x (b # bs))
           | _ \<Rightarrow> Outside)
      | F_self \<Rightarrow>
          then_e (ev_args W me n env args) (\<lambda>(vs, env1).
          if length args < 256 then then_e (ev_apply W n me vs) (\<lambda>v. Value (v, env1)) else Outside)
      | _ \<Rightarrow> Outside)"
| "ev_body W me n env es =
     (case es of
        [] \<Rightarrow> Value (CELL_NIL, env)
      | e # rest \<Rightarrow>
          if rest = [] then ev W me n env e
          else then_e (ev W me n env e) (\<lambda>(_, env1). ev_body W me n env1 rest))"
| "ev_discard W me n env es =
     (case es of
        [] \<Rightarrow> Value env
      | e # rest \<Rightarrow> then_e (ev W me n env e) (\<lambda>(_, env1). ev_discard W me n env1 rest))"
| "ev_clauses W me n env v cs =
     (case cs of
        [] \<Rightarrow> Value (v, env)
      | CELL_EXPRESSION es # rest \<Rightarrow>
          (case es of
             [] \<Rightarrow> ev_clauses W me n env v rest
           | test # body \<Rightarrow>
               then_e (ev W me n env test) (\<lambda>(x, env1).
               if cond_nil x then ev_clauses W me n env1 x rest
               else if body = [] then Value (x, env1)
               else ev_body W me n env1 body))
      | _ \<Rightarrow> Outside)"
| "ev_and W me n env args =
     (case args of
        [] \<Rightarrow> Outside
      | a # rest \<Rightarrow>
          if rest = [] then ev W me n env a
          else then_e (ev W me n env a) (\<lambda>(v, env1).
               if cond_nil v then Value (CELL_NIL, env1) else ev_and W me n env1 rest))"
| "ev_or W me n env args =
     (case args of
        [] \<Rightarrow> Outside
      | a # rest \<Rightarrow>
          if rest = [] then ev W me n env a
          else then_e (ev W me n env a) (\<lambda>(v, env1).
               if cond_nil v then ev_or W me n env1 rest else Value (v, env1)))"
| "ev_while W me n env test body =
     then_e (ev W me n env test) (\<lambda>(v, env1).
     if cond_nil v then Value env1
     else then_e (ev_discard W me n env1 body) (\<lambda>env2.
          case n of 0 \<Rightarrow> Timeout | Suc m \<Rightarrow> ev_while W me m env2 test body))"
| "ev_dotimes W me n env i body =
     (case (snd (env ! Suc i), snd (env ! i)) of
        (Some x, Some k) \<Rightarrow>
          then_e (compared W OP_LT x k) (\<lambda>v.
          if cond_nil v then Value env
          else then_e (ev_discard W me n env body) (\<lambda>env1.
               case snd (env1 ! Suc i) of
                 None \<Rightarrow> Outside
               | Some y \<Rightarrow>
                   then_e (binary W vm_opcode.OP_ADD y (CELL_LONG 1) env1) (\<lambda>(z, _).
                   case n of 0 \<Rightarrow> Timeout | Suc m \<Rightarrow> ev_dotimes W me m (env_set (Suc i) z env1) i body)))
      | _ \<Rightarrow> Outside)"
| "ev_lets W me n env bs =
     (case bs of
        [] \<Rightarrow> Value env
      | CELL_EXPRESSION ps # rest \<Rightarrow>
          (case pair_binding ps of
             None \<Rightarrow> Outside
           | Some (s, e) \<Rightarrow>
               then_e (ev W me n (env @ [(Some s, None)]) e) (\<lambda>(v, env1).
               ev_lets W me n (env_set (length env) v env1) rest))
      | CELL_SYMBOL s # vs \<Rightarrow>
          (case vs of
             [] \<Rightarrow> Value (env @ [(Some s, Some CELL_NIL)])
           | e # rest \<Rightarrow>
               then_e (ev W me n (env @ [(Some s, None)]) e) (\<lambda>(v, env1).
               ev_lets W me n (env_set (length env) v env1) rest))
      | _ \<Rightarrow> Outside)"
| "ev_assigns W me n env setq args =
     (case args of
        v # e # rest \<Rightarrow>
          (case (if setq then plain_symbol v else quoted_symbol v) of
             None \<Rightarrow> Outside
           | Some s \<Rightarrow>
               (case last_index s (map fst env) of
                  None \<Rightarrow> Outside
                | Some i \<Rightarrow>
                    then_e (ev W me n env e) (\<lambda>(x, env1).
                    if rest = [] then Value (x, env_set i x env1)
                    else ev_assigns W me n (env_set i x env1) setq rest)))
      | _ \<Rightarrow> Outside)"
| "ev_ops W me n env op x args =
     (case args of
        [] \<Rightarrow> Value (x, env)
      | a # rest \<Rightarrow>
          then_e (ev W me n env a) (\<lambda>(y, env1).
          then_e (binary W op x y env1) (\<lambda>(z, env2). ev_ops W me n env2 op z rest)))"
| "ev_args W me n env args =
     (case args of
        [] \<Rightarrow> Value ([], env)
      | a # rest \<Rightarrow>
          then_e (ev W me n env a) (\<lambda>(v, env1).
          then_e (ev_args W me n env1 rest) (\<lambda>(vs, env2). Value (v # vs, env2))))"
| "ev_apply W n fn args =
     (case fn of
        CELL_LAMBDA (CELL_EXPRESSION params # body) \<Rightarrow>
          (case (compileLambda (wenv W) fn (wself W fn), parse_params params False [] 0) of
             (Compiled bc, Compiled (ls, _)) \<Rightarrow>
               if \<not> sound_code W fn bc then Outside
               else (case n of
                       0 \<Rightarrow> Timeout
                     | Suc m \<Rightarrow>
                         then_e (ev_body W fn m (zip ls (map Some (args @ replicate (length ls) CELL_NIL))) body) (\<lambda>(v, _). Value v))
           | (Raised e, _) \<Rightarrow> Raises e
           | _ \<Rightarrow> outside_call W fn args)
      | _ \<Rightarrow> outside_call W fn args)"
  by pat_completeness auto

termination
  by (relation "measures
     [\<lambda>x. case x of
         Inl (Inl (Inl (W, me, n, env, e))) \<Rightarrow> n
       | Inl (Inl (Inr (Inl (W, me, n, env, f, es)))) \<Rightarrow> n
       | Inl (Inl (Inr (Inr (W, me, n, env, es)))) \<Rightarrow> n
       | Inl (Inr (Inl (Inl (W, me, n, env, es)))) \<Rightarrow> n
       | Inl (Inr (Inl (Inr (W, me, n, env, v, es)))) \<Rightarrow> n
       | Inl (Inr (Inr (Inl (W, me, n, env, es)))) \<Rightarrow> n
       | Inl (Inr (Inr (Inr (W, me, n, env, es)))) \<Rightarrow> n
       | Inr (Inl (Inl (W, me, n, env, e, es))) \<Rightarrow> n
       | Inr (Inl (Inr (Inl (W, me, n, env, i, es)))) \<Rightarrow> n
       | Inr (Inl (Inr (Inr (W, me, n, env, es)))) \<Rightarrow> n
       | Inr (Inr (Inl (Inl (W, me, n, env, q, es)))) \<Rightarrow> n
       | Inr (Inr (Inl (Inr (W, me, n, env, op, x, es)))) \<Rightarrow> n
       | Inr (Inr (Inr (Inl (W, me, n, env, es)))) \<Rightarrow> n
       | Inr (Inr (Inr (Inr (W, n, fn, args)))) \<Rightarrow> n,
      \<lambda>x. case x of
         Inl (Inl (Inl (W, me, n, env, e))) \<Rightarrow> size e
       | Inl (Inl (Inr (Inl (W, me, n, env, f, es)))) \<Rightarrow> Suc (cells_size es)
       | Inl (Inl (Inr (Inr (W, me, n, env, es)))) \<Rightarrow> cells_size es
       | Inl (Inr (Inl (Inl (W, me, n, env, es)))) \<Rightarrow> cells_size es
       | Inl (Inr (Inl (Inr (W, me, n, env, v, es)))) \<Rightarrow> cells_size es
       | Inl (Inr (Inr (Inl (W, me, n, env, es)))) \<Rightarrow> cells_size es
       | Inl (Inr (Inr (Inr (W, me, n, env, es)))) \<Rightarrow> cells_size es
       | Inr (Inl (Inl (W, me, n, env, e, es))) \<Rightarrow> Suc (size e + cells_size es)
       | Inr (Inl (Inr (Inl (W, me, n, env, i, es)))) \<Rightarrow> Suc (cells_size es)
       | Inr (Inl (Inr (Inr (W, me, n, env, es)))) \<Rightarrow> cells_size es
       | Inr (Inr (Inl (Inl (W, me, n, env, q, es)))) \<Rightarrow> cells_size es
       | Inr (Inr (Inl (Inr (W, me, n, env, op, x, es)))) \<Rightarrow> cells_size es
       | Inr (Inr (Inr (Inl (W, me, n, env, es)))) \<Rightarrow> cells_size es
       | Inr (Inr (Inr (Inr (W, n, fn, args)))) \<Rightarrow> 0]")
     (auto dest!: binding_smaller simp: Let_def)

declare ev.simps [simp del] ev_form.simps [simp del] ev_body.simps [simp del] ev_discard.simps [simp del]
  ev_clauses.simps [simp del] ev_and.simps [simp del] ev_or.simps [simp del] ev_while.simps [simp del]
  ev_dotimes.simps [simp del] ev_lets.simps [simp del] ev_assigns.simps [simp del] ev_ops.simps [simp del]
  ev_args.simps [simp del] ev_apply.simps [simp del]

end
