(* ===== verification/NL_Runs.thy ===== *)
theory NL_Runs
  imports NL_Emit NL_Meaning
begin

text \<open>
  Rules for runs of the byte-code machine. \<open>vm_at\<close> relates a machine state to the environment and the
  pending operands of an evaluation; \<open>goes\<close> is one instruction between two such states, \<open>leads\<close> a run
  that does what a result of the reference evaluator says, with rules for composing runs and for
  calls and returns.
\<close>

section \<open>Code and machine states\<close>

definition code_at :: "int list \<Rightarrow> nat \<Rightarrow> int list \<Rightarrow> bool" where
  "code_at C pc bs \<longleftrightarrow> take (length bs) (drop pc C) = bs"

lemma code_at_Nil [simp]: "code_at C pc []"
  by (simp add: code_at_def)

lemma code_at_append [simp]: "code_at C pc (as @ bs) \<longleftrightarrow> code_at C pc as \<and> code_at C (pc + length as) bs"
  by (auto simp: code_at_def take_add add.commute append_eq_append_conv_if min_def)

lemma code_at_Cons: "code_at C pc (b # bs) \<longleftrightarrow> pc < length C \<and> C ! pc = b \<and> code_at C (Suc pc) bs"
proof -
  have "code_at C pc [b] \<longleftrightarrow> pc < length C \<and> C ! pc = b"
    by (cases "pc < length C") (auto simp: code_at_def Cons_nth_drop_Suc [symmetric])
  then show ?thesis using code_at_append [of C pc "[b]" bs] by simp
qed

definition good_aux :: "world \<Rightarrow> (cell \<Rightarrow> bytecode option) \<Rightarrow> bool" where
  "good_aux W a \<longleftrightarrow>
     (\<forall>fn. case a fn of Some bc \<Rightarrow> compileLambda (wenv W) fn (wself W fn) = Compiled bc | None \<Rightarrow> wself W fn = None)"

record ctx =
  kbase :: "item list"
  kcode :: bytecode
  kself :: item
  kcallers :: "vm_frame list"
  ksize :: nat

definition frame_ok :: "world \<Rightarrow> ctx \<Rightarrow> cell \<Rightarrow> bool" where
  "frame_ok W K me \<longleftrightarrow>
     val (kself K) = Some me \<and> compileLambda (wenv W) me (wself W me) = Compiled (kcode K) \<and> sound_code W me (kcode K) \<and>
     num_locals (kcode K) \<le> ksize K"

definition slot_ok :: "symbol option \<times> cell option \<Rightarrow> item \<Rightarrow> bool" where
  "slot_ok x it \<longleftrightarrow> (case snd x of None \<Rightarrow> True | Some v \<Rightarrow> val it = Some v)"

definition stack_at :: "ctx \<Rightarrow> env \<Rightarrow> cell list \<Rightarrow> item list \<Rightarrow> bool" where
  "stack_at K env ts st \<longleftrightarrow>
     (\<exists>es js is. st = kbase K @ es @ js @ is \<and> list_all2 slot_ok env es \<and> length es + length js = ksize K \<and>
        map val is = map Some ts)"

definition vm_at :: "world \<Rightarrow> ctx \<Rightarrow> symbol option list \<Rightarrow> nat \<Rightarrow> env \<Rightarrow> cell list \<Rightarrow> vm \<Rightarrow> bool" where
  "vm_at W K ns pc env ts m \<longleftrightarrow>
     map fst env = ns \<and> stack_at K env ts (vm_stack m) \<and>
     (\<exists>i. vm_frames m = \<lparr>fbytecode = kcode K, fip = i, ffp = length (kbase K), fself = kself K\<rparr> # kcallers K) \<and>
     vm_ip m = pc \<and> vm_globals m = wglobals W \<and> good_aux W (vm_aux m)"

lemma vm_at_ip [simp]: "vm_at W K ns pc env ts (m\<lparr>vm_ip := q\<rparr>) \<longleftrightarrow> q = pc \<and> vm_at W K ns (vm_ip m) env ts m"
  by (auto simp: vm_at_def)

lemma vm_at_pc: "vm_at W K ns pc env ts m \<Longrightarrow> vm_ip m = pc"
  by (simp add: vm_at_def)

lemma stack_at_push: "stack_at K env ts st \<Longrightarrow> val it = Some v \<Longrightarrow> stack_at K env (ts @ [v]) (st @ [it])"
  unfolding stack_at_def by (force intro: exI [of _ "xs @ [it]" for xs])

lemma stack_at_pop:
  assumes "stack_at K env (ts @ [v]) st"
  shows "st \<noteq> [] \<and> val (last st) = Some v \<and> stack_at K env ts (butlast st)"
proof -
  obtain es js "is" where s: "st = kbase K @ es @ js @ is" "list_all2 slot_ok env es" "length es + length js = ksize K"
    "map val is = map Some (ts @ [v])"
    using assms unfolding stack_at_def by blast
  then obtain is' it where i: "is = is' @ [it]" "map val is' = map Some ts" "val it = Some v"
    by (cases "is" rule: rev_cases) auto
  then have "stack_at K env ts (kbase K @ es @ js @ is')" unfolding stack_at_def using s by blast
  then show ?thesis using s i by (simp add: butlast_append)
qed

lemma stack_at_slot:
  assumes "stack_at K env ts st" "i < length env"
  shows "length (kbase K) + i < length st \<and> slot_ok (env ! i) (st ! (length (kbase K) + i))"
  using assms unfolding stack_at_def by (auto simp: nth_append list_all2_conv_all_nth)

lemma stack_at_set:
  assumes "stack_at K env ts st" "i < length env" "val it = Some v"
  shows "stack_at K (env_set i v env) ts (st[length (kbase K) + i := it])"
proof -
  obtain es js "is" where s: "st = kbase K @ es @ js @ is" "list_all2 slot_ok env es" "length es + length js = ksize K"
    "map val is = map Some ts"
    using assms(1) unfolding stack_at_def by blast
  have "list_all2 slot_ok (env_set i v env) (es[i := it])"
    unfolding env_set_def by (rule list_all2_update_cong) (use s(2) assms(3) in \<open>auto simp: slot_ok_def\<close>)
  moreover have "st[length (kbase K) + i := it] = kbase K @ es[i := it] @ js @ is"
    using s(1,2) assms(2) by (simp add: list_update_append list_all2_lengthD)
  ultimately show ?thesis unfolding stack_at_def using s(3,4) by (metis length_list_update)
qed

lemma env_set_names [simp]: "map fst (env_set i v env) = map fst env"
  unfolding env_set_def by (cases "i < length env") (simp_all add: map_update list_update_same_conv list_update_beyond)

lemma length_env_set [simp]: "length (env_set i v env) = length env"
  by (simp add: env_set_def)

text \<open>A local comes into scope in a free slot, and goes out of scope.\<close>

lemma stack_at_open:
  assumes "stack_at K env ts st" "length env < ksize K"
  shows "stack_at K (env @ [(x, None)]) ts st"
proof -
  obtain es js "is" where s: "st = kbase K @ es @ js @ is" "list_all2 slot_ok env es" "length es + length js = ksize K"
    "map val is = map Some ts"
    using assms(1) unfolding stack_at_def by blast
  then obtain j js' where j: "js = j # js'"
    using assms(2) list_all2_lengthD [OF s(2)] by (cases js) auto
  have "list_all2 slot_ok (env @ [(x, None)]) (es @ [j])"
    using s(2) by (simp add: list_all2_appendI slot_ok_def)
  then show ?thesis unfolding stack_at_def
    by (intro exI [of _ "es @ [j]"] exI [of _ js'] exI [of _ "is"]) (use s j in simp)
qed

lemma stack_at_close:
  assumes "stack_at K env ts st"
  shows "stack_at K (take k env) ts st"
proof -
  obtain es js "is" where s: "st = kbase K @ es @ js @ is" "list_all2 slot_ok env es" "length es + length js = ksize K"
    "map val is = map Some ts"
    using assms(1) unfolding stack_at_def by blast
  then show ?thesis unfolding stack_at_def
    by (intro exI [of _ "take k es"] exI [of _ "drop k es @ js"] exI [of _ "is"]) (auto simp: list_all2_takeI)
qed

section \<open>Single instructions\<close>

definition goes :: "world \<Rightarrow> (vm \<Rightarrow> bool) \<Rightarrow> (vm \<Rightarrow> bool) \<Rightarrow> bool" where
  "goes W P Q \<longleftrightarrow> (\<forall>m. P m \<longrightarrow> (\<exists>m'. vm_step (whost W) m = Running m' \<and> Q m'))"

lemma goesI: "(\<And>m. P m \<Longrightarrow> \<exists>m'. vm_step (whost W) m = Running m' \<and> Q m') \<Longrightarrow> goes W P Q"
  by (simp add: goes_def)

definition live :: "ctx \<Rightarrow> bool" where
  "live K \<longleftrightarrow> kself K \<noteq> Dangling"

lemma frame_ok_live: "frame_ok W K me \<Longrightarrow> live K"
  by (auto simp: frame_ok_def live_def)

lemma fetch_at:
  assumes "vm_at W K ns pc env ts m" "live K" "code_at (bcode (kcode K)) q [b]"
  shows "vm_fetch (m\<lparr>vm_ip := q'\<rparr>) q = Some b" "vm_fetch m q = Some b"
  using assms by (auto simp: vm_at_def vm_fetch_def live_def code_at_Cons)

lemma step_at:
  assumes "vm_at W K ns pc env ts m" "live K" "code_at (bcode (kcode K)) pc (op_byte op # bs)"
  shows "vm_step H m = vm_dispatch H op (m\<lparr>vm_ip := pc + 1\<rparr>)"
proof -
  have "code_at (bcode (kcode K)) pc [op_byte op]" using assms(3) by (simp add: code_at_Cons)
  from fetch_at(2) [OF assms(1,2) this] show ?thesis
    using vm_at_pc [OF assms(1)] by (simp add: vm_step_def)
qed

lemma operand_at:
  assumes "vm_at W K ns pc env ts m" "live K" "code_at (bcode (kcode K)) pc [b, lo, hi]"
  shows "vm_operand (m\<lparr>vm_ip := Suc pc\<rparr>) f = f (lo + 256 * hi) (m\<lparr>vm_ip := pc + 3\<rparr>)"
proof -
  have "code_at (bcode (kcode K)) (Suc pc) [lo]" "code_at (bcode (kcode K)) (Suc (Suc pc)) [hi]"
    using assms(3) by (simp_all add: code_at_Cons)
  then show ?thesis using fetch_at(1) [OF assms(1,2)] by (simp add: vm_operand_def eval_nat_numeral)
qed

lemma push_at:
  "vm_at W K ns pc env ts m \<Longrightarrow> val it = Some v \<Longrightarrow> vm_at W K ns q env (ts @ [v]) (vm_push it (m\<lparr>vm_ip := q\<rparr>))"
  by (auto simp: vm_at_def vm_push_def stack_at_push)

lemma pop_at:
  assumes "vm_at W K ns pc env (ts @ [v]) m"
  obtains it m' where "vm_at W K ns pc env ts m'" "val it = Some v" "\<And>f. vm_pop m f = f it m'"
    "\<And>f. vm_pop_cell m f = f v m'" "m' = m\<lparr>vm_stack := butlast (vm_stack m)\<rparr>"
proof -
  have s: "vm_stack m \<noteq> []" "val (last (vm_stack m)) = Some v" "stack_at K env ts (butlast (vm_stack m))"
    using assms stack_at_pop unfolding vm_at_def by blast+
  have a: "vm_at W K ns pc env ts (m\<lparr>vm_stack := butlast (vm_stack m)\<rparr>)"
    using assms s(3) by (simp add: vm_at_def)
  show thesis using that [OF a s(2)] s(1,2) by (simp add: vm_pop_cell_def vm_pop_def)
qed

lemma goes_push:
  assumes "live K" "code_at (bcode (kcode K)) pc [op_byte op]" "val it = Some v"
    "\<And>m. vm_dispatch (whost W) op m = Running (vm_push it m)"
  shows "goes W (vm_at W K ns pc env ts) (vm_at W K ns (pc + 1) env (ts @ [v]))"
  by (rule goesI) (use step_at [OF _ assms(1,2)] push_at [OF _ assms(3)] assms(4) in auto)

lemma goes_self:
  assumes "live K" "code_at (bcode (kcode K)) pc [op_byte OP_LOAD_SELF]" "val (kself K) = Some me"
  shows "goes W (vm_at W K ns pc env ts) (vm_at W K ns (pc + 1) env (ts @ [me]))"
proof (rule goesI)
  fix m assume a: "vm_at W K ns pc env ts m"
  then have "fself (current_frame m) = kself K" by (auto simp: vm_at_def current_frame_def)
  then show "\<exists>m'. vm_step (whost W) m = Running m' \<and> vm_at W K ns (pc + 1) env (ts @ [me]) m'"
    using step_at [OF a assms(1,2)] push_at [OF a assms(3)] by (auto simp: vm_dispatch_simps current_frame_def)
qed

lemma goes_pop:
  assumes "live K" "code_at (bcode (kcode K)) pc [op_byte OP_POP]"
  shows "goes W (vm_at W K ns pc env (ts @ [v])) (vm_at W K ns (pc + 1) env ts)"
proof (rule goesI)
  fix m assume a: "vm_at W K ns pc env (ts @ [v]) m"
  then have "vm_at W K ns (pc + 1) env (ts @ [v]) (m\<lparr>vm_ip := pc + 1\<rparr>)" using vm_at_pc [OF a] by simp
  from pop_at [OF this] show "\<exists>m'. vm_step (whost W) m = Running m' \<and> vm_at W K ns (pc + 1) env ts m'"
    unfolding step_at [OF a assms] vm_dispatch_simps by metis
qed

text \<open>Operands in the code.\<close>

lemma length_u16 [simp]: "length (u16 v) = 2"
  by (simp add: u16_def)

lemma length_jump_bytes [simp]: "length (jump_bytes op off) = 3"
  by (simp add: jump_bytes_def)

lemma u16_mod: "v mod 65536 mod 256 + 256 * (v mod 65536 div 256 mod 256) = v mod (65536::int)"
proof -
  let ?w = "v mod 65536"
  have "?w div 256 mod 256 = ?w div 256" by (rule mod_pos_pos_trivial) (simp_all add: div_less_if_less_mult)
  then show ?thesis using mod_div_mult_eq [of ?w 256] by (simp add: mult.commute)
qed

lemma u16_value: "0 \<le> v \<Longrightarrow> v < 65536 \<Longrightarrow> v mod 65536 mod 256 + 256 * (v mod 65536 div 256 mod 256) = (v::int)"
  unfolding u16_mod by (rule mod_pos_pos_trivial)

lemma u16_int16:
  assumes "- 32768 \<le> v" "v < 32768"
  shows "int16 (v mod 65536 mod 256 + 256 * (v mod 65536 div 256 mod 256)) = v"
proof -
  have "(v + 32768) mod 65536 = v + 32768" by (rule mod_pos_pos_trivial) (use assms in auto)
  then show ?thesis unfolding u16_mod int16_def by (simp add: mod_add_left_eq)
qed

text \<open>Popping on a state that has just moved on.\<close>

lemma pop_next:
  assumes "vm_at W K ns pc env (ts @ [v]) m"
  obtains it m' where "\<And>r. vm_at W K ns r env ts (m'\<lparr>vm_ip := r\<rparr>)" "val it = Some v"
    "\<And>f. vm_pop (m\<lparr>vm_ip := q\<rparr>) f = f it (m'\<lparr>vm_ip := q\<rparr>)"
    "\<And>f. vm_pop_cell (m\<lparr>vm_ip := q\<rparr>) f = f v (m'\<lparr>vm_ip := q\<rparr>)"
    "vm_at W K ns pc env ts m'"
proof -
  have "vm_at W K ns q env (ts @ [v]) (m\<lparr>vm_ip := q\<rparr>)" using vm_at_pc [OF assms] assms by simp
  from pop_at [OF this] obtain it m' where p: "vm_at W K ns q env ts m'" "val it = Some v"
    "\<And>f. vm_pop (m\<lparr>vm_ip := q\<rparr>) f = f it m'" "\<And>f. vm_pop_cell (m\<lparr>vm_ip := q\<rparr>) f = f v m'" by metis
  have i: "vm_ip m' = q" using vm_at_pc [OF p(1)] .
  then have [simp]: "m'\<lparr>vm_ip := q\<rparr> = m'" by simp
  have "vm_at W K ns r env ts (m'\<lparr>vm_ip := r\<rparr>)" for r using p(1) i by simp
  then show thesis using that [of "m'\<lparr>vm_ip := pc\<rparr>" it] p(2-4) by simp
qed

lemma goes_dup:
  assumes "live K" "code_at (bcode (kcode K)) pc [op_byte OP_DUP]"
  shows "goes W (vm_at W K ns pc env (ts @ [v])) (vm_at W K ns (pc + 1) env (ts @ [v, v]))"
proof (rule goesI)
  fix m assume a: "vm_at W K ns pc env (ts @ [v]) m"
  obtain it m' where p: "vm_at W K ns pc env ts m'" "val it = Some v"
    "\<And>f. vm_pop (m\<lparr>vm_ip := pc + 1\<rparr>) f = f it (m'\<lparr>vm_ip := pc + 1\<rparr>)"
    using pop_next [OF a] by metis
  have "vm_at W K ns (pc + 1) env (ts @ [v]) (vm_push it (m'\<lparr>vm_ip := pc + 1\<rparr>))" (is "vm_at _ _ _ _ _ _ ?n")
    using push_at [OF p(1,2)] .
  then have "vm_at W K ns (pc + 1) env ((ts @ [v]) @ [v]) (vm_push it (?n\<lparr>vm_ip := pc + 1\<rparr>))"
    using p(2) by (rule push_at)
  then show "\<exists>m'. vm_step (whost W) m = Running m' \<and> vm_at W K ns (pc + 1) env (ts @ [v, v]) m'"
    unfolding step_at [OF a assms] vm_dispatch_simps p(3) by (simp add: vm_push_def)
qed

text \<open>Constants, locals and globals.\<close>

lemma goes_const:
  assumes "live K" "code_at (bcode (kcode K)) pc (op_byte OP_CONST # u16 (int i))" "i < 65536"
    "i < length (bconstants (kcode K))" "bconstants (kcode K) ! i = v"
  shows "goes W (vm_at W K ns pc env ts) (vm_at W K ns (pc + 3) env (ts @ [v]))"
proof (rule goesI)
  fix m assume a: "vm_at W K ns pc env ts m"
  have f: "fbytecode (current_frame m) = kcode K" using a by (auto simp: vm_at_def current_frame_def)
  have "vm_step (whost W) m = vm_const i (m\<lparr>vm_ip := pc + 3\<rparr>)"
    unfolding step_at [OF a assms(1,2)] vm_dispatch_simps
    using operand_at [OF a assms(1) assms(2) [unfolded u16_def]] u16_value [of "int i"] assms(3) by simp
  also have "\<dots> = Running (vm_push (Own v) (m\<lparr>vm_ip := pc + 3\<rparr>))"
    using assms(4,5) f by (simp add: vm_const_def current_frame_def)
  finally show "\<exists>m'. vm_step (whost W) m = Running m' \<and> vm_at W K ns (pc + 3) env (ts @ [v]) m'"
    using push_at [OF a, of "Own v"] by simp
qed

lemma goes_global:
  assumes "live K" "code_at (bcode (kcode K)) pc (op_byte OP_LOAD_GLOBAL # u16 (int i))" "i < 65536"
    "i < length (bsymbols (kcode K))" "bsymbols (kcode K) ! i = s"
  shows "goes W (vm_at W K ns pc env ts) (vm_at W K ns (pc + 3) env (ts @ [wglobals W s]))"
proof (rule goesI)
  fix m assume a: "vm_at W K ns pc env ts m"
  have f: "fbytecode (current_frame m) = kcode K" "vm_globals m = wglobals W"
    using a by (auto simp: vm_at_def current_frame_def)
  have "vm_step (whost W) m = Running (vm_push (Borrowed s (wglobals W s)) (m\<lparr>vm_ip := pc + 3\<rparr>))"
    unfolding step_at [OF a assms(1,2)] vm_dispatch_simps
    using operand_at [OF a assms(1) assms(2) [unfolded u16_def]] u16_value [of "int i"] assms(3-5) f
    by (simp add: vm_symbol_def current_frame_def)
  then show "\<exists>m'. vm_step (whost W) m = Running m' \<and> vm_at W K ns (pc + 3) env (ts @ [wglobals W s]) m'"
    using push_at [OF a, of "Borrowed s (wglobals W s)"] by simp
qed

lemma less_4: "i < 4 \<Longrightarrow> i = 0 \<or> i = 1 \<or> i = 2 \<or> i = (3::nat)"
  by linarith

lemma step_load:
  assumes "vm_at W K ns pc env ts m" "live K" "code_at (bcode (kcode K)) pc (load_bytes i)" "i < 65536"
  shows "vm_step H m = vm_load i (m\<lparr>vm_ip := pc + length (load_bytes i)\<rparr>)"
proof (cases "i < 4")
  case True
  then show ?thesis using step_at [OF assms(1,2)] assms(3) less_4 [OF True]
    by (auto simp: load_bytes_def vm_dispatch_simps)
next
  case False
  then have b: "code_at (bcode (kcode K)) pc (op_byte OP_LOAD_LOCAL # u16 (int i))" using assms(3) by (simp add: load_bytes_def)
  have "vm_step H m = vm_load (nat (int i)) (m\<lparr>vm_ip := pc + 3\<rparr>)"
    unfolding step_at [OF assms(1,2) b] vm_dispatch_simps Suc_eq_plus1 [symmetric] operand_at [OF assms(1,2) b [unfolded u16_def]]
    by (subst u16_value) (use assms(4) in auto)
  then show ?thesis using False by (simp add: load_bytes_def)
qed

lemma step_store:
  assumes "vm_at W K ns pc env ts m" "live K" "code_at (bcode (kcode K)) pc (store_bytes i)" "i < 65536"
  shows "vm_step H m = vm_store i (m\<lparr>vm_ip := pc + length (store_bytes i)\<rparr>)"
proof (cases "i < 4")
  case True
  then show ?thesis using step_at [OF assms(1,2)] assms(3) less_4 [OF True]
    by (auto simp: store_bytes_def vm_dispatch_simps)
next
  case False
  then have b: "code_at (bcode (kcode K)) pc (op_byte OP_STORE_LOCAL # u16 (int i))" using assms(3) by (simp add: store_bytes_def)
  have "vm_step H m = vm_store (nat (int i)) (m\<lparr>vm_ip := pc + 3\<rparr>)"
    unfolding step_at [OF assms(1,2) b] vm_dispatch_simps Suc_eq_plus1 [symmetric] operand_at [OF assms(1,2) b [unfolded u16_def]]
    by (subst u16_value) (use assms(4) in auto)
  then show ?thesis using False by (simp add: store_bytes_def)
qed

lemma goes_load:
  assumes "live K" "code_at (bcode (kcode K)) pc (load_bytes i)" "i < 65536" "i < length env" "snd (env ! i) = Some v"
  shows "goes W (vm_at W K ns pc env ts) (vm_at W K ns (pc + length (load_bytes i)) env (ts @ [v]))"
proof (rule goesI)
  fix m assume a: "vm_at W K ns pc env ts m"
  have s: "length (kbase K) + i < length (vm_stack m)" "val (vm_stack m ! (length (kbase K) + i)) = Some v"
    using stack_at_slot [of K env ts "vm_stack m" i] a assms(4,5) by (auto simp: vm_at_def slot_ok_def)
  have "ffp (current_frame m) = length (kbase K)" using a by (auto simp: vm_at_def current_frame_def)
  then show "\<exists>m'. vm_step (whost W) m = Running m' \<and> vm_at W K ns (pc + length (load_bytes i)) env (ts @ [v]) m'"
    using step_load [OF a assms(1-3), of "whost W"] s push_at [OF a s(2)] by (simp add: vm_load_def current_frame_def Let_def)
qed

lemma goes_store:
  assumes "live K" "code_at (bcode (kcode K)) pc (store_bytes i)" "i < 65536" "i < length env"
  shows "goes W (vm_at W K ns pc env (ts @ [v])) (vm_at W K ns (pc + length (store_bytes i)) (env_set i v env) ts)"
proof (rule goesI)
  fix m assume a: "vm_at W K ns pc env (ts @ [v]) m"
  let ?q = "pc + length (store_bytes i)"
  obtain it m' where p: "vm_at W K ns ?q env ts (m'\<lparr>vm_ip := ?q\<rparr>)" "val it = Some v"
    "\<And>f. vm_pop (m\<lparr>vm_ip := ?q\<rparr>) f = f it (m'\<lparr>vm_ip := ?q\<rparr>)"
    using pop_next [OF a] by metis
  let ?m = "m'\<lparr>vm_ip := ?q\<rparr>"
  have s: "length (kbase K) + i < length (vm_stack ?m)" "ffp (current_frame ?m) = length (kbase K)"
    using stack_at_slot [of K env ts "vm_stack ?m" i] p(1) assms(4) by (auto simp: vm_at_def current_frame_def)
  have "vm_at W K ns ?q (env_set i v env) ts (?m\<lparr>vm_stack := (vm_stack ?m)[length (kbase K) + i := it]\<rparr>)"
    using p(1) stack_at_set [of K env ts "vm_stack ?m" i it v] assms(4) p(2) by (simp add: vm_at_def)
  then show "\<exists>m'. vm_step (whost W) m = Running m' \<and> vm_at W K ns ?q (env_set i v env) ts m'"
    unfolding step_store [OF a assms(1-3), of "whost W"] vm_store_def p(3) using s by (simp add: Let_def)
qed

text \<open>Jumps.\<close>

lemma jump_at:
  assumes "vm_at W K ns pc env ts m" "- 32768 \<le> off" "off < 32768" "int pc + off = int q"
  shows "vm_jump (off mod 65536 mod 256 + 256 * (off mod 65536 div 256 mod 256)) m = Running (m\<lparr>vm_ip := q\<rparr>)"
  using u16_int16 [OF assms(2,3)] vm_at_pc [OF assms(1)] assms(4) by (auto simp: vm_jump_def Let_def)

lemma goes_jump:
  assumes "live K" "code_at (bcode (kcode K)) pc (jump_bytes OP_JUMP off)" "- 32768 \<le> off" "off < 32768" "int pc + 3 + off = int q"
  shows "goes W (vm_at W K ns pc env ts) (vm_at W K ns q env ts)"
proof (rule goesI)
  fix m assume a: "vm_at W K ns pc env ts m"
  have n: "vm_at W K ns (pc + 3) env ts (m\<lparr>vm_ip := pc + 3\<rparr>)" using a vm_at_pc [OF a] by simp
  have "vm_step (whost W) m = Running (m\<lparr>vm_ip := q\<rparr>)"
    using step_at [OF a assms(1) assms(2) [unfolded jump_bytes_def]] operand_at [OF a assms(1) assms(2) [unfolded jump_bytes_def u16_def]]
      jump_at [OF n assms(3,4)] assms(5) by (simp add: vm_dispatch_simps)
  then show "\<exists>m'. vm_step (whost W) m = Running m' \<and> vm_at W K ns q env ts m'" using a vm_at_pc [OF a] by simp
qed

lemma goes_jump_if:
  assumes "live K" "code_at (bcode (kcode K)) pc (jump_bytes op off)" "- 32768 \<le> off" "off < 32768" "int pc + 3 + off = int q"
    "op = OP_JUMP_IF_NIL \<and> j = cond_nil v \<or> op = OP_JUMP_IF_NOT_NIL \<and> j = (\<not> cond_nil v)"
  shows "goes W (vm_at W K ns pc env (ts @ [v])) (vm_at W K ns (if j then q else pc + 3) env ts)"
proof (rule goesI)
  fix m assume a: "vm_at W K ns pc env (ts @ [v]) m"
  obtain m' where p: "\<And>r. vm_at W K ns r env ts (m'\<lparr>vm_ip := r\<rparr>)"
    "\<And>f. vm_pop_cell (m\<lparr>vm_ip := pc + 3\<rparr>) f = f v (m'\<lparr>vm_ip := pc + 3\<rparr>)"
    using pop_next [OF a, where q = "pc + 3"] by metis
  let ?o = "off mod 65536 mod 256 + 256 * (off mod 65536 div 256 mod 256)"
  have "vm_jump ?o (m'\<lparr>vm_ip := pc + 3\<rparr>) = Running (m'\<lparr>vm_ip := q\<rparr>)"
    using jump_at [OF p(1) assms(3,4)] assms(5) by simp
  moreover have "vm_step (whost W) m = (if j then vm_jump ?o (m'\<lparr>vm_ip := pc + 3\<rparr>) else Running (m'\<lparr>vm_ip := pc + 3\<rparr>))"
    using step_at [OF a assms(1) assms(2) [unfolded jump_bytes_def]] operand_at [OF a assms(1) assms(2) [unfolded jump_bytes_def u16_def]]
      assms(6) by (auto simp: vm_dispatch_simps p(2))
  ultimately show "\<exists>m'. vm_step (whost W) m = Running m' \<and> vm_at W K ns (if j then q else pc + 3) env ts m'"
    using p(1) by auto
qed

section \<open>Runs\<close>

lemma vm_steps_add: "vm_steps H (j + k) r = vm_steps H k (vm_steps H j r)"
  by (induction j arbitrary: r) simp_all

lemma vm_steps_Running: "vm_steps H (Suc k) (Running m) = vm_steps H k (vm_step H m)"
  by simp

lemma vm_steps_final: "\<not> (\<exists>m. r = Running m) \<Longrightarrow> vm_steps H k r = r"
  by (induction k) (auto split: vm_outcome.split)

text \<open>From a state with \<open>P\<close> the machine does what the result \<open>r\<close> says: it comes to a state related to
  the value, it stops with the error, or it is still running after \<open>n\<close> instructions.\<close>

definition does :: "world \<Rightarrow> nat \<Rightarrow> vm \<Rightarrow> 'a eresult \<Rightarrow> ('a \<Rightarrow> vm_outcome \<Rightarrow> bool) \<Rightarrow> bool" where
  "does W n m r Q \<longleftrightarrow>
     (case r of
        Value x \<Rightarrow> \<exists>k. Q x (vm_steps (whost W) k (Running m))
      | Raises e \<Rightarrow> \<exists>k. vm_steps (whost W) k (Running m) = Error e
      | Undefined \<Rightarrow> \<exists>k. vm_steps (whost W) k (Running m) = Stuck
      | Timeout \<Rightarrow> \<exists>k\<ge>n. \<exists>m'. vm_steps (whost W) k (Running m) = Running m'
      | Outside \<Rightarrow> True)"

definition leads :: "world \<Rightarrow> nat \<Rightarrow> (vm \<Rightarrow> bool) \<Rightarrow> 'a eresult \<Rightarrow> ('a \<Rightarrow> vm_outcome \<Rightarrow> bool) \<Rightarrow> bool" where
  "leads W n P r Q \<longleftrightarrow> (\<forall>m. P m \<longrightarrow> does W n m r Q)"

lemma does_after:
  assumes "vm_steps (whost W) j (Running m) = Running m'" "does W n m' r Q"
  shows "does W (n + j) m r Q"
proof -
  have s: "vm_steps (whost W) k (Running m') = vm_steps (whost W) (j + k) (Running m)" for k
    by (simp add: vm_steps_add assms(1))
  show ?thesis
  proof (cases r)
    case Timeout
    then obtain k m'' where "n \<le> k" "vm_steps (whost W) (j + k) (Running m) = Running m''"
      using assms(2) by (auto simp: does_def s)
    then show ?thesis using Timeout by (auto simp: does_def intro!: exI [of _ "j + k"])
  qed (use assms(2) s in \<open>auto simp: does_def\<close>)
qed

lemma does_less: "does W n m r Q \<Longrightarrow> k \<le> n \<Longrightarrow> does W k m r Q"
  by (cases r) (auto simp: does_def intro: order_trans)

lemma does_mono: "does W n m r Q \<Longrightarrow> (\<And>x o'. Q x o' \<Longrightarrow> Q' x o') \<Longrightarrow> does W n m r Q'"
  by (cases r) (auto simp: does_def)

lemma does_stop: "vm_step (whost W) m = Error e \<Longrightarrow> does W n m (Raises e) Q"
  "vm_step (whost W) m = Stuck \<Longrightarrow> does W n m Undefined Q"
  by (auto simp: does_def intro!: exI [of _ 1])

lemma does_one: "Q x (vm_step (whost W) m) \<Longrightarrow> does W n m (Value x) Q"
  by (auto simp: does_def intro!: exI [of _ 1])

definition running :: "(vm \<Rightarrow> bool) \<Rightarrow> vm_outcome \<Rightarrow> bool" where
  "running P r \<longleftrightarrow> (\<exists>m. r = Running m \<and> P m)"

lemma leads_Outside [simp]: "leads W n P Outside Q"
  by (simp add: leads_def does_def)

lemma leads_done: "(\<And>m. P m \<Longrightarrow> Q x (Running m)) \<Longrightarrow> leads W n P (Value x) Q"
  by (auto simp: leads_def does_def intro!: exI [of _ 0])

text \<open>One instruction in front; the first rule counts it.\<close>

lemma leads_tick:
  assumes "goes W P P'" "leads W n P' r Q"
  shows "leads W (Suc n) P r Q"
  unfolding leads_def
proof (intro allI impI)
  fix m assume "P m"
  then obtain m' where "vm_steps (whost W) 1 (Running m) = Running m'" "does W n m' r Q"
    using assms unfolding goes_def leads_def by fastforce
  then have "does W (n + 1) m r Q" by (rule does_after)
  then show "does W (Suc n) m r Q" by simp
qed

lemma leads_less: "leads W n P r Q \<Longrightarrow> k \<le> n \<Longrightarrow> leads W k P r Q"
  by (auto simp: leads_def intro: does_less)

lemma leads_step: "goes W P P' \<Longrightarrow> leads W n P' r Q \<Longrightarrow> leads W n P r Q"
  using leads_less [OF leads_tick] by fastforce

lemma leads_zero: "leads W 0 P Timeout Q"
  by (auto simp: leads_def does_def intro!: exI [of _ 0])

lemma leads_pre: "leads W n P r Q \<Longrightarrow> (\<And>m. P' m \<Longrightarrow> P m) \<Longrightarrow> leads W n P' r Q"
  by (simp add: leads_def)

text \<open>Sequential composition, and what follows the last part of a form.\<close>

lemma leads_then:
  assumes "leads W n P r (\<lambda>x. running (P' x))" "\<And>x. r = Value x \<Longrightarrow> leads W n (P' x) (f x) Q"
  shows "leads W n P (then_e r f) Q"
proof (cases r)
  case (Value x)
  show ?thesis unfolding leads_def
  proof (intro allI impI)
    fix m assume "P m"
    then obtain j m' where j: "vm_steps (whost W) j (Running m) = Running m'" "P' x m'"
      using assms(1) Value by (auto simp: leads_def does_def running_def)
    then show "does W n m (then_e r f) Q"
      using assms(2) [OF Value] does_after [OF j(1)] does_less Value by (fastforce simp: leads_def)
  qed
qed (use assms(1) in \<open>auto simp: leads_def does_def\<close>)

lemma leads_post:
  assumes "leads W n P r Q" "\<And>x o'. r = Value x \<Longrightarrow> Q x o' \<Longrightarrow> \<exists>k. Q' x (vm_steps (whost W) k o')"
  shows "leads W n P r Q'"
proof (cases r)
  case (Value x)
  show ?thesis unfolding leads_def
  proof (intro allI impI)
    fix m assume "P m"
    then obtain j where "Q x (vm_steps (whost W) j (Running m))"
      using assms(1) Value by (auto simp: leads_def does_def)
    then obtain k where "Q' x (vm_steps (whost W) k (vm_steps (whost W) j (Running m)))"
      using assms(2) [OF Value] by blast
    then show "does W n m r Q'" unfolding vm_steps_add [symmetric] using Value by (auto simp: does_def)
  qed
qed (use assms(1) in \<open>auto simp: leads_def does_def\<close>)

section \<open>The end of an expression\<close>

text \<open>In tail position a call has already returned from the frame.\<close>

definition returned :: "world \<Rightarrow> ctx \<Rightarrow> cell \<Rightarrow> vm_outcome \<Rightarrow> bool" where
  "returned W K v r \<longleftrightarrow>
     (case kcallers K of
        [] \<Rightarrow> r = Returned v (wglobals W)
      | f # fs \<Rightarrow>
          running (\<lambda>m. (\<exists>it. vm_stack m = kbase K @ [it] \<and> val it = Some v) \<and> vm_frames m = f # fs \<and>
                       vm_ip m = fip f \<and> vm_globals m = wglobals W \<and> good_aux W (vm_aux m)) r)"

definition finish :: "world \<Rightarrow> ctx \<Rightarrow> symbol option list \<Rightarrow> bool \<Rightarrow> nat \<Rightarrow> cell list \<Rightarrow> cell \<times> env \<Rightarrow> vm_outcome \<Rightarrow> bool" where
  "finish W K ns t pc ts x r \<longleftrightarrow>
     running (vm_at W K ns pc (snd x) (ts @ [fst x])) r \<or> t \<and> returned W K (fst x) r"

lemma finish_notail: "finish W K ns False pc ts = (\<lambda>x. running (vm_at W K ns pc (snd x) (ts @ [fst x])))"
  by (simp add: finish_def fun_eq_iff)

lemma finishI: "vm_at W K ns pc env (ts @ [v]) m \<Longrightarrow> finish W K ns t pc ts (v, env) (Running m)"
  by (auto simp: finish_def running_def)

text \<open>One more instruction behind the last part, reached only when no tail call has left the frame.\<close>

lemma leads_last:
  assumes "leads W n P r (finish W K ns t pc ts)"
    "\<And>v env. r = Value (v, env) \<Longrightarrow>
       goes W (vm_at W K ns pc env (ts @ [v])) (vm_at W K ns' pc' env (ts @ [v]))"
  shows "leads W n P r (finish W K ns' t pc' ts)"
proof (rule leads_post [OF assms(1)])
  fix x o' assume x: "r = Value x" "finish W K ns t pc ts x o'"
  show "\<exists>k. finish W K ns' t pc' ts x (vm_steps (whost W) k o')"
  proof (cases "running (vm_at W K ns pc (snd x) (ts @ [fst x])) o'")
    case True
    then obtain m m' where m: "o' = Running m" "vm_step (whost W) m = Running m'" "vm_at W K ns' pc' (snd x) (ts @ [fst x]) m'"
      using assms(2) [of "fst x" "snd x"] x(1) by (auto simp: running_def goes_def)
    then have "vm_steps (whost W) 1 o' = Running m'" by simp
    then show ?thesis using m(3) by (auto simp: finish_def running_def intro!: exI [of _ 1])
  next
    case False
    then have "vm_steps (whost W) 0 o' = o'" "t \<and> returned W K (fst x) o'" using x(2) by (auto simp: finish_def)
    then show ?thesis by (metis finish_def)
  qed
qed

section \<open>Operators\<close>

lemma vm_assign_Nil [simp]: "vm_assign [] m = m"
proof -
  have "kill [] it = it" for it by (cases it) auto
  then have "kill [] = id" "(\<lambda>f. f\<lparr>fself := kill [] (fself f)\<rparr>) = id" by auto
  then show ?thesis by (simp add: vm_assign_def assign_def)
qed

lemma vm_at_globals: "vm_at W K ns pc env ts m \<Longrightarrow> vm_globals m = wglobals W"
  by (simp add: vm_at_def)

lemma leads_result:
  assumes "\<And>m. P m \<Longrightarrow> \<exists>m'. vm_step (whost W) m = vm_result r (m'\<lparr>vm_ip := pc\<rparr>) \<and> vm_at W K ns (vm_ip m') env ts m'"
  shows "leads W n P (operated r env) (finish W K ns t pc ts)"
  unfolding leads_def
proof (intro allI impI)
  fix m assume "P m"
  then obtain m' where m: "vm_step (whost W) m = vm_result r (m'\<lparr>vm_ip := pc\<rparr>)" "vm_at W K ns (vm_ip m') env ts m'"
    using assms by blast
  show "does W n m (operated r env) (finish W K ns t pc ts)"
  proof (cases "operated r env")
    case (Value x)
    then obtain v where v: "r = Some (Inr (v, []))" "x = (v, env)"
      by (auto simp: operated_def split: option.splits sum.splits if_splits)
    have "finish W K ns t pc ts x (vm_step (whost W) m)"
      unfolding m(1) using v push_at [OF m(2), of "Own v" v pc] by (auto simp: vm_result_def intro: finishI)
    then show ?thesis unfolding Value by (rule does_one)
  next
    case (Raises e)
    then have "vm_step (whost W) m = Error e"
      unfolding m(1) by (auto simp: operated_def vm_result_def split: option.splits sum.splits if_splits)
    then show ?thesis unfolding Raises by (rule does_stop)
  next
    case Undefined
    then have "vm_step (whost W) m = Stuck"
      unfolding m(1) by (auto simp: operated_def vm_result_def split: option.splits sum.splits if_splits)
    then show ?thesis unfolding Undefined by (rule does_stop)
  qed (auto simp: operated_def does_def split: option.splits sum.splits if_splits)
qed

lemma leads_arith:
  assumes "live K" "code_at (bcode (kcode K)) pc [op_byte op]" "op \<in> {vm_opcode.OP_ADD, OP_SUB, OP_MUL, OP_DIV, OP_MOD}"
  shows "leads W n (vm_at W K ns pc env (ts @ [a, b])) (binary W op a b env) (finish W K ns t (pc + 1) ts)"
  unfolding binary_def
proof (rule leads_result)
  fix m assume "vm_at W K ns pc env (ts @ [a, b]) m"
  then have m: "vm_at W K ns pc env ((ts @ [a]) @ [b]) m" by simp
  obtain m1 where m1: "vm_at W K ns pc env (ts @ [a]) m1" "\<And>f. vm_pop_cell (m\<lparr>vm_ip := pc + 1\<rparr>) f = f b (m1\<lparr>vm_ip := pc + 1\<rparr>)"
    using pop_next [OF m] by metis
  obtain m2 where m2: "vm_at W K ns pc env ts m2" "\<And>f. vm_pop_cell (m1\<lparr>vm_ip := pc + 1\<rparr>) f = f a (m2\<lparr>vm_ip := pc + 1\<rparr>)"
    using pop_next [OF m1(1)] by metis
  have "vm_dispatch (whost W) op = vm_arith (whost W) op" using assms(3) by (auto simp: vm_dispatch_def fun_eq_iff)
  then show "\<exists>m'. vm_step (whost W) m = vm_result (vm_binary (whost W) op a b (wglobals W)) (m'\<lparr>vm_ip := pc + 1\<rparr>) \<and>
      vm_at W K ns (vm_ip m') env ts m'"
    by (intro exI [of _ m2]) (use m2(1) vm_at_pc [OF m2(1)] in \<open>simp add: step_at [OF m assms(1,2)] vm_arith_def m1(2) [simplified] m2(2) [simplified] vm_at_globals [OF m2(1)]\<close>)
qed

lemma leads_arith_const:
  assumes "live K" "code_at (bcode (kcode K)) pc [op_byte op]"
    "vm_dispatch (whost W) op = vm_arith_const (whost W) op' i"
  shows "leads W n (vm_at W K ns pc env (ts @ [a])) (binary W op' a (CELL_LONG i) env) (finish W K ns t (pc + 1) ts)"
  unfolding binary_def
proof (rule leads_result)
  fix m assume m: "vm_at W K ns pc env (ts @ [a]) m"
  obtain m2 where m2: "vm_at W K ns pc env ts m2" "\<And>f. vm_pop_cell (m\<lparr>vm_ip := pc + 1\<rparr>) f = f a (m2\<lparr>vm_ip := pc + 1\<rparr>)"
    using pop_next [OF m] by metis
  show "\<exists>m'. vm_step (whost W) m = vm_result (vm_binary (whost W) op' a (CELL_LONG i) (wglobals W)) (m'\<lparr>vm_ip := pc + 1\<rparr>) \<and>
      vm_at W K ns (vm_ip m') env ts m'"
    by (intro exI [of _ m2]) (use m2(1) vm_at_pc [OF m2(1)] assms(3) in \<open>simp add: step_at [OF m assms(1,2)] vm_arith_const_def m2(2) [simplified] vm_at_globals [OF m2(1)]\<close>)
qed

lemma leads_negate:
  assumes "live K" "code_at (bcode (kcode K)) pc [op_byte OP_NEG]"
  shows "leads W n (vm_at W K ns pc env (ts @ [a])) (operated (vm_negate (whost W) a (wglobals W)) env) (finish W K ns t (pc + 1) ts)"
proof (rule leads_result)
  fix m assume m: "vm_at W K ns pc env (ts @ [a]) m"
  obtain m2 where m2: "vm_at W K ns pc env ts m2" "\<And>f. vm_pop_cell (m\<lparr>vm_ip := pc + 1\<rparr>) f = f a (m2\<lparr>vm_ip := pc + 1\<rparr>)"
    using pop_next [OF m] by metis
  show "\<exists>m'. vm_step (whost W) m = vm_result (vm_negate (whost W) a (wglobals W)) (m'\<lparr>vm_ip := pc + 1\<rparr>) \<and>
      vm_at W K ns (vm_ip m') env ts m'"
    by (intro exI [of _ m2]) (use m2(1) vm_at_pc [OF m2(1)] in \<open>simp add: step_at [OF m assms(1,2)] vm_dispatch_simps m2(2) [simplified] vm_at_globals [OF m2(1)]\<close>)
qed

lemma leads_compare:
  assumes "live K" "code_at (bcode (kcode K)) pc [op_byte op]" "op \<in> {OP_LT, OP_GT, OP_LE, OP_GE, OP_EQ, OP_NE}"
  shows "leads W n (vm_at W K ns pc env (ts @ [a, b])) (compared W op a b)
           (\<lambda>v. running (vm_at W K ns (pc + 1) env (ts @ [v])))"
  unfolding leads_def
proof (intro allI impI)
  fix m assume "vm_at W K ns pc env (ts @ [a, b]) m"
  then have m: "vm_at W K ns pc env ((ts @ [a]) @ [b]) m" by simp
  obtain m1 where m1: "vm_at W K ns pc env (ts @ [a]) m1" "\<And>f. vm_pop_cell (m\<lparr>vm_ip := pc + 1\<rparr>) f = f b (m1\<lparr>vm_ip := pc + 1\<rparr>)"
    using pop_next [OF m] by metis
  obtain m2 where m2: "vm_at W K ns pc env ts m2" "\<And>f. vm_pop_cell (m1\<lparr>vm_ip := pc + 1\<rparr>) f = f a (m2\<lparr>vm_ip := pc + 1\<rparr>)"
    using pop_next [OF m1(1)] by metis
  have d: "vm_dispatch (whost W) op = vm_relation (whost W) op" using assms(3) by (auto simp: vm_dispatch_def fun_eq_iff)
  have s: "vm_step (whost W) m =
      (case vm_compare (whost W) op a b of Inl e \<Rightarrow> Error e | Inr v \<Rightarrow> Running (vm_push (Own v) (m2\<lparr>vm_ip := pc + 1\<rparr>)))"
    by (simp add: step_at [OF m assms(1,2)] vm_relation_def m1(2) [simplified] m2(2) [simplified] d split: sum.split)
  show "does W n m (compared W op a b) (\<lambda>v. running (vm_at W K ns (pc + 1) env (ts @ [v])))"
    using s push_at [OF m2(1)] by (auto simp: compared_def running_def split: sum.splits intro!: does_one does_stop)
qed

section \<open>Calls\<close>

lemma returned_step:
  assumes "vm_at W K ns pc env (ts @ [v]) m" "live K" "code_at (bcode (kcode K)) pc [op_byte OP_RET]"
  shows "returned W K v (vm_step (whost W) m)"
proof -
  obtain it m' where p: "vm_at W K ns pc env ts m'" "val it = Some v"
    "\<And>f. vm_pop (m\<lparr>vm_ip := pc + 1\<rparr>) f = f it (m'\<lparr>vm_ip := pc + 1\<rparr>)"
    using pop_next [OF assms(1)] by metis
  obtain i where f: "vm_frames m' = \<lparr>fbytecode = kcode K, fip = i, ffp = length (kbase K), fself = kself K\<rparr> # kcallers K"
    using p(1) by (auto simp: vm_at_def)
  have t: "take (length (kbase K)) (vm_stack m') = kbase K" using p(1) by (auto simp: vm_at_def stack_at_def)
  have "vm_step (whost W) m = vm_return it (m'\<lparr>vm_ip := pc + 1\<rparr>)"
    unfolding step_at [OF assms] vm_dispatch_simps p(3) ..
  then show ?thesis using p(1,2) f t
    by (cases "kcallers K") (auto simp: returned_def running_def vm_return_def vm_at_def)
qed

lemma stack_at_split:
  assumes "stack_at K env (ts @ us) st"
  shows "length us \<le> length st \<and> stack_at K env ts (take (length st - length us) st) \<and>
    map val (drop (length st - length us) st) = map Some us"
proof -
  obtain es js "is" where s: "st = kbase K @ es @ js @ is" "list_all2 slot_ok env es" "length es + length js = ksize K"
    "map val is = map Some (ts @ us)"
    using assms unfolding stack_at_def by blast
  obtain is1 is2 where i: "is = is1 @ is2" "map val is1 = map Some ts" "map val is2 = map Some us"
    using s(4) by (auto simp: map_eq_append_conv)
  have l: "length is2 = length us" using i(3) by (metis length_map)
  have "stack_at K env ts (kbase K @ es @ js @ is1)" unfolding stack_at_def using s i by blast
  then show ?thesis using s(1) i l by simp
qed

text \<open>A new frame.\<close>

definition call_env :: "symbol option list \<Rightarrow> cell list \<Rightarrow> env" where
  "call_env ls args = zip ls (map Some (args @ replicate (length ls) CELL_NIL))"

lemma call_env_names [simp]: "map fst (call_env ls args) = ls"
  by (simp add: call_env_def map_fst_zip_take)

definition callee :: "bytecode \<Rightarrow> item \<Rightarrow> item list \<Rightarrow> vm_frame list \<Rightarrow> item list \<Rightarrow> ctx" where
  "callee bc self base callers args =
     \<lparr>kbase = base, kcode = bc, kself = self, kcallers = callers, ksize = length (frame_slots bc args)\<rparr>"

lemma slots_env:
  assumes "map val is = map Some args" "length ls \<le> num_locals bc"
  shows "list_all2 slot_ok (call_env ls args) (take (length ls) (frame_slots bc is))"
proof (rule list_all2_all_nthI)
  have l: "length is = length args" using assms(1) by (metis length_map)
  then show "length (call_env ls args) = length (take (length ls) (frame_slots bc is))"
    using assms(2) by (simp add: call_env_def frame_slots_def)
  fix i assume "i < length (call_env ls args)"
  then have i: "i < length ls" by (simp add: call_env_def)
  have "val (is ! i) = Some (args ! i)" if "i < length args"
    using arg_cong [OF assms(1), of "\<lambda>xs. xs ! i"] that l by simp
  then show "slot_ok (call_env ls args ! i) (take (length ls) (frame_slots bc is) ! i)"
    using i l assms(2) by (auto simp: call_env_def frame_slots_def slot_ok_def nth_append)
qed

lemma enter_at:
  assumes "map val is = map Some args" "length ls \<le> num_locals bc" "vm_globals m = wglobals W" "good_aux W (vm_aux m)"
  shows "vm_at W (callee bc self base callers is) ls 0 (call_env ls args) [] (vm_enter bc self base is callers m)"
proof -
  have "stack_at (callee bc self base callers is) (call_env ls args) [] (base @ frame_slots bc is)"
    unfolding stack_at_def
    by (intro exI [of _ "take (length ls) (frame_slots bc is)"] exI [of _ "drop (length ls) (frame_slots bc is)"] exI [of _ "[]"])
       (use slots_env [OF assms(1,2)] in \<open>simp add: callee_def\<close>)
  then show ?thesis using assms(3,4) by (simp add: vm_at_def vm_enter_def callee_def)
qed

lemma good_auxD:
  "good_aux W a \<Longrightarrow> case a fn of Some bc \<Rightarrow> compileLambda (wenv W) fn (wself W fn) = Compiled bc | None \<Rightarrow> wself W fn = None"
  unfolding good_aux_def by blast

lemma good_aux_code:
  assumes "good_aux W (vm_aux m)" "vm_globals m = wglobals W"
  shows "code_for (whost W) (CELL_LAMBDA cs) m =
    (case compileLambda (wenv W) (CELL_LAMBDA cs) (wself W (CELL_LAMBDA cs)) of
       Compiled bc \<Rightarrow> Inr (Some bc, m\<lparr>vm_aux := (vm_aux m)(CELL_LAMBDA cs := Some bc)\<rparr>)
     | Failed _ \<Rightarrow> Inr (None, m)
     | Raised e \<Rightarrow> Inl e)" (is "_ = ?r")
proof (cases "vm_aux m (CELL_LAMBDA cs)")
  case None
  then have "wself W (CELL_LAMBDA cs) = None" using good_auxD [OF assms(1), of "CELL_LAMBDA cs"] by simp
  then show ?thesis using None assms(2) by (simp add: code_for_def wenv_def)
next
  case (Some bc)
  then have c: "compileLambda (wenv W) (CELL_LAMBDA cs) (wself W (CELL_LAMBDA cs)) = Compiled bc"
    using good_auxD [OF assms(1), of "CELL_LAMBDA cs"] by simp
  have "m\<lparr>vm_aux := (vm_aux m)(CELL_LAMBDA cs := Some bc)\<rparr> = m" using Some by (simp add: fun_upd_idem)
  then show ?thesis using Some c by (simp add: code_for_def)
qed

lemma good_aux_upd:
  "good_aux W a \<Longrightarrow> compileLambda (wenv W) fn (wself W fn) = Compiled bc \<Longrightarrow> good_aux W (a(fn := Some bc))"
  by (auto simp: good_aux_def)

text \<open>What is known of the body of a function when a call is executed: with less fuel it does what it
  means, in every frame.\<close>

definition body_ok :: "world \<Rightarrow> nat \<Rightarrow> cell \<Rightarrow> cell list \<Rightarrow> bool" where
  "body_ok W n fn args \<longleftrightarrow>
     (\<forall>params body ls np K m.
        fn = CELL_LAMBDA (CELL_EXPRESSION params # body) \<longrightarrow> n = Suc m \<longrightarrow> frame_ok W K fn \<longrightarrow>
        parse_params params False [] 0 = Compiled (ls, np) \<longrightarrow>
        leads W m (vm_at W K ls 0 (call_env ls args) [])
          (then_e (ev_body W fn m (call_env ls args) body) (\<lambda>(v, _). Value v)) (returned W K))"

text \<open>The call of a function that is sound, for every way to enter it.\<close>

lemma leads_enter:
  assumes "body_ok W n fn args" "fn = CELL_LAMBDA (CELL_EXPRESSION params # body)"
    "compileLambda (wenv W) fn (wself W fn) = Compiled bc" "parse_params params False [] 0 = Compiled (ls, np)"
    "length ls \<le> num_locals bc" "sound_code W fn bc"
    "\<And>m. P m \<Longrightarrow> \<exists>m' is self base callers. vm_step (whost W) m = Running (vm_enter bc self base is callers m') \<and> map val is = map Some args \<and>
       vm_globals m' = wglobals W \<and> good_aux W (vm_aux m') \<and> val self = Some fn \<and>
       (\<forall>v r. returned W (callee bc self base callers is) v r \<longrightarrow> Q v r)"
  shows "leads W n P (ev_apply W n fn args) Q"
proof (cases n)
  case 0
  then have "ev_apply W n fn args = Timeout" using assms(2-4,6) by (simp add: ev_apply.simps)
  then show ?thesis using 0 by (simp add: leads_zero)
next
  case (Suc k)
  have e: "ev_apply W n fn args = then_e (ev_body W fn k (call_env ls args) body) (\<lambda>(v, _). Value v)"
    using assms(2-4,6) Suc by (simp add: ev_apply.simps call_env_def)
  show ?thesis unfolding leads_def e
  proof (intro allI impI)
    fix m assume "P m"
    then obtain m' "is" self base callers where m: "vm_step (whost W) m = Running (vm_enter bc self base is callers m')" "map val is = map Some args"
      "vm_globals m' = wglobals W" "good_aux W (vm_aux m')" "val self = Some fn"
      "\<And>v r. returned W (callee bc self base callers is) v r \<Longrightarrow> Q v r"
      using assms(7) by meson
    let ?K = "callee bc self base callers is"
    have "frame_ok W ?K fn"
      using m(5) assms(3,6) by (auto simp: frame_ok_def callee_def frame_slots_def)
    then have "leads W k (vm_at W ?K ls 0 (call_env ls args) [])
        (then_e (ev_body W fn k (call_env ls args) body) (\<lambda>(v, _). Value v)) (returned W ?K)"
      using assms(1,2,4) Suc unfolding body_ok_def by blast
    then have "does W k (vm_enter bc self base is callers m') (then_e (ev_body W fn k (call_env ls args) body) (\<lambda>(v, _). Value v))
        (returned W ?K)"
      using enter_at [OF m(2) assms(5) m(3,4)] by (simp add: leads_def)
    then have "does W k (vm_enter bc self base is callers m') (then_e (ev_body W fn k (call_env ls args) body) (\<lambda>(v, _). Value v)) Q"
      by (rule does_mono) (rule m(6))
    then have "does W (k + 1) m (then_e (ev_body W fn k (call_env ls args) body) (\<lambda>(v, _). Value v)) Q"
      by (rule does_after [rotated]) (use m(1) in simp)
    then show "does W n m (then_e (ev_body W fn k (call_env ls args) body) (\<lambda>(v, _). Value v)) Q" using Suc by simp
  qed
qed

text \<open>The machine state when a call is executed, and what it returns to.\<close>

lemma call_state:
  assumes "vm_at W K ns pc env (ts @ us) m"
  shows "\<exists>base is. vm_args (length us) m f = f base is \<and> vm_stack m = base @ is \<and> map val is = map Some us \<and> stack_at K env ts base"
proof -
  let ?n = "length (vm_stack m) - length us"
  have s: "length us \<le> length (vm_stack m)" "stack_at K env ts (take ?n (vm_stack m))" "map val (drop ?n (vm_stack m)) = map Some us"
    using stack_at_split [of K env ts us] assms by (auto simp: vm_at_def)
  then have "vm_args (length us) m f = f (take ?n (vm_stack m)) (drop ?n (vm_stack m))" by (simp add: vm_args_def Let_def)
  then show ?thesis using s(2,3) by (metis append_take_drop_id)
qed

lemma returned_caller:
  assumes "returned W (callee bc self base (f # fs) is) v r" "stack_at K env ts base" "map fst env = ns" "fs = kcallers K"
    "f = \<lparr>fbytecode = kcode K, fip = pc, ffp = length (kbase K), fself = kself K\<rparr>"
  shows "finish W K ns t pc ts (v, env) r"
  using assms stack_at_push [OF assms(2)]
  by (auto simp: returned_def callee_def finish_def running_def vm_at_def)

lemma returned_tail:
  "kbase K' = kbase K \<Longrightarrow> kcallers K' = kcallers K \<Longrightarrow> returned W K' v r \<Longrightarrow> finish W K ns True pc ts (v, env) r"
  by (simp add: returned_def finish_def cong: list.case_cong)

lemma vm_at_frames:
  assumes "vm_at W K ns pc env ts m"
  obtains i where "vm_frames m = \<lparr>fbytecode = kcode K, fip = i, ffp = length (kbase K), fself = kself K\<rparr> # kcallers K"
    "take (length (kbase K)) (vm_stack m) = kbase K"
  using assms by (auto simp: vm_at_def stack_at_def)

text \<open>Entering a function from the frame \<open>K\<close>, with and without reuse of the frame.\<close>

lemma enter_step:
  assumes "vm_at W K ns pc env us m" "stack_at K env ts base" "num_params bc < 256"
    "vm_step (whost W) m = (if t then tail_call_code bc self is m' else call_code bc self base is m')"
    "m' = m\<lparr>vm_ip := q, vm_aux := a\<rparr>" "good_aux W a"
  shows "\<exists>base' callers. vm_step (whost W) m = Running (vm_enter bc self base' is callers m') \<and>
    vm_globals m' = wglobals W \<and> good_aux W (vm_aux m') \<and>
    (\<forall>v r. returned W (callee bc self base' callers is) v r \<longrightarrow> finish W K ns t q ts (v, env) r)"
proof (cases t)
  case True
  obtain i where f: "vm_frames m = \<lparr>fbytecode = kcode K, fip = i, ffp = length (kbase K), fself = kself K\<rparr> # kcallers K"
    "take (length (kbase K)) (vm_stack m) = kbase K"
    using vm_at_frames [OF assms(1)] .
  have "vm_step (whost W) m = Running (vm_enter bc self (kbase K) is (kcallers K) m')"
    using assms(4,5) True f by (simp add: tail_call_code_def current_frame_def)
  moreover have "returned W (callee bc self (kbase K) (kcallers K) is) v r \<longrightarrow> finish W K ns t q ts (v, env) r" for v r
    using True returned_tail [of "callee bc self (kbase K) (kcallers K) is" K] by (simp add: callee_def)
  ultimately show ?thesis using assms(1,5,6) by (auto simp: vm_at_def)
next
  case False
  obtain i where f: "vm_frames m = \<lparr>fbytecode = kcode K, fip = i, ffp = length (kbase K), fself = kself K\<rparr> # kcallers K"
    using vm_at_frames [OF assms(1)] by blast
  let ?f = "\<lparr>fbytecode = kcode K, fip = q, ffp = length (kbase K), fself = kself K\<rparr>"
  have "vm_step (whost W) m = Running (vm_enter bc self base is (?f # kcallers K) m')"
    using assms(3-5) False f by (simp add: call_code_def save_ip_def)
  moreover have "returned W (callee bc self base (?f # kcallers K) is) v r \<longrightarrow> finish W K ns t q ts (v, env) r" for v r
    using returned_caller [OF _ assms(2)] assms(1) by (auto simp: vm_at_def)
  ultimately show ?thesis using assms(1,5,6) by (auto simp: vm_at_def)
qed

end
