(* ===== verification/NL_Placed.thy ===== *)
theory NL_Placed
  imports NL_Runs
begin

text \<open>
  Compiled code in a frame of the machine. \<open>placed\<close> says that the bytes between two states of the
  compiler stand in the code of the frame, \<open>simulates\<close> that the code of an expression does what the
  expression means. Calls, sequences of expressions, arguments, and the forms that leave jumps open
  (\<^verbatim>\<open>and\<close>, \<^verbatim>\<open>or\<close>, \<^verbatim>\<open>cond\<close>) are shown here, given that their parts are.
\<close>

section \<open>Functions\<close>

lemma parse_params_small:
  "parse_params ps b ls n = Compiled (ls', n') \<Longrightarrow> length ls \<le> MAX_LOCALS \<Longrightarrow> n \<le> length ls \<Longrightarrow> length ls' \<le> MAX_LOCALS \<and> n' \<le> length ls'"
  by (induction ps b ls n rule: parse_params.induct) (auto split: if_splits)

text \<open>The state in which the body of a function is compiled.\<close>

definition start_of :: "symbol option list \<Rightarrow> symbol option \<Rightarrow> compiler" where
  "start_of ls self = \<lparr>locals = ls, max_locals = length ls, self_symbol = self, code = [], constants = [], symbols = []\<rparr>"

lemma compileLambda_parts:
  assumes "compileLambda E (CELL_LAMBDA (CELL_EXPRESSION params # body)) self = Compiled bc"
  obtains ls np c1 where "parse_params params False [] 0 = Compiled (ls, np)"
    "(if body = [] then Compiled (emitOp OP_NIL (start_of ls self)) else compile_body E (start_of ls self) body True) = Compiled c1"
    "bc = \<lparr>bcode = code c1 @ [op_byte OP_RET], bconstants = constants c1, bsymbols = symbols c1, num_params = np, num_locals = max_locals c1\<rparr>"
    "keeps (start_of ls self) c1" "small_frame (start_of ls self)" "length ls \<le> num_locals bc"
proof -
  obtain ls np c1 where p: "parse_params params False [] 0 = Compiled (ls, np)"
    "(if body = [] then Compiled (emitOp OP_NIL (start_of ls self)) else compile_body E (start_of ls self) body True) = Compiled c1"
    "bc = \<lparr>bcode = code c1 @ [op_byte OP_RET], bconstants = constants c1, bsymbols = symbols c1, num_params = np, num_locals = max_locals c1\<rparr>"
    using assms unfolding compileLambda.simps Let_def start_of_def [symmetric] by (auto simp: then_c_Compiled)
  have k: "keeps (start_of ls self) c1"
    using p(2) compile_body_keeps [of body E] compile_tidy keeps_emitOp by (cases "body = []") auto
  have "small_frame (start_of ls self)"
    using parse_params_small [OF p(1)] by (simp add: small_frame_def start_of_def)
  moreover have "length ls \<le> num_locals bc" using k p(3) by (simp add: keeps_def extends_def grows_def start_of_def)
  ultimately show thesis using that p k by blast
qed

section \<open>The call instructions\<close>

lemma leads_map: "leads W n P r (\<lambda>v. Q (f v)) \<Longrightarrow> leads W n P (then_e r (\<lambda>v. Value (f v))) Q"
  by (cases r) (auto simp: leads_def does_def)

lemma item_values: "map val is = map Some args \<Longrightarrow> item_values is = Some args"
proof -
  have "those (map Some xs) = Some xs" for xs :: "'b list" by (induction xs) simp_all
  then show "map val is = map Some args \<Longrightarrow> item_values is = Some args" by (simp add: item_values_def)
qed

lemma argc_at:
  assumes "vm_at W K ns pc env ts m" "live K" "code_at (bcode (kcode K)) pc [op_byte op, int k]"
  shows "vm_argc (m\<lparr>vm_ip := Suc pc\<rparr>) f = f k (m\<lparr>vm_ip := pc + 2\<rparr>)"
proof -
  have "code_at (bcode (kcode K)) (Suc pc) [int k]" using assms(3) by (simp add: code_at_Cons)
  then show ?thesis using fetch_at(1) [OF assms(1,2)] by (simp add: vm_argc_def)
qed

lemma vm_call_cases:
  assumes "vm_at W K ns pc env (ts @ fn # args) m"
  obtains base it "is" where "val it = Some fn" "map val is = map Some args" "stack_at K env ts base"
    "vm_call H (length args) t (m\<lparr>vm_ip := q\<rparr>) = vm_apply H t fn it is base (m\<lparr>vm_ip := q\<rparr>)"
proof -
  have a: "vm_at W K ns q env (ts @ (fn # args)) (m\<lparr>vm_ip := q\<rparr>)" using assms vm_at_pc [OF assms(1)] by simp
  define f where "f = (\<lambda>base top. case val (hd top) of None \<Rightarrow> Stuck | Some fn \<Rightarrow> vm_apply H t fn (hd top) (tl top) base (m\<lparr>vm_ip := q\<rparr>))"
  obtain base tops where c: "vm_args (length (fn # args)) (m\<lparr>vm_ip := q\<rparr>) f = f base tops"
    "map val tops = map Some (fn # args)" "stack_at K env ts base"
    using call_state [OF a, of f] by blast
  have "vm_call H (length args) t (m\<lparr>vm_ip := q\<rparr>) = f base tops"
    using c(1) by (simp add: vm_call_def f_def)
  moreover obtain it "is" where "tops = it # is" "val it = Some fn" "map val is = map Some args" using c(2) by auto
  ultimately show thesis using that c(3) by (simp add: f_def)
qed

lemma leads_fallback:
  assumes "\<And>m. P m \<Longrightarrow> \<exists>m' base is. vm_at W K ns q env us m' \<and> stack_at K env ts base \<and> map val is = map Some args \<and>
      vm_step (whost W) m = call_outside (whost W) t fn is base m'"
  shows "leads W n P (outside_call W fn args) (\<lambda>v. finish W K ns t q ts (v, env))"
  unfolding leads_def
proof (intro allI impI)
  fix m assume "P m"
  then obtain m' base "is" where m: "vm_at W K ns q env us m'" "stack_at K env ts base" "map val is = map Some args"
    "vm_step (whost W) m = call_outside (whost W) t fn is base m'"
    using assms by blast
  note step = m(4) [unfolded call_outside_def item_values [OF m(3)] vm_at_globals [OF m(1)]]
  show "does W n m (outside_call W fn args) (\<lambda>v. finish W K ns t q ts (v, env))"
  proof (cases "outside_call W fn args")
    case (Value v)
    then obtain it where v: "vm_fallback (whost W) fn args (wglobals W) = Inr (it, [])" "val it = Some v"
      by (auto simp: outside_call_def split: sum.splits option.splits if_splits)
    let ?m = "m'\<lparr>vm_stack := base\<rparr>"
    have b: "take (length (kbase K)) base = kbase K" using m(2) by (auto simp: stack_at_def)
    have a: "vm_at W K ns q env ts ?m" using m(1,2) by (simp add: vm_at_def)
    have "finish W K ns t q ts (v, env) (vm_step (whost W) m)"
    proof (cases t)
      case True
      have "returned W K v (vm_return it ?m)"
        using a b v(2) by (cases "kcallers K") (auto simp: returned_def running_def vm_return_def vm_at_def)
      then show ?thesis using step v(1) True by (simp add: finish_def)
    next
      case False
      have "vm_at W K ns q env (ts @ [v]) (vm_push it (?m\<lparr>vm_ip := q\<rparr>))" by (rule push_at [OF a v(2)])
      moreover have "?m\<lparr>vm_ip := q\<rparr> = ?m" using vm_at_pc [OF a] by simp
      ultimately show ?thesis using step v(1) False by (auto intro!: finishI)
    qed
    then show ?thesis unfolding Value by (rule does_one)
  next
    case (Raises e)
    then have "vm_step (whost W) m = Error e" using step by (auto simp: outside_call_def split: sum.splits option.splits if_splits)
    then show ?thesis unfolding Raises by (rule does_stop)
  qed (auto simp: outside_call_def does_def split: sum.splits option.splits if_splits)
qed

lemma leads_call:
  assumes "live K" "code_at (bcode (kcode K)) pc [op_byte (if t then OP_TAIL_CALL else OP_CALL), int (length args)]" "body_ok W n fn args"
  shows "leads W n (vm_at W K ns pc env (ts @ fn # args)) (then_e (ev_apply W n fn args) (\<lambda>v. Value (v, env))) (finish W K ns t (pc + 2) ts)"
proof (rule leads_map)
  let ?P = "vm_at W K ns pc env (ts @ fn # args)"
  let ?C = "compileLambda (wenv W) fn (wself W fn)"
  have step: "vm_step H m = vm_call H (length args) t (m\<lparr>vm_ip := pc + 2\<rparr>)" if "?P m" for H m
    using step_at [OF that assms(1,2), of H] argc_at [OF that assms(1,2)] by (cases t) (simp_all add: vm_dispatch_simps)
  have code: "code_for (whost W) fn (m\<lparr>vm_ip := pc + 2\<rparr>) =
      (case ?C of Compiled bc \<Rightarrow> Inr (Some bc, m\<lparr>vm_ip := pc + 2, vm_aux := (vm_aux m)(fn := Some bc)\<rparr>)
       | Failed _ \<Rightarrow> Inr (None, m\<lparr>vm_ip := pc + 2\<rparr>) | Raised e \<Rightarrow> Inl e)" if "?P m" "fn = CELL_LAMBDA cs" for m cs
    using good_aux_code [of W "m\<lparr>vm_ip := pc + 2\<rparr>" cs] that by (simp add: vm_at_def split: cresult.split)
  have outer: "leads W n ?P (outside_call W fn args) (\<lambda>v. finish W K ns t (pc + 2) ts (v, env))"
    if "\<And>m. ?P m \<Longrightarrow> code_for (whost W) fn (m\<lparr>vm_ip := pc + 2\<rparr>) = Inr (None, m\<lparr>vm_ip := pc + 2\<rparr>)"
  proof (rule leads_fallback)
    fix m assume m: "?P m"
    obtain base it "is" where c: "stack_at K env ts base" "map val is = map Some args"
      "vm_call (whost W) (length args) t (m\<lparr>vm_ip := pc + 2\<rparr>) = vm_apply (whost W) t fn it is base (m\<lparr>vm_ip := pc + 2\<rparr>)"
      using vm_call_cases [OF m] by metis
    have "vm_at W K ns (pc + 2) env (ts @ fn # args) (m\<lparr>vm_ip := pc + 2\<rparr>)" using m vm_at_pc [OF m] by simp
    moreover have "vm_step (whost W) m = call_outside (whost W) t fn is base (m\<lparr>vm_ip := pc + 2\<rparr>)"
      using c(3) step [OF m] that [OF m] by (simp add: vm_apply_def)
    ultimately show "\<exists>m' base is. vm_at W K ns (pc + 2) env (ts @ fn # args) m' \<and> stack_at K env ts base \<and> map val is = map Some args \<and>
      vm_step (whost W) m = call_outside (whost W) t fn is base m'"
      using c(1,2) by blast
  qed
  show "leads W n ?P (ev_apply W n fn args) (\<lambda>v. finish W K ns t (pc + 2) ts (v, env))"
  proof (cases "\<exists>params body. fn = CELL_LAMBDA (CELL_EXPRESSION params # body)")
    case False
    then have "ev_apply W n fn args = outside_call W fn args"
      by (auto simp: ev_apply.simps split: cell.splits list.splits)
    moreover have "code_for (whost W) fn (m\<lparr>vm_ip := pc + 2\<rparr>) = Inr (None, m\<lparr>vm_ip := pc + 2\<rparr>)" if "?P m" for m
    proof (cases fn)
      case (CELL_LAMBDA cs)
      then have "?C = Failed 0" using False by (cases cs rule: list.exhaust; cases "hd cs") (auto simp: compileLambda.simps)
      then show ?thesis using code [OF that CELL_LAMBDA] by simp
    qed (simp_all add: code_for_def)
    ultimately show ?thesis using outer by simp
  next
    case True
    then obtain params body where fn: "fn = CELL_LAMBDA (CELL_EXPRESSION params # body)" by blast
    show ?thesis
    proof (cases ?C)
      case (Compiled bc)
      obtain ls np where p: "parse_params params False [] 0 = Compiled (ls, np)" "length ls \<le> num_locals bc"
        using compileLambda_parts [OF Compiled [unfolded fn]] by metis
      show ?thesis
      proof (cases "sound_code W fn bc")
        case True
        show ?thesis
        proof (rule leads_enter [OF assms(3) fn Compiled p True])
          fix m assume m: "?P m"
          let ?m = "m\<lparr>vm_ip := pc + 2, vm_aux := (vm_aux m)(fn := Some bc)\<rparr>"
          obtain base it "is" where c: "val it = Some fn" "map val is = map Some args" "stack_at K env ts base"
            "vm_call (whost W) (length args) t (m\<lparr>vm_ip := pc + 2\<rparr>) = vm_apply (whost W) t fn it is base (m\<lparr>vm_ip := pc + 2\<rparr>)"
            using vm_call_cases [OF m] by metis
          have s: "vm_step (whost W) m = (if t then tail_call_code bc it is ?m else call_code bc it base is ?m)"
            using step [OF m] c(4) code [OF m fn] Compiled by (simp add: vm_apply_def)
          have g: "good_aux W ((vm_aux m)(fn := Some bc))" using m good_aux_upd Compiled by (simp add: vm_at_def)
          have "num_params bc < 256" using True by (simp add: sound_code_def)
          from enter_step [OF m c(3) this s refl g] c(1,2)
          show "\<exists>m' is self base callers. vm_step (whost W) m = Running (vm_enter bc self base is callers m') \<and> map val is = map Some args \<and>
             vm_globals m' = wglobals W \<and> good_aux W (vm_aux m') \<and> val self = Some fn \<and>
             (\<forall>v r. returned W (callee bc self base callers is) v r \<longrightarrow> finish W K ns t (pc + 2) ts (v, env) r)"
            by blast
        qed
      next
        case False
        then show ?thesis using fn Compiled p(1) by (simp add: ev_apply.simps)
      qed
    next
      case (Failed k)
      then have "ev_apply W n fn args = outside_call W fn args" using fn by (simp add: ev_apply.simps)
      then show ?thesis using outer code [OF _ fn] Failed by simp
    next
      case (Raised e)
      have "vm_step (whost W) m = Error e" if m: "?P m" for m
      proof -
        obtain base it "is" where "vm_call (whost W) (length args) t (m\<lparr>vm_ip := pc + 2\<rparr>) = vm_apply (whost W) t fn it is base (m\<lparr>vm_ip := pc + 2\<rparr>)"
          using vm_call_cases [OF m] by metis
        then show ?thesis using step [OF m] code [OF m fn] Raised by (simp add: vm_apply_def)
      qed
      moreover have "ev_apply W n fn args = Raises e" using fn Raised by (simp add: ev_apply.simps)
      ultimately show ?thesis by (auto simp: leads_def intro!: does_stop)
    qed
  qed
qed

lemma leads_call_self:
  assumes "frame_ok W K me" "code_at (bcode (kcode K)) pc [op_byte (if t then OP_TAIL_CALL_SELF else OP_CALL_SELF), int (length args)]"
    "body_ok W n me args"
  shows "leads W n (vm_at W K ns pc env (ts @ args)) (then_e (ev_apply W n me args) (\<lambda>v. Value (v, env))) (finish W K ns t (pc + 2) ts)"
proof (rule leads_map)
  let ?P = "vm_at W K ns pc env (ts @ args)"
  have l: "live K" using frame_ok_live assms(1) .
  have C: "compileLambda (wenv W) me (wself W me) = Compiled (kcode K)" "val (kself K) = Some me" "sound_code W me (kcode K)"
    using assms(1) by (auto simp: frame_ok_def)
  obtain params body where me: "me = CELL_LAMBDA (CELL_EXPRESSION params # body)"
  proof (cases me)
    case (CELL_LAMBDA cs)
    then show thesis using C(1) that by (cases cs rule: list.exhaust; cases "hd cs") (auto simp: compileLambda.simps)
  qed (use C(1) in \<open>auto simp: compileLambda.simps\<close>)
  obtain ls np where p: "parse_params params False [] 0 = Compiled (ls, np)" "length ls \<le> num_locals (kcode K)"
    using compileLambda_parts [OF C(1) [unfolded me]] by metis
  show "leads W n ?P (ev_apply W n me args) (\<lambda>v. finish W K ns t (pc + 2) ts (v, env))"
  proof (rule leads_enter [OF assms(3) me C(1) p C(3)])
    fix m assume m: "?P m"
    have f: "fbytecode (current_frame m) = kcode K" "fself (current_frame m) = kself K"
      using m by (auto simp: vm_at_def current_frame_def)
    let ?m = "m\<lparr>vm_ip := pc + 2, vm_aux := vm_aux m\<rparr>"
    have a: "vm_at W K ns (pc + 2) env (ts @ args) ?m" using m vm_at_pc [OF m] by simp
    define h where "h = (\<lambda>base is. if t then tail_call_code (kcode K) (kself K) is ?m else call_code (kcode K) (kself K) base is ?m)"
    obtain base "is" where c: "vm_args (length args) ?m h = h base is" "map val is = map Some args" "stack_at K env ts base"
      using call_state [OF a, of h] by blast
    have "vm_step (whost W) m = vm_call_self (length args) t ?m"
      using step_at [OF m l assms(2)] argc_at [OF m l assms(2)] by (cases t) (simp_all add: vm_dispatch_simps)
    also have "\<dots> = vm_args (length args) ?m h"
    proof -
      have "current_frame ?m = current_frame m" by (simp add: current_frame_def)
      then show ?thesis unfolding vm_call_self_def Let_def h_def f [symmetric] by (rule ssubst) (rule refl)
    qed
    also note c(1)
    finally have s: "vm_step (whost W) m = (if t then tail_call_code (kcode K) (kself K) is ?m else call_code (kcode K) (kself K) base is ?m)"
      by (simp add: h_def)
    have "num_params (kcode K) < 256" "good_aux W (vm_aux m)" using C(3) m by (auto simp: sound_code_def vm_at_def)
    from enter_step [OF m c(3) this(1) s refl this(2)] c(2) C(2)
    show "\<exists>m' is self base callers. vm_step (whost W) m = Running (vm_enter (kcode K) self base is callers m') \<and> map val is = map Some args \<and>
       vm_globals m' = wglobals W \<and> good_aux W (vm_aux m') \<and> val self = Some me \<and>
       (\<forall>v r. returned W (callee (kcode K) self base callers is) v r \<longrightarrow> finish W K ns t (pc + 2) ts (v, env) r)"
      by blast
  qed
qed

section \<open>Compiled code in a frame\<close>

definition fits :: "ctx \<Rightarrow> compiler \<Rightarrow> bool" where
  "fits K c \<longleftrightarrow>
     prefix (constants c) (bconstants (kcode K)) \<and> prefix (symbols c) (bsymbols (kcode K)) \<and>
     length (constants c) \<le> length (code c) \<and> length (symbols c) \<le> length (code c) \<and>
     max_locals c \<le> ksize K \<and> length (code c) \<le> 32767"

text \<open>The bytes between two states of the compiler stand in the code of the frame.\<close>

definition placed :: "ctx \<Rightarrow> compiler \<Rightarrow> compiler \<Rightarrow> bool" where
  "placed K c c' \<longleftrightarrow> code_at (bcode (kcode K)) (length (code c)) (emitted c c') \<and> fits K c \<and> fits K c'"

definition ready :: "world \<Rightarrow> ctx \<Rightarrow> cell \<Rightarrow> compiler \<Rightarrow> bool" where
  "ready W K me c \<longleftrightarrow> frame_ok W K me \<and> self_symbol c = wself W me \<and> small_frame c"

lemma ready_keeps: "ready W K me c \<Longrightarrow> keeps c c' \<Longrightarrow> ready W K me c'"
  using keeps_small [of c c'] by (simp add: ready_def) (simp add: keeps_def extends_def grows_def)

lemma ready_live: "ready W K me c \<Longrightarrow> live K"
  using frame_ok_live by (auto simp: ready_def)

lemma emitted_keeps: "keeps a b \<Longrightarrow> keeps b c \<Longrightarrow> emitted a c = emitted a b @ emitted b c"
  using keeps_code [of a b] keeps_code [of b c] by (metis append.assoc append_eq_conv_conj emitted_def)

lemma length_emitted: "keeps a b \<Longrightarrow> length (code b) = length (code a) + length (emitted a b)"
  using keeps_code [of a b] by (metis length_append)

lemma fits_keeps:
  assumes "fits K c" "fits K c'" "keeps c c1" "keeps c1 c'"
  shows "fits K c1"
proof -
  have "prefix (constants c1) (bconstants (kcode K))" "prefix (symbols c1) (bsymbols (kcode K))"
    using assms(2,4) prefix_order.trans by (auto simp: fits_def keeps_def extends_def grows_def)
  then show ?thesis using assms by (auto simp: fits_def keeps_def extends_def grows_def)
qed

lemma placed_split:
  assumes "placed K c c'" "keeps c c1" "keeps c1 c'"
  shows "placed K c c1 \<and> placed K c1 c'"
  using assms fits_keeps [OF _ _ assms(2,3)] emitted_keeps [OF assms(2,3)] length_emitted [OF assms(2)]
  by (auto simp: placed_def)

lemma emitted_emit [simp]:
  "emitted c (emitOp op c) = [op_byte op]" "emitted c (emitLoad i c) = load_bytes i" "emitted c (emitStore i c) = store_bytes i"
  "emitted c c = []"
  by (simp_all add: emitted_def)

text \<open>Literals of an expression occur in the function.\<close>

definition literals :: "cell \<Rightarrow> cell \<Rightarrow> bool" where
  "literals me e \<longleftrightarrow> set (subcells e) \<subseteq> insert CELL_NIL (set (subcells me))"

definition literals_list :: "cell \<Rightarrow> cell list \<Rightarrow> bool" where
  "literals_list me es \<longleftrightarrow> set (subcells_list es) \<subseteq> insert CELL_NIL (set (subcells me))"

lemma literals_simps [simp]:
  "literals_list me []" "literals_list me (e # es) \<longleftrightarrow> literals me e \<and> literals_list me es"
  by (auto simp: literals_def literals_list_def)

lemma literals_expression: "literals me (CELL_EXPRESSION es) \<Longrightarrow> literals_list me es"
  by (auto simp: literals_def literals_list_def)

abbreviation starts :: "world \<Rightarrow> ctx \<Rightarrow> compiler \<Rightarrow> env \<Rightarrow> cell list \<Rightarrow> vm \<Rightarrow> bool" where
  "starts W K c env ts \<equiv> vm_at W K (locals c) (length (code c)) env ts"

abbreviation stops :: "world \<Rightarrow> ctx \<Rightarrow> bool \<Rightarrow> compiler \<Rightarrow> cell list \<Rightarrow> cell \<times> env \<Rightarrow> vm_outcome \<Rightarrow> bool" where
  "stops W K t c ts \<equiv> finish W K (locals c) t (length (code c)) ts"

text \<open>What is to be shown of every expression: its code does what it means.\<close>

definition simulates :: "world \<Rightarrow> nat \<Rightarrow> cell \<Rightarrow> cell \<Rightarrow> bool" where
  "simulates W n me e \<longleftrightarrow>
     (\<forall>K c c' t env ts. compileExpr (wenv W) c e t = Compiled c' \<longrightarrow> ready W K me c \<longrightarrow> placed K c c' \<longrightarrow> literals me e \<longrightarrow>
        leads W n (starts W K c env ts) (ev W me n env e) (stops W K t c' ts))"

lemma simulatesD:
  "simulates W n me e \<Longrightarrow> compileExpr (wenv W) c e t = Compiled c' \<Longrightarrow> ready W K me c \<Longrightarrow> placed K c c' \<Longrightarrow> literals me e \<Longrightarrow>
   leads W n (starts W K c env ts) (ev W me n env e) (stops W K t c' ts)"
  by (simp add: simulates_def)

lemma compile_keeps: "compileExpr E c e t = Compiled c' \<Longrightarrow> keeps c c'"
  using tidyD compile_tidy .

text \<open>An expression that is not in tail position, with what follows it.\<close>

lemma leads_expr:
  assumes "simulates W n me e" "compileExpr (wenv W) c e False = Compiled c1" "ready W K me c" "placed K c c1" "literals me e"
    "\<And>v env1. ev W me n env e = Value (v, env1) \<Longrightarrow> leads W n (starts W K c1 env1 (ts @ [v])) (f (v, env1)) Q"
  shows "leads W n (starts W K c env ts) (then_e (ev W me n env e) f) Q"
  by (rule leads_then [OF simulatesD [OF assms(1-5), unfolded finish_notail]]) (use assms(6) in auto)

lemma leads_done_keeps:
  "keeps c c' \<Longrightarrow> leads W n (starts W K c' env (ts @ [v])) (Value (v, env)) (stops W K t c' ts)"
  by (rule leads_done) (rule finishI)

text \<open>Single instructions between two states of the compiler.\<close>

lemma goes_emit_pop:
  "live K \<Longrightarrow> placed K c (emitOp OP_POP c) \<Longrightarrow> goes W (starts W K c env (ts @ [v])) (starts W K (emitOp OP_POP c) env ts)"
  using goes_pop [of K "length (code c)" W "locals c" env ts v] by (simp add: placed_def)

lemma goes_emit_dup:
  "live K \<Longrightarrow> placed K c (emitOp OP_DUP c) \<Longrightarrow> goes W (starts W K c env (ts @ [v])) (starts W K (emitOp OP_DUP c) env (ts @ [v, v]))"
  using goes_dup [of K "length (code c)" W "locals c" env ts v] by (simp add: placed_def)

lemma goes_emit_push:
  assumes "live K" "placed K c (emitOp op c)" "\<And>H m. vm_dispatch H op m = Running (vm_push (Own v) m)"
  shows "goes W (starts W K c env ts) (starts W K (emitOp op c) env (ts @ [v]))"
  using goes_push [of K "length (code c)" op "Own v" v W] assms by (simp add: placed_def)

lemma goes_emit_load:
  assumes "live K" "placed K c (emitLoad i c)" "i < length env" "snd (env ! i) = Some v" "i < MAX_LOCALS"
  shows "goes W (starts W K c env ts) (starts W K (emitLoad i c) env (ts @ [v]))"
  using goes_load [of K "length (code c)" i env v W "locals c" ts] assms by (simp add: placed_def MAX_LOCALS_def)

lemma goes_emit_store:
  assumes "live K" "placed K c (emitStore i c)" "i < length env" "i < MAX_LOCALS"
  shows "goes W (starts W K c env (ts @ [v])) (starts W K (emitStore i c) (env_set i v env) ts)"
  using goes_store [of K "length (code c)" i env W "locals c" ts v] assms by (simp add: placed_def MAX_LOCALS_def)

lemma vm_at_names: "leads W n (vm_at W K ns pc env ts) r Q" if "map fst env = ns \<Longrightarrow> leads W n (vm_at W K ns pc env ts) r Q"
  using that by (auto simp: leads_def vm_at_def)

section \<open>Sequences\<close>

lemma sim_body:
  assumes "\<And>e. e \<in> set es \<Longrightarrow> simulates W n me e" "es \<noteq> []" "compile_body (wenv W) c es t = Compiled c'"
    "ready W K me c" "placed K c c'" "literals_list me es"
  shows "leads W n (starts W K c env ts) (ev_body W me n env es) (stops W K t c' ts)"
  using assms
proof (induction es arbitrary: c env)
  case (Cons e es)
  show ?case
  proof (cases "es = []")
    case True
    then show ?thesis using Cons.prems simulatesD [of W n me e c t c' K]
      by (simp add: compile_body.simps [of _ _ "[e]"] ev_body.simps [of _ _ _ _ "[e]"])
  next
    case False
    obtain c1 where c1: "compileExpr (wenv W) c e False = Compiled c1" "compile_body (wenv W) (emitOp OP_POP c1) es t = Compiled c'"
      using Cons.prems(3) False by (auto simp: compile_body.simps [of _ _ "e # es"] then_c_Compiled)
    let ?c2 = "emitOp OP_POP c1"
    have k: "keeps c c1" "keeps ?c2 c'" using compile_keeps [OF c1(1)] compile_body_keeps [OF compile_tidy c1(2)] .
    have p: "placed K c c1" "placed K c1 ?c2" "placed K ?c2 c'"
      using placed_split [OF Cons.prems(5) k(1) keeps_trans [OF keeps_emitOp k(2)]] placed_split [OF _ keeps_emitOp k(2)] by auto
    have "leads W n (starts W K c env ts) (then_e (ev W me n env e) (\<lambda>(_, env1). ev_body W me n env1 es)) (stops W K t c' ts)"
    proof (rule leads_expr [OF _ c1(1) Cons.prems(4) p(1)])
      fix v env1
      have "leads W n (starts W K ?c2 env1 ts) (ev_body W me n env1 es) (stops W K t c' ts)"
        using Cons.IH [OF _ False c1(2) _ p(3)] Cons.prems(1,6) ready_keeps [OF Cons.prems(4) keeps_trans [OF k(1) keeps_emitOp]] by simp
      then show "leads W n (starts W K c1 env1 (ts @ [v])) (case (v, env1) of (_, env1) \<Rightarrow> ev_body W me n env1 es) (stops W K t c' ts)"
        using leads_step [OF goes_emit_pop [OF ready_live [OF Cons.prems(4)] p(2)]] by simp
    qed (use Cons.prems in auto)
    then show ?thesis using False by (simp add: ev_body.simps [of _ _ _ _ "e # es"])
  qed
qed simp

lemma sim_discard:
  assumes "\<And>e. e \<in> set es \<Longrightarrow> simulates W n me e" "compile_discard (wenv W) c es = Compiled c'"
    "ready W K me c" "placed K c c'" "literals_list me es"
  shows "leads W n (starts W K c env ts) (ev_discard W me n env es) (\<lambda>env'. running (starts W K c' env' ts))"
  using assms
proof (induction es arbitrary: c env)
  case Nil
  then show ?case by (auto simp: compile_discard.simps ev_discard.simps running_def intro: leads_done)
next
  case (Cons e es)
  obtain c1 where c1: "compileExpr (wenv W) c e False = Compiled c1" "compile_discard (wenv W) (emitOp OP_POP c1) es = Compiled c'"
    using Cons.prems(2) by (auto simp: compile_discard.simps [of _ _ "e # es"] then_c_Compiled)
  let ?c2 = "emitOp OP_POP c1"
  have k: "keeps c c1" "keeps ?c2 c'" using compile_keeps [OF c1(1)] compile_discard_keeps [OF compile_tidy c1(2)] .
  have p: "placed K c c1" "placed K c1 ?c2" "placed K ?c2 c'"
    using placed_split [OF Cons.prems(4) k(1) keeps_trans [OF keeps_emitOp k(2)]] placed_split [OF _ keeps_emitOp k(2)] by auto
  have "leads W n (starts W K c env ts) (then_e (ev W me n env e) (\<lambda>(_, env1). ev_discard W me n env1 es))
      (\<lambda>env'. running (starts W K c' env' ts))"
  proof (rule leads_expr [OF _ c1(1) Cons.prems(3) p(1)])
    fix v env1
    have "leads W n (starts W K ?c2 env1 ts) (ev_discard W me n env1 es) (\<lambda>env'. running (starts W K c' env' ts))"
      using Cons.IH [OF _ c1(2) _ p(3)] Cons.prems(1,5) ready_keeps [OF Cons.prems(3) keeps_trans [OF k(1) keeps_emitOp]] by simp
    then show "leads W n (starts W K c1 env1 (ts @ [v])) (case (v, env1) of (_, env1) \<Rightarrow> ev_discard W me n env1 es)
        (\<lambda>env'. running (starts W K c' env' ts))"
      using leads_step [OF goes_emit_pop [OF ready_live [OF Cons.prems(3)] p(2)]] by simp
  qed (use Cons.prems in auto)
  then show ?case by (simp add: ev_discard.simps [of _ _ _ _ "e # es"])
qed

lemma sim_args:
  assumes "\<And>e. e \<in> set es \<Longrightarrow> simulates W n me e" "compile_args (wenv W) c es = Compiled c'"
    "ready W K me c" "placed K c c'" "literals_list me es"
  shows "leads W n (starts W K c env ts) (ev_args W me n env es)
    (\<lambda>(vs, env') r. length vs = length es \<and> running (starts W K c' env' (ts @ vs)) r)"
  using assms
proof (induction es arbitrary: c env ts)
  case Nil
  then show ?case by (auto simp: compile_args.simps ev_args.simps running_def intro: leads_done)
next
  case (Cons e es)
  obtain c1 where c1: "compileExpr (wenv W) c e False = Compiled c1" "compile_args (wenv W) c1 es = Compiled c'"
    using Cons.prems(2) by (auto simp: compile_args.simps [of _ _ "e # es"] then_c_Compiled)
  have k: "keeps c c1" "keeps c1 c'" using compile_keeps [OF c1(1)] compile_args_keeps [OF compile_tidy c1(2)] .
  have p: "placed K c c1" "placed K c1 c'" using placed_split [OF Cons.prems(4) k] by auto
  have "leads W n (starts W K c env ts)
      (then_e (ev W me n env e) (\<lambda>(v, env1). then_e (ev_args W me n env1 es) (\<lambda>(vs, env2). Value (v # vs, env2))))
      (\<lambda>(vs, env') r. length vs = length (e # es) \<and> running (starts W K c' env' (ts @ vs)) r)"
  proof (rule leads_expr [OF _ c1(1) Cons.prems(3) p(1)])
    fix v env1
    have "leads W n (starts W K c1 env1 (ts @ [v])) (ev_args W me n env1 es)
        (\<lambda>(vs, env') r. length vs = length es \<and> running (starts W K c' env' ((ts @ [v]) @ vs)) r)"
      using Cons.IH [OF _ c1(2) ready_keeps [OF Cons.prems(3) k(1)] p(2), of env1 "ts @ [v]"] Cons.prems(1,5) by simp
    then have "leads W n (starts W K c1 env1 (ts @ [v])) (then_e (ev_args W me n env1 es) (\<lambda>x. Value (v # fst x, snd x)))
        (\<lambda>(vs, env') r. length vs = length (e # es) \<and> running (starts W K c' env' (ts @ vs)) r)"
      by (intro leads_map) (simp add: case_prod_unfold)
    then show "leads W n (starts W K c1 env1 (ts @ [v]))
        (case (v, env1) of (v, env1) \<Rightarrow> then_e (ev_args W me n env1 es) (\<lambda>(vs, env2). Value (v # vs, env2)))
        (\<lambda>(vs, env') r. length vs = length (e # es) \<and> running (starts W K c' env' (ts @ vs)) r)"
      by (simp add: case_prod_unfold)
  qed (use Cons.prems in auto)
  then show ?case by (simp add: ev_args.simps [of _ _ _ _ "e # es"])
qed

text \<open>A chain of operations, from left to right.\<close>

lemma leads_binary:
  assumes "live K" "placed K c (emitOp op c)" "op \<in> {vm_opcode.OP_ADD, OP_SUB, OP_MUL, OP_DIV, OP_MOD}"
  shows "leads W n (starts W K c env (ts @ [a, b])) (binary W op a b env) (stops W K t (emitOp op c) ts)"
  using leads_arith [OF assms(1) _ assms(3), of "length (code c)"] assms(2) by (simp add: placed_def)

lemma sim_ops:
  assumes "\<And>e. e \<in> set es \<Longrightarrow> simulates W n me e" "compile_ops (wenv W) c op es = Compiled c'"
    "ready W K me c" "placed K c c'" "literals_list me es" "op \<in> {vm_opcode.OP_ADD, OP_SUB, OP_MUL, OP_DIV, OP_MOD}"
  shows "leads W n (starts W K c env (ts @ [x])) (ev_ops W me n env op x es) (stops W K t c' ts)"
  using assms
proof (induction es arbitrary: c env x)
  case Nil
  then show ?case by (auto simp: compile_ops.simps ev_ops.simps intro: leads_done finishI)
next
  case (Cons e es)
  obtain c1 where c1: "compileExpr (wenv W) c e False = Compiled c1" "compile_ops (wenv W) (emitOp op c1) op es = Compiled c'"
    using Cons.prems(2) by (auto simp: compile_ops.simps [of _ _ _ "e # es"] then_c_Compiled)
  let ?c2 = "emitOp op c1"
  have k: "keeps c c1" "keeps ?c2 c'" using compile_keeps [OF c1(1)] compile_ops_keeps [OF compile_tidy c1(2)] .
  have p: "placed K c c1" "placed K c1 ?c2" "placed K ?c2 c'"
    using placed_split [OF Cons.prems(4) k(1) keeps_trans [OF keeps_emitOp k(2)]] placed_split [OF _ keeps_emitOp k(2)] by auto
  have "leads W n (starts W K c env (ts @ [x]))
      (then_e (ev W me n env e) (\<lambda>(y, env1). then_e (binary W op x y env1) (\<lambda>(z, env2). ev_ops W me n env2 op z es)))
      (stops W K t c' ts)"
  proof (rule leads_expr [OF _ c1(1) Cons.prems(3) p(1)])
    fix y env1
    have b: "leads W n (starts W K c1 env1 ((ts @ [x]) @ [y])) (binary W op x y env1)
        (\<lambda>z. running (starts W K ?c2 (snd z) (ts @ [fst z])))"
      using leads_binary [OF ready_live [OF Cons.prems(3)] p(2) Cons.prems(6), of W n env1 ts x y False] by (simp add: finish_notail)
    have "leads W n (starts W K ?c2 env2 (ts @ [z])) (ev_ops W me n env2 op z es) (stops W K t c' ts)" for z env2
      using Cons.IH [OF _ c1(2) _ p(3)] Cons.prems(1,5,6) ready_keeps [OF Cons.prems(3) keeps_trans [OF k(1) keeps_emitOp]] by simp
    then show "leads W n (starts W K c1 env1 ((ts @ [x]) @ [y]))
        (case (y, env1) of (y, env1) \<Rightarrow> then_e (binary W op x y env1) (\<lambda>(z, env2). ev_ops W me n env2 op z es)) (stops W K t c' ts)"
      by (simp only: prod.case) (rule leads_then [OF b], auto)
  qed (use Cons.prems in auto)
  then show ?case by (simp add: ev_ops.simps [of _ _ _ _ _ _ "e # es"])
qed

lemma emitted_closes: "keeps c c1 \<Longrightarrow> pending ps c \<Longrightarrow> closes to ps c1 c' \<Longrightarrow> emitted c c' = emitted c c1 @ emitted c1 c'"
  using closes_after [of c c1 ps to c'] by (metis append_eq_conv_conj emitted_def length_patches)

lemma code_at_parts:
  "keeps c c1 \<Longrightarrow> code_at C (length (code c)) (emitted c c1 @ jump_bytes op d @ bs) \<longleftrightarrow>
     code_at C (length (code c)) (emitted c c1) \<and> code_at C (length (code c1)) (jump_bytes op d) \<and> code_at C (length (code (emitJump op' c1))) bs"
  by (simp add: length_emitted eval_nat_numeral)

lemma fits_grows:
  assumes "fits K c" "fits K c'" "grows c c1" "grows c1 c'"
  shows "fits K c1"
proof -
  have "prefix (constants c1) (bconstants (kcode K))" "prefix (symbols c1) (bsymbols (kcode K))"
    using assms(2,4) prefix_order.trans by (auto simp: fits_def grows_def)
  then show ?thesis using assms by (auto simp: fits_def grows_def)
qed

lemma placed_closes:
  assumes "placed K c c'" "keeps c c1" "pending ps c" "closes to ps c1 c'"
  shows "placed K c c1" "placed K c1 c'"
proof -
  have "fits K c1" using assms(1,4) fits_grows [OF _ _ keeps_grows(1) [OF assms(2)]] by (auto simp: placed_def closes_def)
  then show "placed K c c1" "placed K c1 c'"
    using assms(1) emitted_closes [OF assms(2-4)] length_emitted [OF assms(2)] by (auto simp: placed_def)
qed

text \<open>The code of a part, of the jump behind it, and of the rest.\<close>

lemma placed_jump:
  assumes "placed K c c'" "keeps c c1" "closes to ps (emitJump op c1) c'"
    "emitted c c' = emitted c c1 @ jump_bytes op' d @ emitted (emitJump op c1) c'"
  shows "placed K c c1" "code_at (bcode (kcode K)) (length (code c1)) (jump_bytes op' d)" "placed K (emitJump op c1) c'"
    "length (code c1) + 3 \<le> length (code c')" "length (code c') \<le> 32767"
proof -
  have g: "grows (emitJump op c1) c'" using assms(3) by (simp add: closes_def)
  then have g1: "grows c1 c'" using grows_trans keeps_grows keeps_emitJump by metis
  have f: "fits K c1" "fits K (emitJump op c1)"
    using assms(1) fits_grows [OF _ _ keeps_grows(1) [OF assms(2)] g1]
      fits_grows [OF _ _ keeps_grows(1) [OF keeps_trans [OF assms(2) keeps_emitJump]] g] by (auto simp: placed_def)
  show "placed K c c1" "code_at (bcode (kcode K)) (length (code c1)) (jump_bytes op' d)" "placed K (emitJump op c1) c'"
    using assms(1,4) f length_emitted [OF assms(2)] by (auto simp: placed_def eval_nat_numeral)
  show "length (code c1) + 3 \<le> length (code c')" using grows_len [OF g] by simp
  show "length (code c') \<le> 32767" using assms(1) by (simp add: placed_def fits_def)
qed

lemma keeps_locals: "keeps c c' \<Longrightarrow> locals c' = locals c"
  by (simp add: keeps_def)

text \<open>A conditional jump between two states of the compiler.\<close>

lemma goes_branch:
  assumes "live K" "code_at (bcode (kcode K)) (length (code c1)) (jump_bytes op (int to - int (length (code c1) + 3)))"
    "to \<le> 32767" "length (code c1) + 3 \<le> 32767"
    "op = OP_JUMP_IF_NIL \<and> j = cond_nil v \<or> op = OP_JUMP_IF_NOT_NIL \<and> j = (\<not> cond_nil v)"
  shows "goes W (starts W K c1 env (ts @ [v])) (vm_at W K (locals c1) (if j then to else length (code c1) + 3) env ts)"
  by (rule goes_jump_if [OF assms(1,2) _ _ _ assms(5)]) (use assms(3,4) in auto)

lemma leads_end_nil:
  assumes "live K" "code_at (bcode (kcode K)) pc [op_byte OP_NIL]"
  shows "leads W n (vm_at W K ns pc env ts) (Value (CELL_NIL, env)) (finish W K ns t (Suc pc) ts)"
  by (rule leads_step [OF goes_push [OF assms, of "Own CELL_NIL"]]) (auto simp: vm_dispatch_simps intro!: leads_done finishI)

section \<open>Logical forms\<close>

lemma sim_and:
  assumes "\<And>e. e \<in> set es \<Longrightarrow> simulates W n me e" "es \<noteq> []" "pending ps c" "compile_and (wenv W) c ps es t = Compiled c'"
    "ready W K me c" "placed K c c'" "literals_list me es"
  shows "leads W n (starts W K c env ts) (ev_and W me n env es) (stops W K t c' ts)"
  using assms
proof (induction es arbitrary: c ps env)
  case (Cons e es)
  note live = ready_live [OF Cons.prems(5)]
  have cl: "closes (length (code c') - 1) ps c c'" "ps \<noteq> [] \<Longrightarrow> \<exists>xs. emitted c c' = xs @ [op_byte OP_NIL]"
    using compile_and_closes [OF compile_tidy Cons.prems(2-4)] by auto
  show ?case
  proof (cases "es = []")
    case True
    obtain c1 where c1: "compileExpr (wenv W) c e t = Compiled c1"
      "c' = (if ps = [] then c1 else patchJump (jump_pos c1) (emitOp OP_NIL (fold patchJump (rev ps) (emitJump OP_JUMP c1))))"
      using Cons.prems(4) True by (auto simp: compile_and.simps [of _ _ _ "[e]"] then_c_Compiled)
    have k: "keeps c c1" using compile_keeps [OF c1(1)] .
    have e: "ev_and W me n env (e # es) = ev W me n env e" using True by (simp add: ev_and.simps [of _ _ _ _ "[e]"])
    show ?thesis
    proof (cases "ps = []")
      case True
      then show ?thesis unfolding e using simulatesD [OF Cons.prems(1) c1(1) Cons.prems(5)] Cons.prems(6,7) c1(2) by simp
    next
      case False
      have b: "emitted c c' = emitted c c1 @ jump_bytes OP_JUMP 1 @ [op_byte OP_NIL]" "length (code c') = length (code c1) + 4"
        "grows c1 c'" "locals c' = locals c1"
        using and_end [OF k Cons.prems(3) False c1(2) [simplified if_not_P [OF False]]] by auto
      have p: "placed K c c1" "code_at (bcode (kcode K)) (length (code c1)) (jump_bytes OP_JUMP 1)"
        using Cons.prems(6) b fits_grows [OF _ _ keeps_grows(1) [OF k] b(3)] length_emitted [OF k] by (auto simp: placed_def)
      have "leads W n (starts W K c env ts) (ev W me n env e) (stops W K t c1 ts)"
        using simulatesD [OF Cons.prems(1) c1(1) Cons.prems(5) p(1)] Cons.prems(7) by simp
      then show ?thesis unfolding e b(4)
        by (rule leads_last) (rule goes_jump [OF live p(2)], use b(2) in auto)
    qed
  next
    case False
    obtain c1 where c1: "compileExpr (wenv W) c e False = Compiled c1"
      "compile_and (wenv W) (emitJump OP_JUMP_IF_NIL c1) (jump_pos c1 # ps) es t = Compiled c'"
      using Cons.prems(4) False by (auto simp: compile_and.simps [of _ _ _ "e # es"] then_c_Compiled split: if_splits)
    let ?c2 = "emitJump OP_JUMP_IF_NIL c1" and ?T = "length (code c') - 1"
    have k: "keeps c c1" using compile_keeps [OF c1(1)] .
    have pj: "pending (jump_pos c1 # ps) ?c2" by (rule pending_jump [OF k Cons.prems(3)])
    have r: "closes ?T (jump_pos c1 # ps) ?c2 c'" "\<exists>xs. emitted ?c2 c' = xs @ [op_byte OP_NIL]"
      using compile_and_closes [OF compile_tidy False pj c1(2)] by auto
    note p = placed_jump [OF Cons.prems(6) k r(1) closes_emitted(2) [OF k Cons.prems(3) r(1)]]
    have T: "code_at (bcode (kcode K)) ?T [op_byte OP_NIL]" "Suc ?T = length (code c')" "locals c' = locals c1"
    proof -
      obtain xs where xs: "emitted ?c2 c' = xs @ [op_byte OP_NIL]" using r(2) by blast
      have "length (code c') = length (code ?c2) + length (emitted ?c2 c')" using closes_code [OF r(1)] by (metis length_append length_patches)
      then show "code_at (bcode (kcode K)) ?T [op_byte OP_NIL]" "Suc ?T = length (code c')" using p(3) xs by (auto simp: placed_def)
      show "locals c' = locals c1" using r(1) by (simp add: closes_def)
    qed
    have "leads W n (starts W K c env ts)
        (then_e (ev W me n env e) (\<lambda>(v, env1). if cond_nil v then Value (CELL_NIL, env1) else ev_and W me n env1 es)) (stops W K t c' ts)"
    proof (rule leads_expr [OF _ c1(1) Cons.prems(5) p(1)])
      fix v env1
      have g: "goes W (starts W K c1 env1 (ts @ [v])) (vm_at W K (locals c1) (if cond_nil v then ?T else length (code c1) + 3) env1 ts)"
        by (rule goes_branch [OF live p(2)]) (use p(4,5) in auto)
      have "leads W n (vm_at W K (locals c1) (if cond_nil v then ?T else length (code c1) + 3) env1 ts)
          (if cond_nil v then Value (CELL_NIL, env1) else ev_and W me n env1 es) (stops W K t c' ts)"
      proof (cases "cond_nil v")
        case True
        then show ?thesis using leads_end_nil [OF live T(1)] T(2,3) by simp
      next
        case nonnil: False
        have "leads W n (starts W K ?c2 env1 ts) (ev_and W me n env1 es) (stops W K t c' ts)"
          using Cons.IH [OF _ False pj c1(2) ready_keeps [OF Cons.prems(5) keeps_trans [OF k keeps_emitJump]] p(3)] Cons.prems(1,7) by simp
        then show ?thesis using nonnil by (simp add: eval_nat_numeral)
      qed
      then show "leads W n (starts W K c1 env1 (ts @ [v]))
          (case (v, env1) of (v, env1) \<Rightarrow> if cond_nil v then Value (CELL_NIL, env1) else ev_and W me n env1 es) (stops W K t c' ts)"
        unfolding prod.case by (rule leads_step [OF g])
    qed (use Cons.prems in auto)
    then show ?thesis using False by (simp add: ev_and.simps [of _ _ _ _ "e # es"])
  qed
qed simp

text \<open>The end of \<^verbatim>\<open>or\<close> and \<^verbatim>\<open>cond\<close>: nothing is emitted behind the last part.\<close>

lemma placed_patch_all:
  assumes "keeps c c1" "placed K c (fold patchJump (rev ps) c1)" "pending ps c"
  shows "placed K c c1"
proof -
  have c: "closes (length (code c1)) ps c (fold patchJump (rev ps) c1)" using closes_all [OF assms(1,3)] .
  have "closes (length (code c1)) ps c1 (fold patchJump (rev ps) c1)" using closes_all [OF keeps_refl pending_keeps [OF assms(3,1)]] .
  then have "emitted c (fold patchJump (rev ps) c1) = emitted c c1"
    using emitted_closes [OF assms(1,3)] by (simp add: emitted_def [of c1] patch_all)
  moreover have "fits K c1" using assms(2) by (simp add: placed_def fits_def patch_all)
  ultimately show ?thesis using assms(2) by (simp add: placed_def)
qed

lemma sim_or:
  assumes "\<And>e. e \<in> set es \<Longrightarrow> simulates W n me e" "es \<noteq> []" "pending ps c" "compile_or (wenv W) c ps es t = Compiled c'"
    "ready W K me c" "placed K c c'" "literals_list me es"
  shows "leads W n (starts W K c env ts) (ev_or W me n env es) (stops W K t c' ts)"
  using assms
proof (induction es arbitrary: c ps env)
  case (Cons e es)
  note live = ready_live [OF Cons.prems(5)]
  show ?case
  proof (cases "es = []")
    case True
    obtain c1 where c1: "compileExpr (wenv W) c e t = Compiled c1" "c' = fold patchJump (rev ps) c1"
      using Cons.prems(4) True by (auto simp: compile_or.simps [of _ _ _ "[e]"] then_c_Compiled)
    have "placed K c c1" using placed_patch_all [OF compile_keeps [OF c1(1)]] Cons.prems(3,6) c1(2) by simp
    from simulatesD [OF Cons.prems(1) c1(1) Cons.prems(5) this] show ?thesis
      using Cons.prems(7) True c1(2) by (simp add: ev_or.simps [of _ _ _ _ "[e]"] patch_all)
  next
    case False
    obtain c1 where c1: "compileExpr (wenv W) c e False = Compiled c1"
      "compile_or (wenv W) (emitOp OP_POP (emitJump OP_JUMP_IF_NOT_NIL (emitOp OP_DUP c1))) (jump_pos (emitOp OP_DUP c1) # ps) es t = Compiled c'"
      using Cons.prems(4) False by (auto simp: compile_or.simps [of _ _ _ "e # es"] then_c_Compiled Let_def split: if_splits)
    let ?c2 = "emitOp OP_DUP c1" and ?T = "length (code c')"
    let ?c3 = "emitJump OP_JUMP_IF_NOT_NIL ?c2"
    let ?c4 = "emitOp OP_POP ?c3"
    have k: "keeps c c1" "keeps c ?c2" using compile_keeps [OF c1(1)] keeps_trans [OF _ keeps_emitOp] by auto
    have pj: "pending (jump_pos ?c2 # ps) ?c3" by (rule pending_jump [OF k(2) Cons.prems(3)])
    have pj4: "pending (jump_pos ?c2 # ps) ?c4" by (rule pending_keeps [OF pj keeps_emitOp])
    have r4: "closes ?T (jump_pos ?c2 # ps) ?c4 c'" by (rule compile_or_closes [OF compile_tidy False pj4 c1(2)])
    have r: "closes ?T (jump_pos ?c2 # ps) ?c3 c'" using closes_after [OF keeps_emitOp pj r4] by blast
    note p = placed_jump [OF Cons.prems(6) k(2) r closes_emitted(2) [OF k(2) Cons.prems(3) r]]
    have p1: "placed K c c1" "placed K c1 ?c2" using placed_split [OF p(1) k(1) keeps_emitOp] by auto
    note p4 = placed_closes [OF p(3) keeps_emitOp pj r4]
    have L: "locals c' = locals c1" using r by (simp add: closes_def)
    have "leads W n (starts W K c env ts)
        (then_e (ev W me n env e) (\<lambda>(v, env1). if cond_nil v then ev_or W me n env1 es else Value (v, env1))) (stops W K t c' ts)"
    proof (rule leads_expr [OF _ c1(1) Cons.prems(5) p1(1)])
      fix v env1
      have g: "goes W (starts W K ?c2 env1 ((ts @ [v]) @ [v])) (vm_at W K (locals ?c2) (if \<not> cond_nil v then ?T else length (code ?c2) + 3) env1 (ts @ [v]))"
        by (rule goes_branch [OF live p(2)]) (use p(4,5) in auto)
      have "leads W n (vm_at W K (locals ?c2) (if \<not> cond_nil v then ?T else length (code ?c2) + 3) env1 (ts @ [v]))
          (if cond_nil v then ev_or W me n env1 es else Value (v, env1)) (stops W K t c' ts)"
      proof (cases "cond_nil v")
        case nil: True
        have "leads W n (starts W K ?c4 env1 ts) (ev_or W me n env1 es) (stops W K t c' ts)"
          using Cons.IH [OF _ False pj4 c1(2) ready_keeps [OF Cons.prems(5) keeps_trans [OF k(2) keeps_trans [OF keeps_emitJump keeps_emitOp]]] p4(2)]
            Cons.prems(1,7) by simp
        from leads_step [OF goes_emit_pop [OF live p4(1)] this] show ?thesis using nil by (simp add: eval_nat_numeral)
      next
        case nonnil: False
        then show ?thesis using L by (auto intro!: leads_done finishI)
      qed
      from leads_step [OF g this] have "leads W n (starts W K ?c2 env1 (ts @ [v, v]))
          (if cond_nil v then ev_or W me n env1 es else Value (v, env1)) (stops W K t c' ts)" by simp
      then show "leads W n (starts W K c1 env1 (ts @ [v]))
          (case (v, env1) of (v, env1) \<Rightarrow> if cond_nil v then ev_or W me n env1 es else Value (v, env1)) (stops W K t c' ts)"
        unfolding prod.case by (rule leads_step [OF goes_emit_dup [OF live p1(2)]])
    qed (use Cons.prems in auto)
    then show ?thesis using False by (simp add: ev_or.simps [of _ _ _ _ "e # es"])
  qed
qed simp

lemma sim_clauses:
  assumes "\<And>e. size e < cells_size cs \<Longrightarrow> simulates W n me e" "pending ps c" "compile_clauses (wenv W) c ps cs t = Compiled c'"
    "ready W K me c" "placed K c c'" "literals_list me cs"
  shows "leads W n (starts W K c env (ts @ [v])) (ev_clauses W me n env v cs) (stops W K t c' ts)"
  using assms
proof (induction cs arbitrary: c ps env v)
  case Nil
  then show ?case by (auto simp: compile_clauses.simps ev_clauses.simps patch_all intro!: leads_done finishI)
next
  case (Cons x cs)
  note live = ready_live [OF Cons.prems(4)]
  note step = Cons.prems(3) [unfolded compile_clauses.simps [of _ _ _ "x # cs"]]
  obtain es where x: "x = CELL_EXPRESSION es" using step by (cases x) auto
  have IH: "leads W n (starts W K c env (ts @ [v])) (ev_clauses W me n env v cs) (stops W K t c' ts)"
    if "pending ps c" "compile_clauses (wenv W) c ps cs t = Compiled c'" "ready W K me c" "placed K c c'" for ps c env v
    using Cons.IH [OF _ that] Cons.prems(1,6) by simp
  show ?case
  proof (cases es)
    case Nil
    then show ?thesis using step x IH [OF Cons.prems(2) _ Cons.prems(4,5)] by (simp add: ev_clauses.simps [of _ _ _ _ _ "CELL_EXPRESSION [] # cs"])
  next
    case es: (Cons test body)
    have "length ps < 64" using step x es by (auto simp: then_c_Compiled Let_def split: if_splits)
    then obtain c1 c4 where c: "compileExpr (wenv W) (emitOp OP_POP c) test False = Compiled c1"
      "(if body = [] then Compiled (emitJump OP_JUMP_IF_NIL (emitOp OP_DUP c1))
        else compile_body (wenv W) (emitOp OP_POP (emitJump OP_JUMP_IF_NIL (emitOp OP_DUP c1))) body t) = Compiled c4"
      "compile_clauses (wenv W) (patchJump (jump_pos (emitOp OP_DUP c1)) (emitJump OP_JUMP c4)) (jump_pos c4 # ps) cs t = Compiled c'"
      using step x es by (auto simp: then_c_Compiled Let_def)
    let ?c0 = "emitOp OP_POP c" and ?c2 = "emitOp OP_DUP c1" and ?T = "length (code c')"
    let ?c3 = "emitJump OP_JUMP_IF_NIL ?c2" and ?t = "length (code c4) + 3"
    let ?c5 = "patchBack ?t (jump_pos ?c2) c4"
    have k1: "keeps ?c0 c1" using compile_keeps [OF c(1)] .
    have k2: "keeps c c1" "keeps c ?c2" using keeps_trans [OF keeps_emitOp k1] keeps_trans [OF _ keeps_emitOp] by auto
    have k3: "keeps ?c3 c4"
    proof (cases "body = []")
      case False
      then have "keeps (emitOp OP_POP ?c3) c4" using c(2) compile_body_keeps [OF compile_tidy] by simp
      then show ?thesis using keeps_trans [OF keeps_emitOp] by blast
    qed (use c(2) in simp)
    note k5 = keeps_patched_jump [OF k2(2) k3, of ?t]
    have "jump_pos ?c2 + 1 < length (code c4)" using extends_len [of ?c3 c4] k3 by (simp add: keeps_def jump_pos_def)
    then have e: "patchJump (jump_pos ?c2) (emitJump OP_JUMP c4) = emitJump OP_JUMP ?c5" by (rule patch_emitJump)
    have pj: "pending (jump_pos ?c5 # ps) (emitJump OP_JUMP ?c5)" by (rule pending_jump [OF k5(1) Cons.prems(2)])
    have c3: "compile_clauses (wenv W) (emitJump OP_JUMP ?c5) (jump_pos ?c5 # ps) cs t = Compiled c'" using c(3) e by simp
    have r: "closes ?T (jump_pos ?c5 # ps) (emitJump OP_JUMP ?c5) c'" by (rule compile_clauses_closes [OF compile_tidy pj c3])
    note p = placed_jump [OF Cons.prems(5) k5(1) r closes_emitted(2) [OF k5(1) Cons.prems(2) r]]
    have l4: "length (code c4) = length (code ?c2) + 3 + length (emitted ?c3 c4)" using length_emitted [OF k3] by simp
    have f: "fits K c1" "fits K ?c2" "fits K ?c3" "fits K c4"
    proof -
      show f4: "fits K c4" using p(1) by (simp add: placed_def fits_def)
      have "keeps c c4" using keeps_trans [OF k2(2) keeps_trans [OF keeps_emitJump k3]] .
      moreover have "fits K c" using p(1) by (simp add: placed_def)
      ultimately show "fits K c1" "fits K ?c2" "fits K ?c3"
        using f4 fits_keeps [OF _ f4 k2(1)] fits_keeps [OF _ f4 k2(2)] fits_keeps [OF _ f4 keeps_trans [OF k2(2) keeps_emitJump] k3]
          keeps_trans [OF keeps_emitOp keeps_trans [OF keeps_emitJump k3]] keeps_trans [OF keeps_emitJump k3] by auto
    qed
    have q: "placed K c ?c2" "code_at (bcode (kcode K)) (length (code ?c2)) (jump_bytes OP_JUMP_IF_NIL (int ?t - int (length (code ?c2) + 3)))"
      "placed K ?c3 c4"
      using p(1) [unfolded placed_def k5(2) code_at_parts [OF k2(2), of _ _ _ _ OP_JUMP_IF_NIL]] f by (simp_all add: placed_def)
    have q1: "placed K c ?c0" "placed K ?c0 c1" "placed K c1 ?c2"
      using placed_split [OF q(1) keeps_emitOp keeps_trans [OF k1 keeps_emitOp]] placed_split [OF _ k1 keeps_emitOp] by auto
    have L: "locals c' = locals c" "locals c1 = locals c" "locals c4 = locals c"
      using r keeps_locals [OF k2(1)] keeps_locals [OF k3] keeps_locals [OF k5(1)] by (simp_all add: closes_def)
    have small: "simulates W n me test" "\<And>e. e \<in> set body \<Longrightarrow> simulates W n me e" "literals me test" "literals_list me body" "literals_list me cs"
      using Cons.prems(1,6) x es literals_expression [of me es] by (auto intro!: Cons.prems(1) dest: size_list_estimation' [of _ _ _ size])
    have g5: "goes W (vm_at W K (locals c) (length (code c4)) env (ts @ [v])) (vm_at W K (locals c) ?T env (ts @ [v]))" for env v
      using goes_jump [OF live p(2), of ?T] p(4,5) by simp
    have "leads W n (starts W K ?c0 env ts)
        (then_e (ev W me n env test) (\<lambda>(x, env1).
               if cond_nil x then ev_clauses W me n env1 x cs
               else if body = [] then Value (x, env1)
               else ev_body W me n env1 body)) (stops W K t c' ts)"
    proof (rule leads_expr [OF small(1) c(1) ready_keeps [OF Cons.prems(4) keeps_emitOp] q1(2) small(3)])
      fix v env1
      let ?r = "if cond_nil v then ev_clauses W me n env1 v cs else if body = [] then Value (v, env1) else ev_body W me n env1 body"
      have g: "goes W (starts W K ?c2 env1 ((ts @ [v]) @ [v])) (vm_at W K (locals ?c2) (if cond_nil v then ?t else length (code ?c2) + 3) env1 (ts @ [v]))"
        by (rule goes_branch [OF live q(2)]) (use p(4,5) l4 in auto)
      have "leads W n (vm_at W K (locals ?c2) (if cond_nil v then ?t else length (code ?c2) + 3) env1 (ts @ [v])) ?r (stops W K t c' ts)"
      proof (cases "cond_nil v")
        case True
        have "leads W n (starts W K (emitJump OP_JUMP ?c5) env1 (ts @ [v])) (ev_clauses W me n env1 v cs) (stops W K t c' ts)"
          by (rule IH [OF pj c3 ready_keeps [OF Cons.prems(4) keeps_trans [OF k5(1) keeps_emitJump]] p(3)])
        then show ?thesis using True L by (simp add: eval_nat_numeral code_patchBack)
      next
        case nonnil: False
        show ?thesis
        proof (cases "body = []")
          case True
          then have "length (code c4) = length (code ?c2) + 3" using c(2) by auto
          moreover have "leads W n (vm_at W K (locals c) (length (code c4)) env1 (ts @ [v])) (Value (v, env1)) (stops W K t c' ts)"
            by (rule leads_step [OF g5 leads_done]) (use L in \<open>auto intro!: finishI\<close>)
          ultimately show ?thesis using nonnil True L by simp
        next
          case False
          then have b: "compile_body (wenv W) (emitOp OP_POP ?c3) body t = Compiled c4" using c(2) by simp
          have kb: "keeps (emitOp OP_POP ?c3) c4" using compile_body_keeps [OF compile_tidy b] .
          have qb: "placed K ?c3 (emitOp OP_POP ?c3)" "placed K (emitOp OP_POP ?c3) c4" using placed_split [OF q(3) keeps_emitOp kb] by auto
          have "leads W n (starts W K (emitOp OP_POP ?c3) env1 ts) (ev_body W me n env1 body) (stops W K t c4 ts)"
            using sim_body [OF small(2) False b _ qb(2) small(4)] ready_keeps [OF Cons.prems(4) keeps_trans [OF k2(2) keeps_trans [OF keeps_emitJump keeps_emitOp]]]
            by simp
          then have "leads W n (starts W K (emitOp OP_POP ?c3) env1 ts) (ev_body W me n env1 body) (stops W K t c' ts)"
            unfolding L by (rule leads_last) (rule g5)
          from leads_step [OF goes_emit_pop [OF live qb(1)] this] show ?thesis using nonnil False by (simp add: eval_nat_numeral)
        qed
      qed
      from leads_step [OF g this] have "leads W n (starts W K ?c2 env1 (ts @ [v, v])) ?r (stops W K t c' ts)" by simp
      then show "leads W n (starts W K c1 env1 (ts @ [v])) (case (v, env1) of (x, env1) \<Rightarrow>
               if cond_nil x then ev_clauses W me n env1 x cs
               else if body = [] then Value (x, env1)
               else ev_body W me n env1 body) (stops W K t c' ts)"
        unfolding prod.case by (rule leads_step [OF goes_emit_dup [OF live q1(3)]])
    qed
    from leads_step [OF goes_emit_pop [OF live q1(1)] this] show ?thesis
      using x es by (simp add: ev_clauses.simps [of _ _ _ _ _ "CELL_EXPRESSION (test # body) # cs"])
  qed
qed

end
