(* ===== verification/NL_Scopes.thy ===== *)
theory NL_Scopes
  imports NL_Placed
begin

text \<open>
  Scopes (\<^verbatim>\<open>let\<close>, \<^verbatim>\<open>local\<close>), branches and loops of the compiler. Each lemma \<open>sim_\<close> states that the
  code of a form does what the form means when the code of its parts does. A local variable opened by
  the compiler is a slot of the frame whose old content the environment hides (a value \<open>None\<close>).
\<close>

section \<open>Scopes\<close>

lemma extends_grows: "extends c c' \<Longrightarrow> grows c c'"
  by (simp add: extends_def)

lemma opens_extends: "opens c c' \<Longrightarrow> extends c c'"
  by (simp add: opens_def)

lemma keeps_extends: "keeps c c' \<Longrightarrow> extends c c'"
  by (simp add: keeps_def)

lemma extends_trans: "keeps a b \<Longrightarrow> extends b c \<Longrightarrow> extends a c"
  using grows_trans [of a b c] prefix_order.trans by (auto simp: extends_def keeps_def)

lemma extends_emitted: "extends c c' \<Longrightarrow> code c' = code c @ emitted c c'"
  by (auto simp: extends_def emitted_def prefix_def)

lemma placed_extends:
  assumes "placed K c c'" "extends c c1" "extends c1 c'"
  shows "placed K c c1 \<and> placed K c1 c'"
proof -
  have "fits K c1" using assms fits_grows extends_grows by (metis placed_def)
  moreover have "emitted c c' = emitted c c1 @ emitted c1 c'"
    using extends_emitted [OF assms(2)] extends_emitted [OF assms(3)] by (metis append.assoc append_eq_conv_conj emitted_def)
  moreover have "length (code c1) = length (code c) + length (emitted c c1)"
    using extends_emitted [OF assms(2)] by (metis length_append)
  ultimately show ?thesis using assms(1) by (auto simp: placed_def)
qed

lemma ready_opens: "ready W K me c \<Longrightarrow> opens c c' \<Longrightarrow> ready W K me c'"
  by (auto simp: ready_def opens_def extends_def grows_def)

text \<open>A new local: its slot holds an old value until it is stored to.\<close>

lemma leads_open:
  assumes "addLocal x c = Compiled c0" "fits K c0" "leads W n (starts W K c0 (env @ [(x, None)]) ts) r Q"
  shows "leads W n (starts W K c env ts) r Q"
proof (rule leads_pre [OF assms(3)])
  fix m assume m: "starts W K c env ts m"
  have a: "locals c0 = locals c @ [x]" "code c0 = code c" "max_locals c0 \<ge> Suc (length (locals c))"
    using assms(1) by (auto simp: addLocal_def split: if_splits)
  have "map fst env = locals c" using m by (simp add: vm_at_def)
  then have "length env < ksize K" using a(3) assms(2) by (metis Suc_le_lessD fits_def le_trans length_map)
  then show "starts W K c0 (env @ [(x, None)]) ts m" using m a stack_at_open by (auto simp: vm_at_def)
qed

text \<open>Storing into the slot opened last.\<close>

lemma goes_store_new:
  assumes "live K" "placed K c1 (emitStore (length (locals c)) c1)" "addLocal x c = Compiled c0" "locals c1 = locals c0" "map fst env = locals c0"
  shows "goes W (starts W K c1 env (ts @ [v])) (starts W K (emitStore (length (locals c)) c1) (env_set (length (locals c)) v env) ts)"
proof (rule goes_emit_store [OF assms(1,2)])
  have "locals c0 = locals c @ [x]" "length (locals c) < MAX_LOCALS" using assms(3) by (auto simp: addLocal_def split: if_splits)
  then show "length (locals c) < length env" "length (locals c) < MAX_LOCALS"
    using arg_cong [OF assms(5), of length] by simp_all
qed

lemma names_length: "map fst env = ns \<Longrightarrow> length env = length ns"
  by auto

text \<open>One binding of \<^verbatim>\<open>let\<close> and what follows.\<close>

lemma sim_binding:
  assumes "simulates W n me e" "addLocal (Some s) c = Compiled c0" "compileExpr (wenv W) c0 e False = Compiled c1"
    "extends (emitStore (length (locals c)) c1) c'" "ready W K me c" "placed K c c'" "literals me e"
    "\<And>env2. ready W K me (emitStore (length (locals c)) c1) \<Longrightarrow> placed K (emitStore (length (locals c)) c1) c' \<Longrightarrow>
      leads W n (starts W K (emitStore (length (locals c)) c1) env2 ts) (f env2) Q"
  shows "leads W n (starts W K c env ts)
    (then_e (ev W me n (env @ [(Some s, None)]) e) (\<lambda>(v, env1). f (env_set (length env) v env1))) Q"
proof (rule vm_at_names)
  assume n: "map fst env = locals c"
  let ?c2 = "emitStore (length (locals c)) c1"
  have o: "opens c c0" using addLocal_opens [OF assms(2)] by blast
  have k: "keeps c0 c1" "keeps c1 ?c2" using compile_keeps [OF assms(3)] keeps_emitStore by auto
  have "extends c0 c'" by (rule extends_trans [OF keeps_trans [OF k] assms(4)])
  then have p0: "placed K c c0" "placed K c0 c'" using placed_extends [OF assms(6) opens_extends [OF o]] by auto
  have e12: "extends c1 c'" by (rule extends_trans [OF k(2) assms(4)])
  have p1: "placed K c0 c1" "placed K c1 c'" using placed_extends [OF p0(2) keeps_extends [OF k(1)] e12] by auto
  have p2: "placed K c1 ?c2" "placed K ?c2 c'" using placed_extends [OF p1(2) keeps_extends [OF k(2)] assms(4)] by auto
  have r0: "ready W K me c0" using ready_opens [OF assms(5) o] .
  show "leads W n (starts W K c env ts)
      (then_e (ev W me n (env @ [(Some s, None)]) e) (\<lambda>(v, env1). f (env_set (length env) v env1))) Q"
  proof (rule leads_open [OF assms(2)])
    show "fits K c0" using p0(1) by (simp add: placed_def)
    show "leads W n (starts W K c0 (env @ [(Some s, None)]) ts)
        (then_e (ev W me n (env @ [(Some s, None)]) e) (\<lambda>(v, env1). f (env_set (length env) v env1))) Q"
    proof (rule leads_expr [OF assms(1,3) r0 p1(1) assms(7)])
      fix v env1
      show "leads W n (starts W K c1 env1 (ts @ [v])) (case (v, env1) of (v, env1) \<Rightarrow> f (env_set (length env) v env1)) Q"
      proof (rule vm_at_names)
        assume n1: "map fst env1 = locals c1"
        have l: "locals c1 = locals c0" using keeps_locals [OF k(1)] .
        have "leads W n (starts W K ?c2 (env_set (length (locals c)) v env1) ts) (f (env_set (length (locals c)) v env1)) Q"
          by (rule assms(8)) (use ready_keeps [OF r0 keeps_trans [OF k]] p2(2) in auto)
        from leads_step [OF goes_store_new [OF ready_live [OF assms(5)] p2(1) assms(2) l] this]
        show "leads W n (starts W K c1 env1 (ts @ [v])) (case (v, env1) of (v, env1) \<Rightarrow> f (env_set (length env) v env1)) Q"
          using n1 l names_length [OF n] by simp
      qed
    qed
  qed
qed

lemma leads_nil_store:
  assumes "addLocal (Some s) c = Compiled c0" "ready W K me c" "placed K c (emitStore (length (locals c)) (emitOp OP_NIL c0))"
    "leads W n (starts W K (emitStore (length (locals c)) (emitOp OP_NIL c0)) (env @ [(Some s, Some CELL_NIL)]) ts) r Q"
  shows "leads W n (starts W K c env ts) r Q"
proof (rule vm_at_names)
  assume n: "map fst env = locals c"
  let ?c1 = "emitOp OP_NIL c0"
  let ?c2 = "emitStore (length (locals c)) ?c1"
  have o: "extends c c0" "extends c0 ?c1" "extends ?c1 ?c2" "extends c0 ?c2" "locals c0 = locals c @ [Some s]"
    using addLocal_opens [OF assms(1)] opens_extends keeps_extends keeps_emitOp keeps_emitStore keeps_trans [OF keeps_emitOp keeps_emitStore] by auto
  have p: "placed K c c0" "placed K c0 ?c1" "placed K ?c1 ?c2"
    using placed_extends [OF assms(3) o(1,4)] placed_extends [OF _ o(2,3)] by auto
  note live = ready_live [OF assms(2)]
  have e: "env_set (length (locals c)) CELL_NIL (env @ [(Some s, None)]) = env @ [(Some s, Some CELL_NIL)]"
    using names_length [OF n, symmetric] by (simp add: env_set_def nth_append list_update_append)
  show "leads W n (starts W K c env ts) r Q"
  proof (rule leads_open [OF assms(1)])
    show "fits K c0" using p(1) by (simp add: placed_def)
    have g1: "goes W (starts W K c0 (env @ [(Some s, None)]) ts) (starts W K ?c1 (env @ [(Some s, None)]) (ts @ [CELL_NIL]))"
      by (rule goes_emit_push [OF live p(2)]) (simp add: vm_dispatch_simps)
    have g2: "goes W (starts W K ?c1 (env @ [(Some s, None)]) (ts @ [CELL_NIL])) (starts W K ?c2 (env @ [(Some s, Some CELL_NIL)]) ts)"
      using goes_store_new [OF live p(3) assms(1), of "env @ [(Some s, None)]" W ts CELL_NIL] n o(5) e by simp
    show "leads W n (starts W K c0 (env @ [(Some s, None)]) ts) r Q"
      by (rule leads_step [OF g1 leads_step [OF g2 assms(4)]])
  qed
qed

lemma sim_lets:
  assumes "\<And>e. size e < Suc (cells_size bs) \<Longrightarrow> simulates W n me e" "compile_lets (wenv W) c bs = Compiled c'"
    "ready W K me c" "placed K c c'" "literals_list me bs"
  shows "leads W n (starts W K c env ts) (ev_lets W me n env bs) (\<lambda>env'. running (starts W K c' env' ts))"
  using assms
proof (induction "length bs" arbitrary: bs c env rule: less_induct)
  case less
  note step = less.prems(2) [unfolded compile_lets.simps [of _ _ bs]]
  have bind: "leads W n (starts W K c env ts)
        (then_e (ev W me n (env @ [(Some s, None)]) e) (\<lambda>(v, env1). ev_lets W me n (env_set (length env) v env1) rest))
        (\<lambda>env'. running (starts W K c' env' ts))"
    if "size e < Suc (cells_size bs)" "addLocal (Some s) c = Compiled c0" "compileExpr (wenv W) c0 e False = Compiled c1"
    "compile_lets (wenv W) (emitStore (length (locals c)) c1) rest = Compiled c'" "length rest < length bs" "cells_size rest \<le> cells_size bs"
    "literals me e" "literals_list me rest"
    for e s c0 c1 rest
  proof (rule sim_binding [OF less.prems(1) [OF that(1)] that(2,3) _ less.prems(3,4) that(7)])
    show "extends (emitStore (length (locals c)) c1) c'"
      using opens_extends compile_lets_opens [OF compile_tidy that(4)] .
    fix env2 assume "ready W K me (emitStore (length (locals c)) c1)" "placed K (emitStore (length (locals c)) c1) c'"
    then show "leads W n (starts W K (emitStore (length (locals c)) c1) env2 ts) (ev_lets W me n env2 rest) (\<lambda>env'. running (starts W K c' env' ts))"
      using less.hyps [OF that(5) _ that(4) _ _ that(8)] less.prems(1) that(6) by simp
  qed
  show ?case
  proof (cases bs)
    case Nil
    then show ?thesis using step by (auto simp: ev_lets.simps running_def intro: leads_done)
  next
    case (Cons b bs')
    show ?thesis
    proof (cases b)
      case (CELL_EXPRESSION qs)
      then obtain s e c0 c1 where q: "pair_binding qs = Some (s, e)" "addLocal (Some s) c = Compiled c0" "compileExpr (wenv W) c0 e False = Compiled c1"
        "compile_lets (wenv W) (emitStore (length (locals c)) c1) bs' = Compiled c'"
        using step Cons by (auto simp: then_c_Compiled split: option.splits)
      have "literals me e"
        using q(1) less.prems(5) Cons CELL_EXPRESSION literals_expression [of me qs]
        by (induction qs rule: pair_binding.induct) (auto simp: literals_def)
      then show ?thesis using bind [OF _ q(2-4)] Cons CELL_EXPRESSION pair_binding_size [OF q(1)] q(1) less.prems(5)
        by (simp add: ev_lets.simps [of _ _ _ _ "CELL_EXPRESSION qs # bs'"])
    next
      case (CELL_SYMBOL s)
      show ?thesis
      proof (cases bs')
        case Nil
        then obtain c0 where c0: "addLocal (Some s) c = Compiled c0" "c' = emitStore (length (locals c)) (emitOp OP_NIL c0)"
          using step Cons CELL_SYMBOL by (auto simp: then_c_Compiled)
        show ?thesis unfolding c0(2)
          by (rule leads_nil_store [OF c0(1) less.prems(3)])
             (use less.prems(4) c0(2) Nil Cons CELL_SYMBOL in \<open>auto simp: ev_lets.simps [of _ _ _ _ "[CELL_SYMBOL s]"] running_def intro!: leads_done\<close>)
      next
        case rest: (Cons e rest)
        then obtain c0 c1 where "addLocal (Some s) c = Compiled c0" "compileExpr (wenv W) c0 e False = Compiled c1"
          "compile_lets (wenv W) (emitStore (length (locals c)) c1) rest = Compiled c'"
          using step Cons CELL_SYMBOL by (auto simp: then_c_Compiled)
        then show ?thesis using bind [of e s c0 c1 rest] Cons CELL_SYMBOL rest less.prems(5)
          by (simp add: ev_lets.simps [of _ _ _ _ "CELL_SYMBOL s # e # rest"])
      qed
    qed (use step Cons in auto)
  qed
qed

lemma sim_locals:
  assumes "symbols_of vs = Some ss" "compile_locals vs c = Compiled c'" "ready W K me c" "placed K c c'"
    "leads W n (starts W K c' (env @ map (\<lambda>s. (Some s, Some CELL_NIL)) ss) ts) r Q"
  shows "leads W n (starts W K c env ts) r Q"
  using assms
proof (induction vs arbitrary: c env ss)
  case (Cons v vs)
  obtain s ss' where v: "v = CELL_SYMBOL s" "symbols_of vs = Some ss'" "ss = s # ss'"
    using Cons.prems(1) by (cases v) auto
  obtain c0 where c0: "addLocal (Some s) c = Compiled c0" "compile_locals vs (emitStore (length (locals c)) (emitOp OP_NIL c0)) = Compiled c'"
    using Cons.prems(2) v(1) by (auto simp: then_c_Compiled)
  let ?c2 = "emitStore (length (locals c)) (emitOp OP_NIL c0)"
  have o: "opens c ?c2" "opens ?c2 c'"
    using opens_trans [OF _ keeps_opens [OF keeps_trans [OF keeps_emitOp keeps_emitStore]]] addLocal_opens [OF c0(1)] compile_locals_opens [OF c0(2)] by auto
  have p: "placed K c ?c2" "placed K ?c2 c'" using placed_extends [OF Cons.prems(4) opens_extends [OF o(1)] opens_extends [OF o(2)]] by auto
  have "leads W n (starts W K ?c2 (env @ [(Some s, Some CELL_NIL)]) ts) r Q"
    by (rule Cons.IH [OF v(2) c0(2) ready_opens [OF Cons.prems(3) o(1)] p(2)]) (use Cons.prems(5) v(3) in simp)
  then show ?case by (rule leads_nil_store [OF c0(1) Cons.prems(3) p(1)])
qed auto

section \<open>Branches and loops\<close>

lemma length_patch [simp]: "length (code (patchJump p c)) = length (code c)" "length (code (patchBack to p c)) = length (code c)"
  by (simp_all add: code_patchJump code_patchBack)

lemma small_frame_patch [simp]:
  "small_frame (patchJump p c) = small_frame c" "small_frame (patchBack to p c) = small_frame c" "small_frame (emitJump op c) = small_frame c"
  by (simp_all add: small_frame_def)

lemma fits_patch [simp]: "fits K (patchJump p c) = fits K c" "fits K (patchBack to p c) = fits K c"
  by (simp_all add: fits_def)

lemma placed_branches:
  assumes "keeps c c1" "keeps (emitJump op1 c1) c2" "keeps (patchJump (jump_pos c1) (emitJump op2 c2)) c4"
    "placed K c (patchJump (jump_pos c2) c4)"
  shows "placed K c c1" "code_at (bcode (kcode K)) (length (code c1)) (jump_bytes op1 (int (length (code c2) + 3) - int (length (code c1) + 3)))"
    "placed K (emitJump op1 c1) c2"
    "code_at (bcode (kcode K)) (length (code c2)) (jump_bytes op2 (int (length (code c4)) - int (length (code c2) + 3)))"
    "placed K (patchJump (jump_pos c1) (emitJump op2 c2)) c4" "length (code c1) + 3 \<le> length (code c2)" "length (code c2) + 3 \<le> length (code c4)"
    "length (code c4) \<le> 32767"
proof -
  let ?c3 = "patchJump (jump_pos c1) (emitJump op2 c2)"
  note b = keeps_branches [OF assms(1-3)]
  have l4: "length (code c4) = length (code c2) + 3 + length (emitted ?c3 c4)" using length_emitted [OF assms(3)] b(3) by simp
  show len: "length (code c1) + 3 \<le> length (code c2)" "length (code c2) + 3 \<le> length (code c4)" using b(4) l4 by auto
  have f: "fits K c" "fits K c4" using assms(4) by (auto simp: placed_def)
  then show "length (code c4) \<le> 32767" by (simp add: fits_def)
  have g3: "grows c2 c4" using grows_trans [of "emitJump op2 c2" ?c3 c4] grows_trans [of c2 ?c3 c4] keeps_grows [OF assms(3)]
    by (simp add: grows_def)
  have k2: "keeps c c2" using keeps_trans [OF assms(1) keeps_trans [OF keeps_emitJump assms(2)]] .
  have f2: "fits K c2" by (rule fits_grows [OF f keeps_grows(1) [OF k2] g3])
  have f1: "fits K c1" "fits K (emitJump op1 c1)"
    using fits_keeps [OF f(1) f2 assms(1) keeps_trans [OF keeps_emitJump assms(2)]]
      fits_keeps [OF f(1) f2 keeps_trans [OF assms(1) keeps_emitJump] assms(2)] .
  have f3: "fits K ?c3" using f f2 len(2) by (simp add: fits_def)
  have p: "code_at (bcode (kcode K)) (length (code c)) (emitted c (patchJump (jump_pos c2) c4))" using assms(4) by (simp add: placed_def)
  have q: "code_at (bcode (kcode K)) (length (code c)) (emitted c c1)"
    "code_at (bcode (kcode K)) (length (code c1)) (jump_bytes op1 (int (length (code c2) + 3) - int (length (code c1) + 3)))"
    "code_at (bcode (kcode K)) (length (code c1) + 3) (emitted (emitJump op1 c1) c2)"
    "code_at (bcode (kcode K)) (length (code c2)) (jump_bytes op2 (int (length (code c4)) - int (length (code c2) + 3)))"
    "code_at (bcode (kcode K)) (length (code c2) + 3) (emitted ?c3 c4)"
    using p [unfolded b(2)] length_emitted [OF assms(1)] b(4) l4 by (simp_all add: ac_simps)
  show "placed K c c1" "placed K (emitJump op1 c1) c2" "placed K ?c3 c4"
    using q(1,3,5) f f1 f2 f3 b(3) by (simp_all add: placed_def eval_nat_numeral)
  show "code_at (bcode (kcode K)) (length (code c1)) (jump_bytes op1 (int (length (code c2) + 3) - int (length (code c1) + 3)))"
    "code_at (bcode (kcode K)) (length (code c2)) (jump_bytes op2 (int (length (code c4)) - int (length (code c2) + 3)))"
    using q(2,4) .
qed

lemma sim_branches:
  fixes c1 c2 :: compiler
  defines "c3 \<equiv> patchJump (jump_pos c1) (emitJump OP_JUMP c2)"
  assumes "simulates W n me test" "compileExpr (wenv W) c test False = Compiled c1" "keeps (emitJump OP_JUMP_IF_NIL c1) c2" "keeps c3 c4"
    "ready W K me c" "placed K c (patchJump (jump_pos c2) c4)" "literals me test"
    "\<And>env1. ready W K me (emitJump OP_JUMP_IF_NIL c1) \<Longrightarrow> placed K (emitJump OP_JUMP_IF_NIL c1) c2 \<Longrightarrow>
       leads W n (starts W K (emitJump OP_JUMP_IF_NIL c1) env1 ts) (yes env1) (stops W K t c2 ts)"
    "\<And>env1. ready W K me c3 \<Longrightarrow> placed K c3 c4 \<Longrightarrow> leads W n (starts W K c3 env1 ts) (no env1) (stops W K t c4 ts)"
  shows "leads W n (starts W K c env ts) (then_e (ev W me n env test) (\<lambda>(v, env1). if cond_nil v then no env1 else yes env1))
    (stops W K t (patchJump (jump_pos c2) c4) ts)"
proof -
  have k: "keeps c c1" using compile_keeps [OF assms(3)] .
  note live = ready_live [OF assms(6)]
  note p = placed_branches [OF k assms(4) assms(5) [unfolded c3_def] assms(7)]
  have r: "ready W K me (emitJump OP_JUMP_IF_NIL c1)" using ready_keeps [OF assms(6) keeps_trans [OF k keeps_emitJump]] .
  have r2: "ready W K me c2" by (rule ready_keeps [OF r assms(4)])
  have r3: "ready W K me c3" using r2 by (simp add: c3_def ready_def small_frame_def)
  have L: "locals c2 = locals c1" "locals c4 = locals c1" using keeps_locals [OF assms(4)] keeps_locals [OF assms(5)] by (simp_all add: c3_def)
  have g2: "goes W (vm_at W K (locals c1) (length (code c2)) env (ts @ [v])) (vm_at W K (locals c1) (length (code c4)) env (ts @ [v]))" for env v
    using goes_jump [OF live p(4), of "length (code c4)"] p(7,8) by simp
  show ?thesis
  proof (rule leads_expr [OF assms(2,3,6) p(1) assms(8)])
    fix v env1
    have g: "goes W (starts W K c1 env1 (ts @ [v])) (vm_at W K (locals c1) (if cond_nil v then length (code c2) + 3 else length (code c1) + 3) env1 ts)"
      by (rule goes_branch [OF live p(2)]) (use p(6-8) in auto)
    have "leads W n (vm_at W K (locals c1) (length (code c2) + 3) env1 ts) (no env1) (stops W K t c4 ts)"
      using assms(10) [OF r3 p(5) [folded c3_def], of env1] L by (simp add: c3_def eval_nat_numeral)
    moreover have "leads W n (vm_at W K (locals c1) (length (code c1) + 3) env1 ts) (yes env1) (stops W K t c4 ts)"
      using leads_last [OF assms(9) [OF r p(3), of env1], of "locals c1" "length (code c4)"] g2 L by (simp add: eval_nat_numeral)
    ultimately have "leads W n (vm_at W K (locals c1) (if cond_nil v then length (code c2) + 3 else length (code c1) + 3) env1 ts)
        (if cond_nil v then no env1 else yes env1) (stops W K t c4 ts)" by simp
    from leads_step [OF g this]
    show "leads W n (starts W K c1 env1 (ts @ [v])) (case (v, env1) of (v, env1) \<Rightarrow> if cond_nil v then no env1 else yes env1)
       (stops W K t (patchJump (jump_pos c2) c4) ts)" by simp
  qed
qed

lemma sim_nil:
  assumes "ready W K me c" "placed K c (emitOp OP_NIL c)"
  shows "leads W n (starts W K c env ts) (Value (CELL_NIL, env)) (stops W K t (emitOp OP_NIL c) ts)"
  using leads_end_nil [OF ready_live [OF assms(1)], of "length (code c)"] assms(2) by (simp add: placed_def)

lemma sim_if:
  assumes "\<And>e. size e < Suc (cells_size args) \<Longrightarrow> simulates W n me e" "compile_form (wenv W) c F_if args t = Compiled c'"
    "ready W K me c" "placed K c c'" "literals_list me args"
  shows "leads W n (starts W K c env ts) (ev_form W me n env F_if args) (stops W K t c' ts)"
  using assms(2)
proof (rule compile_if)
  fix test yes rest c1 c2 c4
  let ?c3 = "patchJump (jump_pos c1) (emitJump OP_JUMP c2)"
  assume a: "args = test # yes # rest" "compileExpr (wenv W) c test False = Compiled c1"
    "compileExpr (wenv W) (emitJump OP_JUMP_IF_NIL c1) yes t = Compiled c2"
    "(case rest of [] \<Rightarrow> Compiled (emitOp OP_NIL ?c3) | no # _ \<Rightarrow> compileExpr (wenv W) ?c3 no t) = Compiled c4"
    "c' = patchJump (jump_pos c2) c4"
  have k: "keeps ?c3 c4" using a(4) compile_keeps keeps_emitOp by (auto split: list.splits)
  have "leads W n (starts W K c env ts) (then_e (ev W me n env test) (\<lambda>(v, env1). if cond_nil v
       then (case rest of [] \<Rightarrow> Value (CELL_NIL, env1) | no # _ \<Rightarrow> ev W me n env1 no) else ev W me n env1 yes)) (stops W K t c' ts)"
    unfolding a(5)
  proof (rule sim_branches [OF _ a(2) compile_keeps [OF a(3)] k assms(3)])
    fix env1 assume "ready W K me (emitJump OP_JUMP_IF_NIL c1)" "placed K (emitJump OP_JUMP_IF_NIL c1) c2"
    then show "leads W n (starts W K (emitJump OP_JUMP_IF_NIL c1) env1 ts) (ev W me n env1 yes) (stops W K t c2 ts)"
      using simulatesD [OF _ a(3)] a(1) assms(1,5) by simp
  next
    fix env1 assume "ready W K me ?c3" "placed K ?c3 c4"
    then show "leads W n (starts W K ?c3 env1 ts) (case rest of [] \<Rightarrow> Value (CELL_NIL, env1) | no # _ \<Rightarrow> ev W me n env1 no) (stops W K t c4 ts)"
      using a(1,4) assms(1,5) sim_nil [of W K me ?c3] simulatesD [of W n me "hd rest" ?c3 t c4 K] by (cases rest) auto
  qed (use a(1,5) assms(1,4,5) in auto)
  then show ?thesis using a(1) by (simp add: ev_form.simps [of _ _ _ _ F_if])
qed

lemma sim_when:
  assumes "\<And>e. size e < Suc (cells_size args) \<Longrightarrow> simulates W n me e" "compile_form (wenv W) c F_when args t = Compiled c'"
    "ready W K me c" "placed K c c'" "literals_list me args"
  shows "leads W n (starts W K c env ts) (ev_form W me n env F_when args) (stops W K t c' ts)"
  using assms(2)
proof (rule compile_when)
  fix test assume "args = [test]" "compileExpr (wenv W) c test t = Compiled c'"
  moreover have "then_e r (\<lambda>(v, env1). Value (v, env1)) = r" for r :: "(cell \<times> env) eresult" by (cases r) auto
  ultimately show ?thesis using simulatesD [OF assms(1) _ assms(3,4)] assms(5) by (simp add: ev_form.simps [of _ _ _ _ F_when])
next
  fix test body c1 c2
  let ?c3 = "patchJump (jump_pos c1) (emitJump OP_JUMP c2)"
  assume a: "args = test # body" "body \<noteq> []" "compileExpr (wenv W) c test False = Compiled c1"
    "compile_body (wenv W) (emitJump OP_JUMP_IF_NIL c1) body t = Compiled c2" "c' = patchJump (jump_pos c2) (emitOp OP_NIL ?c3)"
  have small: "simulates W n me e" if "e \<in> set body" for e
    using member_size [OF that] assms(1) a(1) by simp
  have "leads W n (starts W K c env ts) (then_e (ev W me n env test) (\<lambda>(v, env1). if cond_nil v
       then Value (CELL_NIL, env1) else ev_body W me n env1 body)) (stops W K t c' ts)"
    unfolding a(5)
  proof (rule sim_branches [OF _ a(3) compile_body_keeps [OF compile_tidy a(4)] keeps_emitOp assms(3)])
    fix env1 assume "ready W K me ?c3" "placed K ?c3 (emitOp OP_NIL ?c3)"
    then show "leads W n (starts W K ?c3 env1 ts) (Value (CELL_NIL, env1)) (stops W K t (emitOp OP_NIL ?c3) ts)" by (rule sim_nil)
  next
    fix env1 assume "ready W K me (emitJump OP_JUMP_IF_NIL c1)" "placed K (emitJump OP_JUMP_IF_NIL c1) c2"
    then show "leads W n (starts W K (emitJump OP_JUMP_IF_NIL c1) env1 ts) (ev_body W me n env1 body) (stops W K t c2 ts)"
      using sim_body [OF small a(2,4)] a(1) assms(5) by simp
  qed (use a(1,5) assms(1,4,5) in auto)
  then show ?thesis using a(1,2) by (simp add: ev_form.simps [of _ _ _ _ F_when])
qed

text \<open>A loop: a test, a jump out, a body and the jump back.\<close>

lemma placed_loop:
  fixes start :: nat
  assumes "keeps c c1" "keeps (emitJump OP_JUMP_IF_NIL c1) c2"
    "placed K c (patchJump (jump_pos c1) (patchBack start (jump_pos c2) (emitJump OP_JUMP c2)))"
  shows "placed K c c1" "code_at (bcode (kcode K)) (length (code c1)) (jump_bytes OP_JUMP_IF_NIL (int (length (code c2) + 3) - int (length (code c1) + 3)))"
    "placed K (emitJump OP_JUMP_IF_NIL c1) c2"
    "code_at (bcode (kcode K)) (length (code c2)) (jump_bytes OP_JUMP (int start - int (length (code c2) + 3)))"
    "length (code c1) + 3 \<le> length (code c2)" "length (code c2) + 3 \<le> 32767"
proof -
  note b = keeps_loop(2) [OF assms(1,2), where start = start] keeps_loop(4) [OF assms(1,2)]
  show len: "length (code c1) + 3 \<le> length (code c2)" using b(2) by simp
  have f: "fits K c" "fits K (emitJump OP_JUMP c2)" using assms(3) by (auto simp: placed_def)
  then show "length (code c2) + 3 \<le> 32767" by (simp add: fits_def)
  have k2: "keeps c c2" using keeps_trans [OF assms(1) keeps_trans [OF keeps_emitJump assms(2)]] .
  have f2: "fits K c2" by (rule fits_keeps [OF f k2 keeps_emitJump])
  have f1: "fits K c1" "fits K (emitJump OP_JUMP_IF_NIL c1)"
    using fits_keeps [OF f(1) f2 assms(1) keeps_trans [OF keeps_emitJump assms(2)]]
      fits_keeps [OF f(1) f2 keeps_trans [OF assms(1) keeps_emitJump] assms(2)] .
  have q: "code_at (bcode (kcode K)) (length (code c)) (emitted c c1)"
    "code_at (bcode (kcode K)) (length (code c1)) (jump_bytes OP_JUMP_IF_NIL (int (length (code c2) + 3) - int (length (code c1) + 3)))"
    "code_at (bcode (kcode K)) (length (code c1) + 3) (emitted (emitJump OP_JUMP_IF_NIL c1) c2)"
    "code_at (bcode (kcode K)) (length (code c2)) (jump_bytes OP_JUMP (int start - int (length (code c2) + 3)))"
    using assms(3) length_emitted [OF assms(1)] b(2) by (simp_all add: placed_def b(1) ac_simps)
  show "placed K c c1" "placed K (emitJump OP_JUMP_IF_NIL c1) c2" using q(1,3) f(1) f1 f2 by (simp_all add: placed_def eval_nat_numeral)
  show "code_at (bcode (kcode K)) (length (code c1)) (jump_bytes OP_JUMP_IF_NIL (int (length (code c2) + 3) - int (length (code c1) + 3)))"
    "code_at (bcode (kcode K)) (length (code c2)) (jump_bytes OP_JUMP (int start - int (length (code c2) + 3)))"
    using q(2,4) .
qed

lemma goes_back:
  assumes "live K" "code_at (bcode (kcode K)) (length (code c2)) (jump_bytes OP_JUMP (int start - int (length (code c2) + 3)))"
    "length (code c2) + 3 \<le> 32767" "start \<le> length (code c2)"
  shows "goes W (starts W K c2 env ts) (vm_at W K (locals c2) start env ts)"
  by (rule goes_jump [OF assms(1,2)]) (use assms(3,4) in auto)

lemma sim_round:
  assumes "simulates W n me test" "\<And>e. e \<in> set body \<Longrightarrow> simulates W n me e"
    "compileExpr (wenv W) c test False = Compiled c1" "compile_discard (wenv W) (emitJump OP_JUMP_IF_NIL c1) body = Compiled c2"
    "ready W K me c" "placed K c (patchJump (jump_pos c1) (patchBack start (jump_pos c2) (emitJump OP_JUMP c2)))"
    "literals me test" "literals_list me body"
    "\<And>env1. leads W n (vm_at W K (locals c) (length (code c2) + 3) env1 ts) (done env1) Q"
    "\<And>env2. leads W n (starts W K c2 env2 ts) (again env2) Q"
  shows "leads W n (starts W K c env ts) (then_e (ev W me n env test) (\<lambda>(v, env1).
     if cond_nil v then done env1 else then_e (ev_discard W me n env1 body) again)) Q"
proof -
  have k: "keeps c c1" "keeps (emitJump OP_JUMP_IF_NIL c1) c2" using compile_keeps [OF assms(3)] compile_discard_keeps [OF compile_tidy assms(4)] .
  note live = ready_live [OF assms(5)]
  note p = placed_loop [OF k assms(6)]
  have r: "ready W K me (emitJump OP_JUMP_IF_NIL c1)" using ready_keeps [OF assms(5) keeps_trans [OF k(1) keeps_emitJump]] .
  show ?thesis
  proof (rule leads_expr [OF assms(1,3,5) p(1) assms(7)])
    fix v env1
    have g: "goes W (starts W K c1 env1 (ts @ [v])) (vm_at W K (locals c1) (if cond_nil v then length (code c2) + 3 else length (code c1) + 3) env1 ts)"
      by (rule goes_branch [OF live p(2)]) (use p(5,6) in auto)
    have "leads W n (starts W K (emitJump OP_JUMP_IF_NIL c1) env1 ts) (then_e (ev_discard W me n env1 body) again) Q"
      by (rule leads_then [OF sim_discard [OF assms(2,4) r p(3) assms(8)]]) (use assms(10) in auto)
    then have "leads W n (vm_at W K (locals c1) (if cond_nil v then length (code c2) + 3 else length (code c1) + 3) env1 ts)
        (if cond_nil v then done env1 else then_e (ev_discard W me n env1 body) again) Q"
      using assms(9) keeps_locals [OF k(1)] by (simp add: eval_nat_numeral)
    from leads_step [OF g this]
    show "leads W n (starts W K c1 env1 (ts @ [v])) (case (v, env1) of (v, env1) \<Rightarrow>
        if cond_nil v then done env1 else then_e (ev_discard W me n env1 body) again) Q" unfolding prod.case .
  qed
qed

lemma sim_rounds:
  assumes "\<And>k. k \<le> n \<Longrightarrow> simulates W k me test" "\<And>k e. k \<le> n \<Longrightarrow> e \<in> set body \<Longrightarrow> simulates W k me e"
    "compileExpr (wenv W) c test False = Compiled c1" "compile_discard (wenv W) (emitJump OP_JUMP_IF_NIL c1) body = Compiled c2"
    "ready W K me c" "placed K c (patchJump (jump_pos c1) (patchBack (length (code c)) (jump_pos c2) (emitJump OP_JUMP c2)))"
    "literals me test" "literals_list me body"
  shows "leads W n (starts W K c env ts) (ev_while W me n env test body)
    (\<lambda>env'. running (vm_at W K (locals c) (length (code c2) + 3) env' ts))"
  using assms(1,2)
proof (induction n arbitrary: env)
  case 0
  show ?case
    by (subst ev_while.simps, rule sim_round [OF 0 assms(3-8)]) (auto simp: running_def leads_zero intro: leads_done)
next
  case (Suc n)
  have k: "keeps c c1" "keeps (emitJump OP_JUMP_IF_NIL c1) c2" using compile_keeps [OF assms(3)] compile_discard_keeps [OF compile_tidy assms(4)] .
  note p = placed_loop [OF k assms(6)]
  have le: "length (code c) \<le> length (code c2)" using length_emitted [OF k(1)] p(5) by simp
  have L: "locals c2 = locals c" using keeps_locals [OF k(1)] keeps_locals [OF k(2)] by simp
  show ?case
  proof (subst ev_while.simps, rule sim_round [OF _ _ assms(3-8)])
    fix env2
    have "leads W (Suc n) (starts W K c2 env2 ts) (ev_while W me n env2 test body)
        (\<lambda>env'. running (vm_at W K (locals c) (length (code c2) + 3) env' ts))"
      by (rule leads_tick [OF goes_back [OF ready_live [OF assms(5)] p(4,6) le]]) (use Suc in \<open>simp add: L\<close>)
    then show "leads W (Suc n) (starts W K c2 env2 ts) (case Suc n of 0 \<Rightarrow> Timeout | Suc m \<Rightarrow> ev_while W me m env2 test body)
        (\<lambda>env'. running (vm_at W K (locals c) (length (code c2) + 3) env' ts))" by simp
  qed (use Suc.prems in \<open>auto simp: running_def intro: leads_done\<close>)
qed

lemma sim_while:
  assumes "\<And>k e. k \<le> n \<Longrightarrow> size e < Suc (cells_size args) \<Longrightarrow> simulates W k me e" "compile_form (wenv W) c F_while args t = Compiled c'"
    "ready W K me c" "placed K c c'" "literals_list me args"
  shows "leads W n (starts W K c env ts) (ev_form W me n env F_while args) (stops W K t c' ts)"
  using assms(2)
proof (rule compile_while)
  fix test body c1 c2
  let ?c3 = "patchJump (jump_pos c1) (patchBack (length (code c)) (jump_pos c2) (emitJump OP_JUMP c2))"
  assume a: "args = test # body" "compileExpr (wenv W) c test False = Compiled c1"
    "compile_discard (wenv W) (emitJump OP_JUMP_IF_NIL c1) body = Compiled c2" "c' = emitOp OP_NIL ?c3"
  have small: "simulates W k me test" "e \<in> set body \<Longrightarrow> simulates W k me e" if "k \<le> n" for k e
    using assms(1) [OF that] a(1) member_size [of e body] by simp_all
  have k: "keeps c ?c3" by (rule keeps_loop(1) [OF compile_keeps [OF a(2)] compile_discard_keeps [OF compile_tidy a(3)]])
  have p: "placed K c ?c3" "placed K ?c3 c'" using placed_split [OF assms(4) [unfolded a(4)] k keeps_emitOp] a(4) by auto
  have "leads W n (starts W K c env ts) (ev_while W me n env test body) (\<lambda>env'. running (vm_at W K (locals c) (length (code c2) + 3) env' ts))"
    using sim_rounds [OF small a(2,3) assms(3) p(1)] a(1) assms(5) by simp
  moreover have "leads W n (vm_at W K (locals c) (length (code c2) + 3) env' ts) (Value (CELL_NIL, env')) (stops W K t c' ts)" for env'
    using sim_nil [OF ready_keeps [OF assms(3) k], of n env' ts t] p(2) a(4) keeps_locals [OF k] by (simp add: eval_nat_numeral)
  ultimately have "leads W n (starts W K c env ts) (then_e (ev_while W me n env test body) (\<lambda>env'. Value (CELL_NIL, env'))) (stops W K t c' ts)"
    by (rule leads_then)
  then show ?thesis using a(1) by (simp add: ev_form.simps [of _ _ _ _ F_while])
qed

text \<open>The end of a scope.\<close>

lemma leads_close:
  assumes "leads W n P r (stops W K t c2 ts)"
  shows "leads W n P (then_e r (\<lambda>(v, env2). Value (v, take k env2))) (stops W K t (c2\<lparr>locals := take k (locals c2)\<rparr>) ts)"
proof -
  have f: "finish W K (take k ns) t pc ts (v, take k env2) o'" if "finish W K ns t pc ts (v, env2) o'" for v env2 ns pc o'
  proof -
    have "vm_at W K (take k ns) pc (take k env2) us m" if "vm_at W K ns pc env2 us m" for m us
      using that stack_at_close [of K env2 us _ k] by (auto simp: vm_at_def take_map)
    then show ?thesis using that by (auto simp: finish_def running_def)
  qed
  have "leads W n P r (\<lambda>x. stops W K t (c2\<lparr>locals := take k (locals c2)\<rparr>) ts (fst x, take k (snd x)))"
    by (rule leads_post [OF assms]) (use f in \<open>auto intro!: exI [of _ 0]\<close>)
  from leads_map [where f = "\<lambda>x. (fst x, take k (snd x))", OF this] show ?thesis by (simp add: case_prod_unfold)
qed

lemma placed_locals [simp]: "placed K c (c2\<lparr>locals := ns\<rparr>) = placed K c c2"
  by (simp add: placed_def fits_def emitted_def)

lemma sim_body_or_nil:
  assumes "\<And>e. e \<in> set es \<Longrightarrow> simulates W n me e"
    "(if es = [] then Compiled (emitOp OP_NIL c) else compile_body (wenv W) c es t) = Compiled c'"
    "ready W K me c" "placed K c c'" "literals_list me es"
  shows "leads W n (starts W K c env ts) (ev_body W me n env es) (stops W K t c' ts)"
proof (cases "es = []")
  case True
  then show ?thesis using sim_nil [OF assms(3)] assms(2,4) by (auto simp: ev_body.simps [of _ _ _ _ "[]"])
next
  case False
  then show ?thesis using sim_body [OF assms(1) False _ assms(3-5)] assms(2) by simp
qed

lemma body_or_nil_keeps:
  "(if es = [] then Compiled (emitOp OP_NIL c) else compile_body E c es t) = Compiled c' \<Longrightarrow> keeps c c'"
  using compile_body_keeps [OF compile_tidy, where ?c = c] keeps_emitOp by (auto split: if_splits)

lemma sim_let:
  assumes "\<And>e. size e < Suc (cells_size args) \<Longrightarrow> simulates W n me e" "compile_form (wenv W) c F_let args t = Compiled c'"
    "ready W K me c" "placed K c c'" "literals_list me args"
  shows "leads W n (starts W K c env ts) (ev_form W me n env F_let args) (stops W K t c' ts)"
proof (rule vm_at_names, rule compile_let [OF assms(2)])
  assume n: "map fst env = locals c"
  fix bs body c1 c2
  assume a: "args = CELL_EXPRESSION bs # body" "compile_lets (wenv W) c bs = Compiled c1"
    "(if body = [] then Compiled (emitOp OP_NIL c1) else compile_body (wenv W) c1 body t) = Compiled c2"
    "c' = c2\<lparr>locals := take (length (locals c)) (locals c2)\<rparr>"
  have o: "opens c c1" "keeps c1 c2" using compile_lets_opens [OF compile_tidy a(2)] body_or_nil_keeps [OF a(3)] .
  have p: "placed K c c1" "placed K c1 c2"
    using placed_extends [OF _ opens_extends [OF o(1)] keeps_extends [OF o(2)]] assms(4) a(4) by auto
  have small: "e \<in> set body \<Longrightarrow> simulates W n me e" "size e < Suc (cells_size bs) \<Longrightarrow> simulates W n me e" for e
    using assms(1) [of e] a(1) member_size [of e body] by simp_all
  have lits: "literals_list me bs" "literals_list me body" using assms(5) a(1) literals_expression by auto
  have b: "leads W n (starts W K c1 env1 ts) (then_e (ev_body W me n env1 body) (\<lambda>(v, env2). Value (v, take (length (locals c)) env2)))
      (stops W K t c' ts)" for env1
    unfolding a(4) using leads_close [OF sim_body_or_nil [OF small(1) a(3) ready_opens [OF assms(3) o(1)] p(2) lits(2)]] by simp
  have "leads W n (starts W K c env ts) (then_e (ev_lets W me n env bs) (\<lambda>env1.
      then_e (ev_body W me n env1 body) (\<lambda>(v, env2). Value (v, take (length (locals c)) env2)))) (stops W K t c' ts)"
    by (rule leads_then [OF sim_lets [OF small(2) a(2) assms(3) p(1) lits(1)]]) (use b in auto)
  then show "leads W n (starts W K c env ts) (ev_form W me n env F_let args) (stops W K t c' ts)"
    using a(1) names_length [OF n] by (simp add: ev_form.simps [of _ _ _ _ F_let])
qed

lemma sim_local:
  assumes "\<And>e. size e < Suc (cells_size args) \<Longrightarrow> simulates W n me e" "compile_form (wenv W) c F_local args t = Compiled c'"
    "ready W K me c" "placed K c c'" "literals_list me args"
  shows "leads W n (starts W K c env ts) (ev_form W me n env F_local args) (stops W K t c' ts)"
proof (rule vm_at_names, rule compile_local [OF assms(2)])
  assume n: "map fst env = locals c"
  fix vs body c1 c2
  assume a: "args = CELL_EXPRESSION vs # body" "compile_locals vs c = Compiled c1"
    "(if body = [] then Compiled (emitOp OP_NIL c1) else compile_body (wenv W) c1 body t) = Compiled c2"
    "c' = c2\<lparr>locals := take (length (locals c)) (locals c2)\<rparr>"
  have o: "opens c c1" "keeps c1 c2" using compile_locals_opens [OF a(2)] body_or_nil_keeps [OF a(3)] .
  have p: "placed K c c1" "placed K c1 c2"
    using placed_extends [OF _ opens_extends [OF o(1)] keeps_extends [OF o(2)]] assms(4) a(4) by auto
  have small: "e \<in> set body \<Longrightarrow> simulates W n me e" for e
    using assms(1) [of e] a(1) member_size [of e body] by simp
  have lits: "literals_list me body" using assms(5) a(1) by auto
  have b: "leads W n (starts W K c1 env1 ts) (then_e (ev_body W me n env1 body) (\<lambda>(v, env2). Value (v, take (length (locals c)) env2)))
      (stops W K t c' ts)" for env1
    unfolding a(4) using leads_close [OF sim_body_or_nil [OF small a(3) ready_opens [OF assms(3) o(1)] p(2) lits]] by simp
  show "leads W n (starts W K c env ts) (ev_form W me n env F_local args) (stops W K t c' ts)"
  proof (cases "symbols_of vs")
    case (Some ss)
    show ?thesis
      by (rule sim_locals [OF Some a(2) assms(3) p(1)]) (use b a(1) Some names_length [OF n] in \<open>simp add: ev_form.simps [of _ _ _ _ F_local]\<close>)
  qed (use a(1) in \<open>simp add: ev_form.simps [of _ _ _ _ F_local]\<close>)
qed

end
