(* ===== verification/NL_Forms.thy ===== *)
theory NL_Forms
  imports NL_Scopes
begin

text \<open>
  The other expressions of the compiler: constants and symbols, assignments, arithmetic, comparisons,
  calls and counted loops; \<open>sim_form\<close> collects the lemmas on the special forms, \<open>body_okI\<close> shows what
  the code of a function does.
\<close>

section \<open>Atoms\<close>

lemma subcells_self: "c \<in> set (subcells c)"
  by (cases c) auto

lemma subcells_trans:
  "a \<in> set (subcells b) \<Longrightarrow> set (subcells a) \<subseteq> set (subcells b)"
  "a \<in> set (subcells_list bs) \<Longrightarrow> set (subcells a) \<subseteq> set (subcells_list bs)"
  by (induction b and bs rule: subcells_subcells_list.induct) auto

lemma literals_self: "literals me e \<Longrightarrow> e \<noteq> CELL_NIL \<Longrightarrow> set (subcells e) \<subseteq> set (subcells me)"
  using subcells_self [of e] subcells_trans(1) [of e me] by (auto simp: literals_def)

lemma prefix_nth: "prefix xs ys \<Longrightarrow> i < length xs \<Longrightarrow> ys ! i = xs ! i \<and> i < length ys"
  by (auto simp: prefix_def nth_append)

lemma sim_emitConst:
  assumes "emitConst (wenv W) v c = Compiled c'" "ready W K me c" "placed K c c'" "v \<in> set (subcells me)"
  shows "leads W n (starts W K c env ts) (Value (v, env)) (stops W K t c' ts)"
proof -
  have machine: "cmachine (wenv W) = hmachine (whost W)" by (simp add: wenv_def host_env_def)
  obtain i where i: "i < length (constants c')" "compareCells (hmachine (whost W)) (constants c' ! i) v = Inr 0 \<or> constants c' ! i = v"
    "code c' = code c @ op_byte OP_CONST # u16 (int i)" "keeps c c'"
    using emitConst_code [OF assms(1), unfolded machine] by blast
  have f: "fits K c'" using assms(3) by (simp add: placed_def)
  have f': "prefix (constants c') (bconstants (kcode K))" "length (constants c') \<le> 32767" using f by (simp_all add: fits_def)
  have b: "bconstants (kcode K) ! i = constants c' ! i" "i < length (bconstants (kcode K))" "i < 65536"
    using prefix_nth [OF f'(1) i(1)] f'(2) i(1) by simp_all
  have "list_all (\<lambda>k. list_all (\<lambda>v. compareCells (hmachine (whost W)) k v = Inr 0 \<longrightarrow> k = v) (subcells me)) (bconstants (kcode K))"
    using assms(2) by (simp add: ready_def frame_ok_def sound_code_def)
  then have "constants c' ! i = v" using i(2) assms(4) b(1,2) unfolding list_all_iff
    using nth_mem [OF b(2)] by auto
  moreover have "code_at (bcode (kcode K)) (length (code c)) (op_byte OP_CONST # u16 (int i))"
    using assms(3) i(3) by (simp add: placed_def emitted_def)
  ultimately have "goes W (starts W K c env ts) (vm_at W K (locals c) (length (code c) + 3) env (ts @ [v]))"
    using goes_const [OF ready_live [OF assms(2)], of "length (code c)" i v] b by simp
  then show ?thesis by (rule leads_step) (auto intro!: leads_done finishI simp: i(3) keeps_locals [OF i(4)])
qed

lemma sim_push:
  assumes "ready W K me c" "placed K c (emitOp op c)" "\<And>H m. vm_dispatch H op m = Running (vm_push (Own v) m)"
  shows "leads W n (starts W K c env ts) (Value (v, env)) (stops W K t (emitOp op c) ts)"
  by (rule leads_step [OF goes_emit_push [OF ready_live [OF assms(1)] assms(2,3)]]) (auto intro!: leads_done finishI)

lemma sim_emitLong:
  assumes "emitLong (wenv W) i c = Compiled c'" "ready W K me c" "placed K c c'" "CELL_LONG i \<in> set (subcells me)"
  shows "leads W n (starts W K c env ts) (Value (CELL_LONG i, env)) (stops W K t c' ts)"
  using assms sim_emitConst [OF _ assms(2-4)] sim_push [OF assms(2), of OP_CONST_0 "CELL_LONG 0"]
    sim_push [OF assms(2), of OP_CONST_1 "CELL_LONG 1"] sim_push [OF assms(2), of OP_CONST_2 "CELL_LONG 2"]
  by (auto simp: emitLong_def vm_dispatch_simps split: if_splits)

lemma last_index_bound: "last_index s xs = Some i \<Longrightarrow> i < length xs"
  by (induction xs arbitrary: i) (auto split: option.splits if_splits)

lemma ready_slot: "ready W K me c \<Longrightarrow> findLocal s c = Some i \<Longrightarrow> i < MAX_LOCALS"
  using last_index_bound [of s "locals c" i] by (auto simp: ready_def small_frame_def findLocal_def)

lemma sim_emitLoad:
  assumes "ready W K me c" "findLocal s c = Some i" "placed K c (emitLoad i c)"
  shows "leads W n (starts W K c env ts) (case snd (env ! i) of Some v \<Rightarrow> Value (v, env) | None \<Rightarrow> Outside) (stops W K t (emitLoad i c) ts)"
proof (cases "snd (env ! i)")
  case (Some v)
  show ?thesis
  proof (rule vm_at_names)
    assume n: "map fst env = locals c"
    have "i < length env" using last_index_bound [of s "locals c" i] assms(2) names_length [OF n] by (simp add: findLocal_def)
    note go = goes_emit_load [OF ready_live [OF assms(1)] assms(3) this Some ready_slot [OF assms(1,2)]]
    have "leads W n (starts W K c env ts) (Value (v, env)) (stops W K t (emitLoad i c) ts)"
      by (rule leads_step [OF go]) (auto intro!: leads_done finishI)
    then show "leads W n (starts W K c env ts) (case snd (env ! i) of Some v \<Rightarrow> Value (v, env) | None \<Rightarrow> Outside) (stops W K t (emitLoad i c) ts)"
      using Some by simp
  qed
qed simp

lemma sim_symbol:
  assumes "ready W K me c" "placed K c (emitSymbol s c)"
  shows "leads W n (starts W K c env ts) (ev W me n env (CELL_SYMBOL s)) (stops W K t (emitSymbol s c) ts)"
proof (rule vm_at_names)
  assume n: "map fst env = locals c"
  note live = ready_live [OF assms(1)]
  have self: "self_symbol c = wself W me" "val (kself K) = Some me" using assms(1) by (simp_all add: ready_def frame_ok_def)
  show ?thesis
  proof (cases "findLocal s c")
    case (Some i)
    then show ?thesis using sim_emitLoad [OF assms(1) Some] assms(2) n
      by (simp add: ev.simps [of _ _ _ _ "CELL_SYMBOL s"] emitSymbol_def findLocal_def)
  next
    case None
    show ?thesis
    proof (cases "self_symbol c = Some s \<or> sname s = ''self''")
      case True
      have "placed K c (emitOp OP_LOAD_SELF c)" using assms(2) None True by (simp add: emitSymbol_def)
      then have "goes W (starts W K c env ts) (starts W K (emitOp OP_LOAD_SELF c) env (ts @ [me]))"
        using goes_self [OF live _ self(2), of "length (code c)"] by (simp add: placed_def)
      then have "leads W n (starts W K c env ts) (Value (me, env)) (stops W K t (emitOp OP_LOAD_SELF c) ts)"
        by (rule leads_step) (auto intro!: leads_done finishI)
      then show ?thesis using True None n self(1) by (auto simp: ev.simps [of _ _ _ _ "CELL_SYMBOL s"] emitSymbol_def findLocal_def)
    next
      case False
      let ?c' = "emitGlobal OP_LOAD_GLOBAL s c"
      have p: "placed K c ?c'" using assms(2) None False by (simp add: emitSymbol_def)
      obtain i where i: "i < length (symbols ?c')" "symbols ?c' ! i = s" "code ?c' = code c @ op_byte OP_LOAD_GLOBAL # u16 (int i)" "keeps c ?c'"
        using emitGlobal_code by metis
      have f': "prefix (symbols ?c') (bsymbols (kcode K))" "length (symbols ?c') \<le> 32767" using p by (simp_all add: placed_def fits_def)
      have b: "bsymbols (kcode K) ! i = s" "i < length (bsymbols (kcode K))" "i < 65536"
        using prefix_nth [OF f'(1) i(1)] f'(2) i(1,2) by simp_all
      have "goes W (starts W K c env ts) (vm_at W K (locals c) (length (code c) + 3) env (ts @ [wglobals W s]))"
        using goes_global [OF live _ b(3,2,1), of "length (code c)"] p i(3) by (simp add: placed_def emitted_def)
      then have "leads W n (starts W K c env ts) (Value (wglobals W s, env)) (stops W K t ?c' ts)"
        by (rule leads_step) (auto intro!: leads_done finishI simp: i(3) keeps_locals [OF i(4)])
      then show ?thesis using False None n self(1) by (simp add: ev.simps [of _ _ _ _ "CELL_SYMBOL s"] emitSymbol_def findLocal_def)
    qed
  qed
qed

section \<open>Assignments\<close>

lemma sim_store:
  assumes "ready W K me c" "findLocal s c = Some i" "placed K c1 (emitStore i (emitOp OP_DUP c1))" "locals c1 = locals c"
    "leads W n (starts W K (emitStore i (emitOp OP_DUP c1)) (env_set i x env) (ts @ [x])) r Q"
  shows "leads W n (starts W K c1 env (ts @ [x])) r Q"
proof (rule vm_at_names)
  assume n: "map fst env = locals c1"
  note live = ready_live [OF assms(1)]
  have p: "placed K c1 (emitOp OP_DUP c1)" "placed K (emitOp OP_DUP c1) (emitStore i (emitOp OP_DUP c1))"
    using placed_split [OF assms(3) keeps_emitOp keeps_emitStore] by auto
  have i: "i < length env" using last_index_bound [of s "locals c" i] assms(2,4) names_length [OF n] by (simp add: findLocal_def)
  have "goes W (starts W K (emitOp OP_DUP c1) env ((ts @ [x]) @ [x])) (starts W K (emitStore i (emitOp OP_DUP c1)) (env_set i x env) (ts @ [x]))"
    by (rule goes_emit_store [OF live p(2) i ready_slot [OF assms(1,2)]])
  then have "leads W n (starts W K (emitOp OP_DUP c1) env (ts @ [x, x])) r Q" using leads_step assms(5) by fastforce
  then show ?thesis by (rule leads_step [OF goes_emit_dup [OF live p(1)]])
qed

lemma sim_assigns:
  assumes "\<And>e. e \<in> set es \<Longrightarrow> simulates W n me e" "compile_assigns (wenv W) c q es = Compiled c'"
    "ready W K me c" "placed K c c'" "literals_list me es"
  shows "leads W n (starts W K c env ts) (ev_assigns W me n env q es) (stops W K t c' ts)"
  using assms
proof (induction "length es" arbitrary: es c env rule: less_induct)
  case less
  obtain v e rest s c1 where a: "es = v # e # rest" "(if q then plain_symbol v else quoted_symbol v) = Some s"
    "compileExpr (wenv W) c e False = Compiled c1"
    "(if rest = [] then Compiled (emitAssign (findLocal s c) s (emitOp OP_DUP c1))
      else compile_assigns (wenv W) (emitOp OP_POP (emitAssign (findLocal s c) s (emitOp OP_DUP c1))) q rest) = Compiled c'"
    using less.prems(2) by (subst (asm) compile_assigns.simps) (auto simp: then_c_Compiled Let_def split: list.splits option.splits)
  show ?case
  proof (rule vm_at_names)
    assume n: "map fst env = locals c"
    show "leads W n (starts W K c env ts) (ev_assigns W me n env q es) (stops W K t c' ts)"
    proof (cases "findLocal s c")
      case None
      then show ?thesis using a(1,2) n by (simp add: ev_assigns.simps [of _ _ _ _ _ "v # e # rest"] findLocal_def)
    next
      case (Some i)
      let ?c2 = "emitStore i (emitOp OP_DUP c1)"
      have k: "keeps c c1" "keeps c1 ?c2" using compile_keeps [OF a(3)] keeps_trans [OF keeps_emitOp keeps_emitStore] by auto
      have k2: "keeps ?c2 c'" if "rest \<noteq> []"
        using that a(4) Some keeps_trans [OF keeps_emitOp compile_assigns_keeps [OF compile_tidy]] by (simp add: emitAssign_def)
      have k3: "keeps ?c2 c'" using k2 a(4) Some keeps_refl by (cases "rest = []") (auto simp: emitAssign_def)
      have p: "placed K c c1" "placed K c1 ?c2" "placed K ?c2 c'"
        using placed_split [OF less.prems(4) k(1) keeps_trans [OF k(2) k3]] placed_split [OF _ k(2) k3] by auto
      have r2: "ready W K me ?c2" using ready_keeps [OF less.prems(3) keeps_trans [OF k]] .
      have lits: "literals me e" "literals_list me rest" using less.prems(5) a(1) by simp_all
      have rest: "leads W n (starts W K ?c2 (env_set i x env1) (ts @ [x]))
          (if rest = [] then Value (x, env_set i x env1) else ev_assigns W me n (env_set i x env1) q rest) (stops W K t c' ts)" for x env1
      proof (cases "rest = []")
        case True
        then show ?thesis using a(4) Some by (auto simp: emitAssign_def intro!: leads_done finishI)
      next
        case False
        then have c': "compile_assigns (wenv W) (emitOp OP_POP ?c2) q rest = Compiled c'" using a(4) Some by (simp add: emitAssign_def)
        have q: "placed K ?c2 (emitOp OP_POP ?c2)" "placed K (emitOp OP_POP ?c2) c'"
          using placed_split [OF p(3) keeps_emitOp compile_assigns_keeps [OF compile_tidy c']] by auto
        have "leads W n (starts W K (emitOp OP_POP ?c2) (env_set i x env1) ts) (ev_assigns W me n (env_set i x env1) q rest) (stops W K t c' ts)"
          using less.hyps [OF _ _ c' ready_keeps [OF r2 keeps_emitOp] q(2) lits(2)] less.prems(1) a(1) by simp
        from leads_step [OF goes_emit_pop [OF ready_live [OF less.prems(3)] q(1)] this] show ?thesis using False by simp
      qed
      have "leads W n (starts W K c env ts) (then_e (ev W me n env e) (\<lambda>(x, env1).
          if rest = [] then Value (x, env_set i x env1) else ev_assigns W me n (env_set i x env1) q rest)) (stops W K t c' ts)"
      proof (rule leads_expr [OF _ a(3) less.prems(3) p(1) lits(1)])
        fix x env1
        show "leads W n (starts W K c1 env1 (ts @ [x])) (case (x, env1) of (x, env1) \<Rightarrow>
            if rest = [] then Value (x, env_set i x env1) else ev_assigns W me n (env_set i x env1) q rest) (stops W K t c' ts)"
          unfolding prod.case by (rule sim_store [OF less.prems(3) Some p(2) keeps_locals [OF k(1)] rest])
      qed (use less.prems(1) a(1) in simp)
      then show ?thesis using a(1,2) Some n by (simp add: ev_assigns.simps [of _ _ _ _ _ "v # e # rest"] findLocal_def)
    qed
  qed
qed

lemma sim_const_op:
  assumes "ready W K me c" "placed K c (emitOp op c)" "vm_dispatch (whost W) op = vm_arith_const (whost W) op' i"
  shows "leads W n (starts W K c env (ts @ [x])) (binary W op' x (CELL_LONG i) env) (stops W K t (emitOp op c) ts)"
  using leads_arith_const [OF ready_live [OF assms(1)] _ assms(3), of "length (code c)"] assms(2) by (simp add: placed_def)

lemma vm_const_ops:
  "vm_dispatch H OP_ADD_1 = vm_arith_const H vm_opcode.OP_ADD 1" "vm_dispatch H OP_SUB_1 = vm_arith_const H OP_SUB 1"
  "vm_dispatch H OP_SUB_2 = vm_arith_const H OP_SUB 2"
  by (simp_all add: vm_dispatch_simps fun_eq_iff)

lemma sim_op:
  assumes "simulates W n me e" "compileExpr (wenv W) c e False = Compiled c1" "ready W K me c" "placed K c (emitOp op c1)" "literals me e"
    "op \<in> {vm_opcode.OP_ADD, OP_SUB, OP_MUL, OP_DIV, OP_MOD}"
  shows "leads W n (starts W K c env (ts @ [x])) (then_e (ev W me n env e) (\<lambda>(d, env1). binary W op x d env1)) (stops W K t (emitOp op c1) ts)"
proof -
  have p: "placed K c c1" "placed K c1 (emitOp op c1)" using placed_split [OF assms(4) compile_keeps [OF assms(2)] keeps_emitOp] by auto
  show ?thesis
    by (rule leads_expr [OF assms(1-3) p(1) assms(5)]) (use leads_binary [OF ready_live [OF assms(3)] p(2) assms(6)] in simp)
qed

lemma sim_step:
  assumes "\<And>e. size e < Suc (cells_size args) \<Longrightarrow> simulates W n me e" "compile_form (wenv W) c (F_step up) args t = Compiled c'"
    "ready W K me c" "placed K c c'" "literals_list me args"
  shows "leads W n (starts W K c env ts) (ev_form W me n env (F_step up) args) (stops W K t c' ts)"
proof (rule vm_at_names, rule compile_step [OF assms(2)])
  assume n: "map fst env = locals c"
  fix v deltas s c1 c3
  assume a: "args = v # deltas" "(case plain_symbol v of Some s \<Rightarrow> Some s | None \<Rightarrow> quoted_symbol v) = Some s"
    "c1 = (case findLocal s c of Some k \<Rightarrow> emitLoad k c | None \<Rightarrow> emitGlobal OP_LOAD_GLOBAL s c)"
    "(case deltas of [] \<Rightarrow> Compiled (emitOp (if up then OP_ADD_1 else OP_SUB_1) c1)
      | delta # _ \<Rightarrow> then_c (compileExpr (wenv W) c1 delta False) (\<lambda>c2. Compiled (emitOp (if up then vm_opcode.OP_ADD else OP_SUB) c2))) = Compiled c3"
    "c' = emitAssign (findLocal s c) s (emitOp OP_DUP c3)"
  let ?op = "if up then vm_opcode.OP_ADD else OP_SUB"
  show "leads W n (starts W K c env ts) (ev_form W me n env (F_step up) args) (stops W K t c' ts)"
  proof (cases "findLocal s c")
    case None
    then show ?thesis using a(1,2) n by (simp add: ev_form.simps [of _ _ _ _ "F_step up"] findLocal_def)
  next
    case (Some i)
    have c1: "c1 = emitLoad i c" and c': "c' = emitStore i (emitOp OP_DUP c3)" using a(3,5) Some by (simp_all add: emitAssign_def)
    have k: "keeps c c1" "keeps c1 c3" "keeps c3 c'"
    proof -
      show "keeps c c1" using keeps_emitLoad c1 by simp
      show "keeps c1 c3" using a(4) keeps_trans [OF compile_keeps keeps_emitOp] keeps_emitOp by (auto simp: then_c_Compiled split: list.splits)
      show "keeps c3 c'" using keeps_trans [OF keeps_emitOp keeps_emitStore] c' by simp
    qed
    have p: "placed K c c1" "placed K c1 c3" "placed K c3 c'"
      using placed_split [OF assms(4) k(1) keeps_trans [OF k(2,3)]] placed_split [OF _ k(2,3)] by auto
    have r1: "ready W K me c1" by (rule ready_keeps [OF assms(3) k(1)])
    show ?thesis
    proof (cases "snd (env ! i)")
      case None
      then show ?thesis using a(1,2) n Some by (simp add: ev_form.simps [of _ _ _ _ "F_step up"] findLocal_def)
    next
      case x: (Some x)
      let ?r = "case deltas of [] \<Rightarrow> binary W ?op x (CELL_LONG 1) env
        | delta # _ \<Rightarrow> then_e (ev W me n env delta) (\<lambda>(d, env1). binary W ?op x d env1)"
      have "leads W n (starts W K c1 env (ts @ [x])) ?r (stops W K False c3 ts)"
      proof (cases deltas)
        case Nil
        then show ?thesis using sim_const_op [OF r1, of "if up then OP_ADD_1 else OP_SUB_1" ?op 1] p(2) a(4) vm_const_ops by auto
      next
        case (Cons d ds)
        then obtain c2 where "compileExpr (wenv W) c1 d False = Compiled c2" "c3 = emitOp ?op c2" using a(4) by (auto simp: then_c_Compiled)
        then show ?thesis using sim_op [OF assms(1) _ r1] p(2) a(1) assms(5) Cons by simp
      qed
      then have "leads W n (starts W K c1 env (ts @ [x])) ?r (\<lambda>z. running (starts W K c3 (snd z) (ts @ [fst z])))"
        by (simp only: finish_notail)
      then have "leads W n (starts W K c1 env (ts @ [x])) (then_e ?r (\<lambda>(y, env2). Value (y, env_set i y env2))) (stops W K t c' ts)"
      proof (rule leads_then)
        fix z
        have "leads W n (starts W K c3 env2 (ts @ [y])) (Value (y, env_set i y env2)) (stops W K t c' ts)" for y env2
          unfolding c' by (rule sim_store [OF assms(3) Some p(3) [unfolded c']])
            (use keeps_locals [OF keeps_trans [OF k(1,2)]] in \<open>auto intro!: leads_done finishI\<close>)
        then show "leads W n (starts W K c3 (snd z) (ts @ [fst z])) (case z of (y, env2) \<Rightarrow> Value (y, env_set i y env2)) (stops W K t c' ts)"
          by (simp add: case_prod_unfold)
      qed
      moreover have "goes W (starts W K c env ts) (starts W K c1 env (ts @ [x]))"
        unfolding c1 by (rule goes_emit_load [OF ready_live [OF assms(3)] p(1) [unfolded c1] _ x ready_slot [OF assms(3) Some]])
          (use last_index_bound [of s "locals c" i] Some names_length [OF n] in \<open>simp add: findLocal_def\<close>)
      ultimately have "leads W n (starts W K c env ts) (then_e ?r (\<lambda>(y, env2). Value (y, env_set i y env2))) (stops W K t c' ts)"
        using leads_step by blast
      then show ?thesis using a(1,2) n Some x by (simp add: ev_form.simps [of _ _ _ _ "F_step up"] findLocal_def)
    qed
  qed
qed

section \<open>Arithmetic, comparison and calls\<close>

lemma sim_compare:
  assumes "\<And>e. size e < Suc (cells_size args) \<Longrightarrow> simulates W n me e" "compile_form (wenv W) c (F_compare op) args t = Compiled c'"
    "ready W K me c" "placed K c c'" "literals_list me args" "op \<in> {OP_LT, OP_GT, OP_LE, OP_GE, OP_EQ, OP_NE}"
  shows "leads W n (starts W K c env ts) (ev_form W me n env (F_compare op) args) (stops W K t c' ts)"
  using assms(2)
proof (rule compile_compare)
  fix a b c1 c2
  assume a: "args = [a, b]" "compileExpr (wenv W) c a False = Compiled c1" "compileExpr (wenv W) c1 b False = Compiled c2" "c' = emitOp op c2"
  have k: "keeps c c1" "keeps c1 c2" using compile_keeps [OF a(2)] compile_keeps [OF a(3)] .
  have p: "placed K c c1" "placed K c1 c2" "placed K c2 c'"
    using placed_split [OF assms(4) k(1)] placed_split [OF _ k(2) keeps_emitOp] keeps_trans [OF k(2) keeps_emitOp] a(4) by auto
  have small: "simulates W n me a" "simulates W n me b" using assms(1) a(1) by simp_all
  have lits: "literals me a" "literals me b" using assms(5) a(1) by simp_all
  have "leads W n (starts W K c env ts) (then_e (ev W me n env a) (\<lambda>(x, env1). then_e (ev W me n env1 b) (\<lambda>(y, env2).
      then_e (compared W op x y) (\<lambda>v. Value (v, env2))))) (stops W K t c' ts)"
  proof (rule leads_expr [OF small(1) a(2) assms(3) p(1) lits(1)])
    fix x env1
    show "leads W n (starts W K c1 env1 (ts @ [x])) (case (x, env1) of (x, env1) \<Rightarrow> then_e (ev W me n env1 b) (\<lambda>(y, env2).
      then_e (compared W op x y) (\<lambda>v. Value (v, env2)))) (stops W K t c' ts)" unfolding prod.case
    proof (rule leads_expr [OF small(2) a(3) ready_keeps [OF assms(3) k(1)] p(2) lits(2)])
      fix y env2
      have "leads W n (starts W K c2 env2 (ts @ [x, y])) (compared W op x y) (\<lambda>v. running (starts W K c' env2 (ts @ [v])))"
        using leads_compare [OF ready_live [OF assms(3)] _ assms(6), of "length (code c2)"] p(3) a(4) by (simp add: placed_def)
      from leads_then [OF this leads_done_keeps [OF keeps_refl]]
      show "leads W n (starts W K c2 env2 ((ts @ [x]) @ [y])) (case (y, env2) of (y, env2) \<Rightarrow> then_e (compared W op x y) (\<lambda>v. Value (v, env2)))
        (stops W K t c' ts)" by simp
    qed
  qed
  then show ?thesis using a(1) by (simp add: ev_form.simps [of _ _ _ _ "F_compare op"])
qed

lemma then_e_id [simp]: "then_e r (\<lambda>(x, y). Value (x, y)) = r" "then_e r Value = r"
  by (cases r; simp)+

lemma ev_ops_single: "ev_ops W me n env op x [CELL_LONG i] = binary W op x (CELL_LONG i) env"
  by (simp add: ev_ops.simps [of _ _ _ _ _ _ "[CELL_LONG i]"] ev_ops.simps [of _ _ _ _ _ _ "[]"] ev.simps [of _ _ _ _ "CELL_LONG i"])

text \<open>The first operand and the chain behind it.\<close>

lemma sim_first:
  assumes "simulates W n me e" "compileExpr (wenv W) c e False = Compiled c1" "keeps c1 c'" "ready W K me c" "placed K c c'" "literals me e"
    "\<And>x env1. ready W K me c1 \<Longrightarrow> placed K c1 c' \<Longrightarrow> leads W n (starts W K c1 env1 (ts @ [x])) (f x env1) Q"
  shows "leads W n (starts W K c env ts) (then_e (ev W me n env e) (\<lambda>(x, env1). f x env1)) Q"
proof -
  have k: "keeps c c1" using compile_keeps [OF assms(2)] .
  have p: "placed K c c1" "placed K c1 c'" using placed_split [OF assms(5) k assms(3)] by auto
  show ?thesis
    by (rule leads_expr [OF assms(1,2,4) p(1) assms(6)]) (use assms(7) [OF ready_keeps [OF assms(4) k] p(2)] in simp)
qed

lemma arguments_small:
  assumes "\<And>e. size e < Suc (cells_size args) \<Longrightarrow> simulates W n me e" "args = a # bs"
  shows "simulates W n me a" "\<And>e. e \<in> set bs \<Longrightarrow> simulates W n me e"
proof -
  show "simulates W n me a" using assms(1) [of a] assms(2) by simp
  show "simulates W n me e" if "e \<in> set bs" for e using assms(1) [of e] assms(2) member_size [OF that] by simp
qed

lemma one_long: "length bs = 1 \<and> is_long i (hd bs) \<longleftrightarrow> bs = [CELL_LONG i]"
  by (cases bs) (auto simp: is_long_def)

lemma sim_plus:
  assumes "\<And>e. size e < Suc (cells_size args) \<Longrightarrow> simulates W n me e" "compile_form (wenv W) c F_plus args t = Compiled c'"
    "ready W K me c" "placed K c c'" "literals_list me args"
  shows "leads W n (starts W K c env ts) (ev_form W me n env F_plus args) (stops W K t c' ts)"
proof (cases args)
  case Nil
  then show ?thesis using assms(2,4) sim_push [OF assms(3), of OP_CONST_0 "CELL_LONG 0"]
    by (auto simp: compile_form.simps [of _ _ F_plus] ev_form.simps [of _ _ _ _ F_plus] vm_dispatch_simps)
next
  case (Cons a bs)
  have small: "simulates W n me a" "e \<in> set bs \<Longrightarrow> simulates W n me e" for e
    using arguments_small [OF assms(1) Cons] by auto
  have lits: "literals me a" "literals_list me bs" using assms(5) Cons by simp_all
  note step = assms(2) [unfolded compile_form.simps [of _ _ F_plus]]
  consider (inc) c1 where "bs = [CELL_LONG 1]" "compileExpr (wenv W) c a False = Compiled c1" "c' = emitOp OP_ADD_1 c1"
    | (pre) b c1 where "bs = [b]" "b \<noteq> CELL_LONG 1" "a = CELL_LONG 1" "compileExpr (wenv W) c b False = Compiled c1" "c' = emitOp OP_ADD_1 c1"
    | (gen) c1 where "\<not> (length bs = 1 \<and> is_long 1 a \<and> \<not> is_long 1 (hd bs))" "compileExpr (wenv W) c a False = Compiled c1"
        "compile_ops (wenv W) c1 vm_opcode.OP_ADD bs = Compiled c'"
    using step Cons
    by (auto simp: then_c_Compiled length_Suc_conv is_long_def compile_ops.simps [of _ _ _ "[_]"] compile_ops.simps [of _ _ _ "[]"] split: if_splits)
  then show ?thesis
  proof cases
    case inc
    have "leads W n (starts W K c env ts) (then_e (ev W me n env a) (\<lambda>(x, env1). binary W vm_opcode.OP_ADD x (CELL_LONG 1) env1)) (stops W K t c' ts)"
      by (rule sim_first [OF small(1) inc(2) _ assms(3,4) lits(1)])
        (use sim_const_op vm_const_ops inc(3) keeps_emitOp in auto)
    then show ?thesis using Cons inc(1) by (simp add: ev_form.simps [of _ _ _ _ F_plus] ev_ops_single is_long_def)
  next
    case pre
    have "leads W n (starts W K c env ts) (then_e (ev W me n env b) (\<lambda>(x, env1). binary W vm_opcode.OP_ADD x (CELL_LONG 1) env1)) (stops W K t c' ts)"
      by (rule sim_first [OF small(2) pre(4) _ assms(3,4)])
        (use sim_const_op vm_const_ops pre(1,5) lits keeps_emitOp in auto)
    then show ?thesis using Cons pre(1-3) by (simp add: ev_form.simps [of _ _ _ _ F_plus] is_long_def)
  next
    case gen
    have "leads W n (starts W K c env ts) (then_e (ev W me n env a) (\<lambda>(x, env1). ev_ops W me n env1 vm_opcode.OP_ADD x bs)) (stops W K t c' ts)"
      by (rule sim_first [OF small(1) gen(2) compile_ops_keeps [OF compile_tidy gen(3)] assms(3,4) lits(1)])
        (rule sim_ops [OF small(2) gen(3) _ _ lits(2)], auto)
    then show ?thesis using Cons gen(1) by (auto simp: ev_form.simps [of _ _ _ _ F_plus])
  qed
qed

lemma sim_minus:
  assumes "\<And>e. size e < Suc (cells_size args) \<Longrightarrow> simulates W n me e" "compile_form (wenv W) c F_minus args t = Compiled c'"
    "ready W K me c" "placed K c c'" "literals_list me args"
  shows "leads W n (starts W K c env ts) (ev_form W me n env F_minus args) (stops W K t c' ts)"
proof -
  obtain a bs c1 where a: "args = a # bs" "compileExpr (wenv W) c a False = Compiled c1"
    "(if length bs = 1 \<and> is_long 1 (hd bs) then Compiled (emitOp OP_SUB_1 c1)
      else if length bs = 1 \<and> is_long 2 (hd bs) then Compiled (emitOp OP_SUB_2 c1)
      else if bs = [] then Compiled (emitOp OP_NEG c1)
      else compile_ops (wenv W) c1 OP_SUB bs) = Compiled c'"
    using assms(2) by (auto simp: compile_form.simps [of _ _ F_minus] then_c_Compiled split: list.splits)
  have small: "simulates W n me a" "e \<in> set bs \<Longrightarrow> simulates W n me e" for e
    using arguments_small [OF assms(1) a(1)] by auto
  have lits: "literals me a" "literals_list me bs" using assms(5) a(1) by simp_all
  have k: "keeps c1 c'" using a(3) keeps_emitOp compile_ops_keeps [OF compile_tidy] by (auto split: if_splits)
  have "leads W n (starts W K c env ts) (then_e (ev W me n env a) (\<lambda>(x, env1).
      if bs = [] then operated (vm_negate (whost W) x (wglobals W)) env1 else ev_ops W me n env1 OP_SUB x bs)) (stops W K t c' ts)"
  proof (rule sim_first [OF small(1) a(2) k assms(3,4) lits(1)])
    fix x env1
    assume r: "ready W K me c1" and p: "placed K c1 c'"
    consider (one) "bs = [CELL_LONG 1]" "c' = emitOp OP_SUB_1 c1" | (two) "bs = [CELL_LONG 2]" "c' = emitOp OP_SUB_2 c1"
      | (neg) "bs = []" "c' = emitOp OP_NEG c1" | (gen) "bs \<noteq> []" "compile_ops (wenv W) c1 OP_SUB bs = Compiled c'"
      using a(3) [unfolded one_long]
      by (cases "bs = [CELL_LONG 1]"; cases "bs = [CELL_LONG 2]"; cases "bs = []"; simp)
    then show "leads W n (starts W K c1 env1 (ts @ [x])) (if bs = [] then operated (vm_negate (whost W) x (wglobals W)) env1
        else ev_ops W me n env1 OP_SUB x bs) (stops W K t c' ts)"
    proof cases
      case one
      then show ?thesis using sim_const_op [OF r _ vm_const_ops(2)] p by (simp add: ev_ops_single)
    next
      case two
      then show ?thesis using sim_const_op [OF r _ vm_const_ops(3)] p by (simp add: ev_ops_single)
    next
      case neg
      then show ?thesis using leads_negate [OF ready_live [OF r], of "length (code c1)"] p by (simp add: placed_def)
    next
      case gen
      then show ?thesis using sim_ops [OF small(2) gen(2) r p lits(2)] by simp
    qed
  qed
  then show ?thesis using a(1) by (simp add: ev_form.simps [of _ _ _ _ F_minus])
qed

lemma sim_times:
  assumes "\<And>e. size e < Suc (cells_size args) \<Longrightarrow> simulates W n me e" "compile_form (wenv W) c F_times args t = Compiled c'"
    "ready W K me c" "placed K c c'" "literals_list me args"
  shows "leads W n (starts W K c env ts) (ev_form W me n env F_times args) (stops W K t c' ts)"
proof (cases args)
  case Nil
  then show ?thesis using assms(2,4) sim_push [OF assms(3), of OP_CONST_1 "CELL_LONG 1"]
    by (auto simp: compile_form.simps [of _ _ F_times] ev_form.simps [of _ _ _ _ F_times] vm_dispatch_simps)
next
  case (Cons a bs)
  then obtain c1 where c1: "compileExpr (wenv W) c a False = Compiled c1" "compile_ops (wenv W) c1 OP_MUL bs = Compiled c'"
    using assms(2) by (auto simp: compile_form.simps [of _ _ F_times] then_c_Compiled)
  have small: "simulates W n me a" "e \<in> set bs \<Longrightarrow> simulates W n me e" for e
    using arguments_small [OF assms(1) Cons] by auto
  have lits: "literals me a" "literals_list me bs" using assms(5) Cons by simp_all
  have "leads W n (starts W K c env ts) (then_e (ev W me n env a) (\<lambda>(x, env1). ev_ops W me n env1 OP_MUL x bs)) (stops W K t c' ts)"
    by (rule sim_first [OF small(1) c1(1) compile_ops_keeps [OF compile_tidy c1(2)] assms(3,4) lits(1)])
      (rule sim_ops [OF small(2) c1(2) _ _ lits(2)], auto)
  then show ?thesis using Cons by (simp add: ev_form.simps [of _ _ _ _ F_times])
qed

lemma sim_divide:
  assumes "\<And>e. size e < Suc (cells_size args) \<Longrightarrow> simulates W n me e" "compile_form (wenv W) c F_divide args t = Compiled c'"
    "ready W K me c" "placed K c c'" "literals_list me args"
  shows "leads W n (starts W K c env ts) (ev_form W me n env F_divide args) (stops W K t c' ts)"
proof -
  obtain a b bs c1 where a: "args = a # b # bs" "compileExpr (wenv W) c a False = Compiled c1" "compile_ops (wenv W) c1 OP_DIV (b # bs) = Compiled c'"
    using assms(2) by (auto simp: compile_form.simps [of _ _ F_divide] then_c_Compiled split: list.splits)
  have small: "simulates W n me a" "e \<in> set (b # bs) \<Longrightarrow> simulates W n me e" for e
    using arguments_small [OF assms(1) a(1)] by auto
  have lits: "literals me a" "literals_list me (b # bs)" using assms(5) a(1) by simp_all
  have "leads W n (starts W K c env ts) (then_e (ev W me n env a) (\<lambda>(x, env1). ev_ops W me n env1 OP_DIV x (b # bs))) (stops W K t c' ts)"
    by (rule sim_first [OF small(1) a(2) compile_ops_keeps [OF compile_tidy a(3)] assms(3,4) lits(1)])
      (rule sim_ops [OF small(2) a(3) _ _ lits(2)], auto)
  then show ?thesis using a(1) by (simp add: ev_form.simps [of _ _ _ _ F_divide])
qed

lemma sim_arguments:
  assumes "\<And>e. e \<in> set es \<Longrightarrow> simulates W n me e" "compile_args (wenv W) c es = Compiled c1"
    "ready W K me c" "placed K c c1" "literals_list me es"
    "\<And>vs env1. length vs = length es \<Longrightarrow> leads W n (starts W K c1 env1 (ts @ vs)) (f (vs, env1)) Q"
  shows "leads W n (starts W K c env ts) (then_e (ev_args W me n env es) f) Q"
proof (rule leads_then [where P' = "\<lambda>x m. length (fst x) = length es \<and> starts W K c1 (snd x) (ts @ fst x) m"])
  show "leads W n (starts W K c env ts) (ev_args W me n env es)
      (\<lambda>x. running (\<lambda>m. length (fst x) = length es \<and> starts W K c1 (snd x) (ts @ fst x) m))"
    by (rule leads_post [OF sim_args [OF assms(1-5)]]) (auto simp: running_def intro!: exI [of _ 0])
  fix x :: "cell list \<times> env"
  show "leads W n (\<lambda>m. length (fst x) = length es \<and> starts W K c1 (snd x) (ts @ fst x) m) (f x) Q"
  proof (cases "length (fst x) = length es")
    case True
    then show ?thesis using leads_pre [OF assms(6) [OF True, of "snd x"]] by simp
  qed (simp add: leads_def)
qed

lemma keeps_emitByte: "keeps c (emitByte b c)"
  by (rule keeps_append) (auto simp: emitByte_def)

lemma placed_call:
  assumes "placed K c (emitByte (int k) (emitOp op c))" "k < 256"
  shows "code_at (bcode (kcode K)) (length (code c)) [op_byte op, int k]"
  using assms by (simp add: placed_def emitted_def emitByte_def)

lemma sim_self:
  assumes "\<And>e. e \<in> set args \<Longrightarrow> simulates W n me e" "\<And>vs. body_ok W n me vs"
    "compile_form (wenv W) c F_self args t = Compiled c'" "ready W K me c" "placed K c c'" "literals_list me args"
  shows "leads W n (starts W K c env ts) (ev_form W me n env F_self args) (stops W K t c' ts)"
proof -
  obtain c1 where c1: "compile_args (wenv W) c args = Compiled c1"
    "c' = emitByte (int (length args)) (emitOp (if t then OP_TAIL_CALL_SELF else OP_CALL_SELF) c1)"
    using assms(3) by (auto simp: compile_form.simps [of _ _ F_self] then_c_Compiled)
  have k: "keeps c c1" "keeps c1 c'" using compile_args_keeps [OF compile_tidy c1(1)] keeps_trans [OF keeps_emitOp keeps_emitByte] c1(2) by auto
  have p: "placed K c c1" "placed K c1 c'" using placed_split [OF assms(5) k] by auto
  have "leads W n (starts W K c env ts) (then_e (ev_args W me n env args) (\<lambda>(vs, env1).
      if length args < 256 then then_e (ev_apply W n me vs) (\<lambda>v. Value (v, env1)) else Outside)) (stops W K t c' ts)"
  proof (rule sim_arguments [OF assms(1) c1(1) assms(4) p(1) assms(6)])
    fix vs :: "cell list" and env1 assume l: "length vs = length args"
    have "leads W n (starts W K c1 env1 (ts @ vs)) (then_e (ev_apply W n me vs) (\<lambda>v. Value (v, env1))) (stops W K t c' ts)" if "length args < 256"
      using leads_call_self [OF _ _ assms(2), of K "length (code c1)" t vs "locals c1" env1 ts] placed_call [OF p(2) [unfolded c1(2)] that]
        assms(4) l c1(2) by (simp add: ready_def emitByte_def)
    then show "leads W n (starts W K c1 env1 (ts @ vs)) (case (vs, env1) of (vs, env1) \<Rightarrow>
        if length args < 256 then then_e (ev_apply W n me vs) (\<lambda>v. Value (v, env1)) else Outside) (stops W K t c' ts)" by simp
  qed
  then show ?thesis by (simp add: ev_form.simps [of _ _ _ _ F_self])
qed

lemma sim_call:
  assumes "simulates W n me h" "\<And>e. e \<in> set args \<Longrightarrow> simulates W n me e" "\<And>fn vs. body_ok W n fn vs"
    "compileExpr (wenv W) c h False = Compiled c0" "compile_args (wenv W) c0 args = Compiled c1"
    "c' = emitByte (int (length args)) (emitOp (if t then OP_TAIL_CALL else OP_CALL) c1)"
    "ready W K me c" "placed K c c'" "literals me h" "literals_list me args"
  shows "leads W n (starts W K c env ts) (then_e (ev W me n env h) (\<lambda>(fn, env1). then_e (ev_args W me n env1 args) (\<lambda>(vs, env2).
      if length args < 256 then then_e (ev_apply W n fn vs) (\<lambda>v. Value (v, env2)) else Outside))) (stops W K t c' ts)"
proof -
  have k: "keeps c0 c1" "keeps c1 c'" using compile_args_keeps [OF compile_tidy assms(5)] keeps_trans [OF keeps_emitOp keeps_emitByte] assms(6) by auto
  show ?thesis
  proof (rule sim_first [OF assms(1,4) keeps_trans [OF k] assms(7-9)])
    fix fn env1 assume r: "ready W K me c0" and "placed K c0 c'"
    then have p: "placed K c0 c1" "placed K c1 c'" using placed_split [OF _ k] by auto
    show "leads W n (starts W K c0 env1 (ts @ [fn])) (then_e (ev_args W me n env1 args) (\<lambda>(vs, env2).
        if length args < 256 then then_e (ev_apply W n fn vs) (\<lambda>v. Value (v, env2)) else Outside)) (stops W K t c' ts)"
    proof (rule sim_arguments [OF assms(2,5) r p(1) assms(10)])
      fix vs :: "cell list" and env2 assume l: "length vs = length args"
      have "leads W n (starts W K c1 env2 (ts @ fn # vs)) (then_e (ev_apply W n fn vs) (\<lambda>v. Value (v, env2))) (stops W K t c' ts)"
        if "length args < 256"
        using leads_call [OF ready_live [OF assms(7)] _ assms(3) [of fn vs], of "length (code c1)" t "locals c1" env2 ts]
          placed_call [OF p(2) [unfolded assms(6)] that] l assms(6) by (simp add: emitByte_def)
      then show "leads W n (starts W K c1 env2 ((ts @ [fn]) @ vs)) (case (vs, env2) of (vs, env2) \<Rightarrow>
          if length args < 256 then then_e (ev_apply W n fn vs) (\<lambda>v. Value (v, env2)) else Outside) (stops W K t c' ts)" by simp
    qed
  qed
qed

section \<open>Counted loops\<close>

lemma sim_counted_body:
  assumes "\<And>e. e \<in> set body \<Longrightarrow> simulates W n me e"
    "(if body = [] then Compiled (emitOp OP_POP (emitOp OP_NIL c)) else compile_discard (wenv W) c body) = Compiled c'"
    "ready W K me c" "placed K c c'" "literals_list me body"
  shows "leads W n (starts W K c env ts) (ev_discard W me n env body) (\<lambda>env'. running (starts W K c' env' ts))"
proof (cases "body = []")
  case True
  then have c': "c' = emitOp OP_POP (emitOp OP_NIL c)" using assms(2) by simp
  have p: "placed K c (emitOp OP_NIL c)" "placed K (emitOp OP_NIL c) c'"
    using placed_split [OF assms(4) [unfolded c'] keeps_emitOp keeps_emitOp] c' by auto
  note live = ready_live [OF assms(3)]
  have "goes W (starts W K c env ts) (starts W K (emitOp OP_NIL c) env (ts @ [CELL_NIL]))"
    by (rule goes_emit_push [OF live p(1)]) (simp add: vm_dispatch_simps)
  moreover have "goes W (starts W K (emitOp OP_NIL c) env (ts @ [CELL_NIL])) (starts W K c' env ts)"
    unfolding c' by (rule goes_emit_pop [OF live p(2) [unfolded c']])
  moreover have "leads W n (starts W K c' env ts) (Value env) (\<lambda>env'. running (starts W K c' env' ts))"
    by (rule leads_done) (simp add: running_def)
  ultimately show ?thesis using True leads_step by (simp add: ev_discard.simps [of _ _ _ _ "[]"]) blast
next
  case False
  then show ?thesis using sim_discard [OF assms(1) _ assms(3-5)] assms(2) by simp
qed

lemma counted_body_keeps:
  "(if body = [] then Compiled (emitOp OP_POP (emitOp OP_NIL c)) else compile_discard E c body) = Compiled c' \<Longrightarrow> keeps c c'"
  using compile_discard_keeps [OF compile_tidy, where ?c = c] keeps_trans [OF keeps_emitOp keeps_emitOp] by (auto split: if_splits)

lemma goes_slot:
  assumes "ready W K me c" "placed K c (emitLoad i c)" "snd (env ! i) = Some v" "i < length (locals c)" "map fst env = locals c"
  shows "goes W (starts W K c env ts) (starts W K (emitLoad i c) env (ts @ [v]))"
  by (rule goes_emit_load [OF ready_live [OF assms(1)] assms(2) _ assms(3)])
    (use assms(1,4) names_length [OF assms(5)] in \<open>auto simp: ready_def small_frame_def\<close>)

text \<open>The test of the counter.\<close>

lemma sim_counter_test:
  assumes "ready W K me c" "placed K c (emitOp OP_LT (emitLoad i (emitLoad (Suc i) c)))" "Suc i < length (locals c)"
    "snd (env ! Suc i) = Some x" "snd (env ! i) = Some k" "map fst env = locals c"
  shows "leads W n (starts W K c env ts) (compared W OP_LT x k)
    (\<lambda>v. running (starts W K (emitOp OP_LT (emitLoad i (emitLoad (Suc i) c))) env (ts @ [v])))"
proof -
  let ?c1 = "emitLoad (Suc i) c"
  let ?c2 = "emitLoad i ?c1"
  have p: "placed K c ?c1" "placed K ?c1 ?c2" "placed K ?c2 (emitOp OP_LT ?c2)"
    using placed_split [OF assms(2) keeps_emitLoad keeps_trans [OF keeps_emitLoad keeps_emitOp]] placed_split [OF _ keeps_emitLoad keeps_emitOp] by auto
  have g: "goes W (starts W K c env ts) (starts W K ?c1 env (ts @ [x]))" by (rule goes_slot [OF assms(1) p(1) assms(4,3,6)])
  have g2: "goes W (starts W K ?c1 env (ts @ [x])) (starts W K ?c2 env ((ts @ [x]) @ [k]))"
    by (rule goes_slot [OF ready_keeps [OF assms(1) keeps_emitLoad] p(2) assms(5)]) (use assms(3,6) in auto)
  have "leads W n (starts W K ?c2 env (ts @ [x, k])) (compared W OP_LT x k) (\<lambda>v. running (starts W K (emitOp OP_LT ?c2) env (ts @ [v])))"
    using leads_compare [OF ready_live [OF assms(1)], of "length (code ?c2)" OP_LT] p(3) by (simp add: placed_def)
  then show ?thesis using leads_step [OF g leads_step [OF g2]] by simp
qed

text \<open>The step of the counter.\<close>

lemma sim_counter_step:
  assumes "ready W K me c" "placed K c (emitStore i (emitOp OP_ADD_1 (emitLoad i c)))" "i < length (locals c)"
    "snd (env ! i) = Some y" "map fst env = locals c"
    "\<And>z. leads W n (starts W K (emitStore i (emitOp OP_ADD_1 (emitLoad i c))) (env_set i z env) ts) (f z) Q"
  shows "leads W n (starts W K c env ts) (then_e (binary W vm_opcode.OP_ADD y (CELL_LONG 1) env) (\<lambda>(z, _). f z)) Q"
proof -
  let ?c1 = "emitLoad i c"
  let ?c2 = "emitOp OP_ADD_1 ?c1"
  have p: "placed K c ?c1" "placed K ?c1 ?c2" "placed K ?c2 (emitStore i ?c2)"
    using placed_split [OF assms(2) keeps_emitLoad keeps_trans [OF keeps_emitOp keeps_emitStore]] placed_split [OF _ keeps_emitOp keeps_emitStore] by auto
  have g: "goes W (starts W K c env ts) (starts W K ?c1 env (ts @ [y]))" by (rule goes_slot [OF assms(1) p(1) assms(4,3,5)])
  have r: "ready W K me ?c1" by (rule ready_keeps [OF assms(1) keeps_emitLoad])
  have i: "i < length env" "i < MAX_LOCALS" using assms(1,3) names_length [OF assms(5)] by (auto simp: ready_def small_frame_def)
  have "leads W n (starts W K ?c1 env (ts @ [y])) (binary W vm_opcode.OP_ADD y (CELL_LONG 1) env) (\<lambda>z. running (starts W K ?c2 (snd z) (ts @ [fst z])))"
    using sim_const_op [OF r p(2) vm_const_ops(1), where t = False] by (simp only: finish_notail)
  then have "leads W n (starts W K ?c1 env (ts @ [y])) (then_e (binary W vm_opcode.OP_ADD y (CELL_LONG 1) env) (\<lambda>(z, _). f z)) Q"
  proof (rule leads_then)
    fix x assume "binary W vm_opcode.OP_ADD y (CELL_LONG 1) env = Value x"
    then have x: "snd x = env" by (auto simp: binary_def operated_def split: option.splits sum.splits prod.splits if_splits)
    have "goes W (starts W K ?c2 env (ts @ [fst x])) (starts W K (emitStore i ?c2) (env_set i (fst x) env) ts)"
      by (rule goes_emit_store [OF ready_live [OF assms(1)] p(3) i])
    from leads_step [OF this assms(6)]
    show "leads W n (starts W K ?c2 (snd x) (ts @ [fst x])) (case x of (z, _) \<Rightarrow> f z) Q" by (simp add: case_prod_unfold x)
  qed
  then show ?thesis by (rule leads_step [OF g])
qed

lemma sim_counted_round:
  assumes "\<And>e. e \<in> set body \<Longrightarrow> simulates W n me e" "c4 = emitOp OP_LT (emitLoad i (emitLoad (Suc i) c3))"
    "(if body = [] then Compiled (emitOp OP_POP (emitOp OP_NIL (emitJump OP_JUMP_IF_NIL c4)))
      else compile_discard (wenv W) (emitJump OP_JUMP_IF_NIL c4) body) = Compiled c6"
    "c7 = emitStore (Suc i) (emitOp OP_ADD_1 (emitLoad (Suc i) c6))"
    "ready W K me c3" "placed K c3 (patchJump (jump_pos c4) (patchBack start (jump_pos c7) (emitJump OP_JUMP c7)))"
    "literals_list me body" "Suc i < length (locals c3)"
    "\<And>env1. leads W n (vm_at W K (locals c3) (length (code c7) + 3) env1 ts) (done env1) Q"
    "\<And>z env1. leads W n (starts W K c7 (env_set (Suc i) z env1) ts) (again z env1) Q"
  shows "leads W n (starts W K c3 env ts) (case (snd (env ! Suc i), snd (env ! i)) of
        (Some x, Some k) \<Rightarrow> then_e (compared W OP_LT x k) (\<lambda>v.
          if cond_nil v then done env
          else then_e (ev_discard W me n env body) (\<lambda>env1.
               case snd (env1 ! Suc i) of None \<Rightarrow> Outside
               | Some y \<Rightarrow> then_e (binary W vm_opcode.OP_ADD y (CELL_LONG 1) env1) (\<lambda>(z, _). again z env1)))
      | _ \<Rightarrow> Outside) Q"
proof (rule vm_at_names)
  assume n: "map fst env = locals c3"
  let ?c5 = "emitJump OP_JUMP_IF_NIL c4"
  have k: "keeps c3 c4" "keeps ?c5 c6" "keeps c6 c7"
    using keeps_trans [OF keeps_emitLoad keeps_trans [OF keeps_emitLoad keeps_emitOp]] counted_body_keeps [OF assms(3)]
      keeps_trans [OF keeps_emitLoad keeps_trans [OF keeps_emitOp keeps_emitStore]] assms(2,4) by auto
  note p = placed_loop [OF k(1) keeps_trans [OF k(2,3)] assms(6)]
  have q: "placed K ?c5 c6" "placed K c6 c7" using placed_split [OF p(3) k(2,3)] by auto
  have r: "ready W K me ?c5" "ready W K me c6"
    using ready_keeps [OF assms(5) keeps_trans [OF k(1) keeps_emitJump]] ready_keeps [OF assms(5) keeps_trans [OF k(1) keeps_trans [OF keeps_emitJump k(2)]]] .
  have L: "locals c4 = locals c3" "locals c6 = locals c3" using keeps_locals [OF k(1)] keeps_locals [OF k(2)] by simp_all
  let ?step = "\<lambda>env1. case snd (env1 ! Suc i) of None \<Rightarrow> Outside
    | Some y \<Rightarrow> then_e (binary W vm_opcode.OP_ADD y (CELL_LONG 1) env1) (\<lambda>(z, _). again z env1)"
  have step: "leads W n (starts W K c6 env1 ts) (?step env1) Q" for env1
  proof (rule vm_at_names)
    assume n1: "map fst env1 = locals c6"
    show "leads W n (starts W K c6 env1 ts) (?step env1) Q"
    proof (cases "snd (env1 ! Suc i)")
      case (Some y)
      have "leads W n (starts W K c6 env1 ts) (then_e (binary W vm_opcode.OP_ADD y (CELL_LONG 1) env1) (\<lambda>(z, _). again z env1)) Q"
        by (rule sim_counter_step [OF r(2) q(2) [unfolded assms(4)] _ Some n1]) (use assms(8,10) L assms(4) in auto)
      then show ?thesis using Some by simp
    qed simp
  qed
  have round: "leads W n (starts W K c3 env ts) (then_e (compared W OP_LT x k) (\<lambda>v.
      if cond_nil v then done env else then_e (ev_discard W me n env body) ?step)) Q"
    if "snd (env ! Suc i) = Some x" "snd (env ! i) = Some k" for x k
  proof (rule leads_then [OF sim_counter_test [OF assms(5) p(1) [unfolded assms(2)] assms(8) that n, folded assms(2)]])
    fix v
    have g: "goes W (starts W K c4 env (ts @ [v])) (vm_at W K (locals c4) (if cond_nil v then length (code c7) + 3 else length (code c4) + 3) env ts)"
      by (rule goes_branch [OF ready_live [OF assms(5)] p(2)]) (use p(5,6) in auto)
    have "leads W n (starts W K ?c5 env ts) (then_e (ev_discard W me n env body) ?step) Q"
      by (rule leads_then [OF sim_counted_body [OF assms(1,3) r(1) q(1) assms(7)]]) (use step in auto)
    then have "leads W n (vm_at W K (locals c4) (if cond_nil v then length (code c7) + 3 else length (code c4) + 3) env ts)
        (if cond_nil v then done env else then_e (ev_discard W me n env body) ?step) Q"
      using assms(9) L by (simp add: eval_nat_numeral)
    from leads_step [OF g this]
    show "leads W n (starts W K c4 env (ts @ [v])) (if cond_nil v then done env else then_e (ev_discard W me n env body) ?step) Q" .
  qed
  show "leads W n (starts W K c3 env ts) (case (snd (env ! Suc i), snd (env ! i)) of
        (Some x, Some k) \<Rightarrow> then_e (compared W OP_LT x k) (\<lambda>v. if cond_nil v then done env else then_e (ev_discard W me n env body) ?step)
      | _ \<Rightarrow> Outside) Q"
    using round by (simp split: option.splits)
qed

lemma sim_counted_rounds:
  assumes "\<And>k e. k \<le> n \<Longrightarrow> e \<in> set body \<Longrightarrow> simulates W k me e" "c4 = emitOp OP_LT (emitLoad i (emitLoad (Suc i) c3))"
    "(if body = [] then Compiled (emitOp OP_POP (emitOp OP_NIL (emitJump OP_JUMP_IF_NIL c4)))
      else compile_discard (wenv W) (emitJump OP_JUMP_IF_NIL c4) body) = Compiled c6"
    "c7 = emitStore (Suc i) (emitOp OP_ADD_1 (emitLoad (Suc i) c6))"
    "ready W K me c3" "placed K c3 (patchJump (jump_pos c4) (patchBack (length (code c3)) (jump_pos c7) (emitJump OP_JUMP c7)))"
    "literals_list me body" "Suc i < length (locals c3)"
  shows "leads W n (starts W K c3 env ts) (ev_dotimes W me n env i body)
    (\<lambda>env'. running (vm_at W K (locals c3) (length (code c7) + 3) env' ts))"
  using assms(1)
proof (induction n arbitrary: env)
  case 0
  show ?case
    by (subst ev_dotimes.simps, rule sim_counted_round [OF 0 assms(2-8)]) (auto simp: running_def leads_zero intro: leads_done)
next
  case (Suc n)
  have k: "keeps c3 c4" "keeps (emitJump OP_JUMP_IF_NIL c4) c7"
    using keeps_trans [OF keeps_emitLoad keeps_trans [OF keeps_emitLoad keeps_emitOp]] assms(2)
      keeps_trans [OF counted_body_keeps [OF assms(3)] keeps_trans [OF keeps_emitLoad keeps_trans [OF keeps_emitOp keeps_emitStore]]] assms(4) by auto
  note p = placed_loop [OF k assms(6)]
  have le: "length (code c3) \<le> length (code c7)" using length_emitted [OF k(1)] p(5) by simp
  have L: "locals c7 = locals c3" using keeps_locals [OF k(1)] keeps_locals [OF k(2)] by simp
  show ?case
  proof (subst ev_dotimes.simps, rule sim_counted_round [OF _ assms(2-8)])
    fix z env1
    have "leads W (Suc n) (starts W K c7 (env_set (Suc i) z env1) ts) (ev_dotimes W me n (env_set (Suc i) z env1) i body)
        (\<lambda>env'. running (vm_at W K (locals c3) (length (code c7) + 3) env' ts))"
      by (rule leads_tick [OF goes_back [OF ready_live [OF assms(5)] p(4,6) le]]) (use Suc in \<open>simp add: L\<close>)
    then show "leads W (Suc n) (starts W K c7 (env_set (Suc i) z env1) ts)
        (case Suc n of 0 \<Rightarrow> Timeout | Suc m \<Rightarrow> ev_dotimes W me m (env_set (Suc i) z env1) i body)
        (\<lambda>env'. running (vm_at W K (locals c3) (length (code c7) + 3) env' ts))" by simp
  qed (use Suc.prems in \<open>auto simp: running_def intro: leads_done\<close>)
qed

lemma leads_close_env:
  assumes "leads W n P r (\<lambda>env'. running (vm_at W K ns pc env' ts))" "live K" "code_at (bcode (kcode K)) pc [op_byte OP_NIL]"
  shows "leads W n P (then_e r (\<lambda>env2. Value (CELL_NIL, take k env2))) (finish W K (take k ns) t (Suc pc) ts)"
proof (rule leads_then [OF assms(1)])
  fix env2
  have c: "vm_at W K (take k ns) pc (take k env2) ts m" if "vm_at W K ns pc env2 ts m" for m
    using that stack_at_close [of K env2 ts _ k] by (auto simp: vm_at_def take_map)
  show "leads W n (vm_at W K ns pc env2 ts) (Value (CELL_NIL, take k env2)) (finish W K (take k ns) t (Suc pc) ts)"
    by (rule leads_pre [OF leads_end_nil [OF assms(2,3)] c])
qed

lemma sim_dotimes:
  assumes "\<And>k e. k \<le> n \<Longrightarrow> size e < Suc (cells_size args) \<Longrightarrow> simulates W k me e" "compile_form (wenv W) c F_dotimes args t = Compiled c'"
    "ready W K me c" "placed K c c'" "literals_list me args"
  shows "leads W n (starts W K c env ts) (ev_form W me n env F_dotimes args) (stops W K t c' ts)"
proof (rule vm_at_names, rule compile_dotimes [OF assms(2)])
  assume n: "map fst env = locals c"
  let ?i = "length (locals c)"
  fix v count more_args body c0 c1 c2 c4 c6 c7
  assume a: "args = CELL_EXPRESSION (CELL_SYMBOL v # count # more_args) # body" "addLocal None c = Compiled c0"
    "compileExpr (wenv W) c0 count False = Compiled c1" "addLocal (Some v) (emitStore ?i c1) = Compiled c2"
    "c4 = emitOp OP_LT (emitLoad ?i (emitLoad (length (locals c1)) (emitStore (length (locals c1)) (emitOp OP_CONST_0 c2))))"
    "(if body = [] then Compiled (emitOp OP_POP (emitOp OP_NIL (emitJump OP_JUMP_IF_NIL c4)))
      else compile_discard (wenv W) (emitJump OP_JUMP_IF_NIL c4) body) = Compiled c6"
    "c7 = emitStore (length (locals c1)) (emitOp OP_ADD_1 (emitLoad (length (locals c1)) c6))"
    "c' = (let c8 = emitOp OP_NIL (patchJump (jump_pos c4)
             (patchBack (length (code (emitStore (length (locals c1)) (emitOp OP_CONST_0 c2)))) (jump_pos c7) (emitJump OP_JUMP c7)))
           in c8\<lparr>locals := take ?i (locals c8)\<rparr>)"
  note live = ready_live [OF assms(3)]
  let ?s = "emitStore ?i c1" and ?z = "emitOp OP_CONST_0 c2"
  let ?c3 = "emitStore (Suc ?i) ?z"
  let ?L = "patchJump (jump_pos c4) (patchBack (length (code ?c3)) (jump_pos c7) (emitJump OP_JUMP c7))"
  have o0: "opens c c0" "locals c0 = locals c @ [None]" using addLocal_opens [OF a(2)] by auto
  have k1: "keeps c0 c1" by (rule compile_keeps [OF a(3)])
  have l1: "locals c1 = locals c @ [None]" "length (locals c1) = Suc ?i" using keeps_locals [OF k1] o0(2) by simp_all
  have o2: "opens ?s c2" "locals c2 = locals c @ [None, Some v]" using addLocal_opens [OF a(4)] l1(1) by auto
  have c4: "c4 = emitOp OP_LT (emitLoad ?i (emitLoad (Suc ?i) ?c3))" and c7: "c7 = emitStore (Suc ?i) (emitOp OP_ADD_1 (emitLoad (Suc ?i) c6))"
    using a(5,7) l1(2) by simp_all
  have k4: "keeps ?c3 c4" "keeps (emitJump OP_JUMP_IF_NIL c4) c7"
    using keeps_trans [OF keeps_emitLoad keeps_trans [OF keeps_emitLoad keeps_emitOp]] c4
      keeps_trans [OF counted_body_keeps [OF a(6)] keeps_trans [OF keeps_emitLoad keeps_trans [OF keeps_emitOp keeps_emitStore]]] c7 by auto
  have kL: "keeps ?c3 ?L" by (rule keeps_loop(1) [OF k4])
  have c': "c' = (emitOp OP_NIL ?L)\<lparr>locals := take ?i (locals ?c3)\<rparr>" using a(8) l1(2) keeps_locals [OF kL] by (simp add: Let_def)
  have pc: "placed K c (emitOp OP_NIL ?L)" using assms(4) by (simp add: c')
  let ?E = "emitOp OP_NIL ?L"
  have E: "opens ?L ?E" "opens ?c3 ?E" "opens ?z ?E" "opens c2 ?E" "opens ?s ?E" "opens c1 ?E" "opens c0 ?E"
    using keeps_opens [OF keeps_emitOp] opens_trans [OF keeps_opens [OF kL]] opens_trans [OF keeps_opens [OF keeps_emitStore]]
      opens_trans [OF keeps_opens [OF keeps_emitOp]] opens_trans [OF o2(1)] opens_trans [OF keeps_opens [OF k1]] by metis+
  note ext = keeps_extends opens_extends
  have p: "placed K c c0" "placed K c0 c1" "placed K c1 ?s" "placed K ?s c2" "placed K c2 ?z" "placed K ?z ?c3" "placed K ?c3 ?L" "placed K ?L ?E"
  proof -
    note split = placed_extends [OF _ opens_extends opens_extends]
    show c0: "placed K c c0" and "placed K c0 c1" and "placed K c1 ?s" and s: "placed K ?s c2" and "placed K c2 ?z" and "placed K ?z ?c3"
      and "placed K ?c3 ?L" and "placed K ?L ?E"
      using split [OF pc o0(1) E(7)] split [OF _ keeps_opens [OF k1] E(6)] split [OF _ keeps_opens [OF keeps_emitStore] E(5)]
        split [OF _ o2(1) E(4)] split [OF _ keeps_opens [OF keeps_emitOp] E(3)] split [OF _ keeps_opens [OF keeps_emitStore] E(2)]
        split [OF _ keeps_opens [OF kL] E(1)] by blast+
  qed
  have r0: "ready W K me c0" by (rule ready_opens [OF assms(3) o0(1)])
  have r2: "ready W K me c2" by (rule ready_opens [OF ready_keeps [OF r0 keeps_trans [OF k1 keeps_emitStore]] o2(1)])
  have r3: "ready W K me ?c3" by (rule ready_keeps [OF r2 keeps_trans [OF keeps_emitOp keeps_emitStore]])
  have len: "Suc ?i < length (locals ?c3)" "length (locals c2) = Suc (Suc ?i)" using o2(2) by simp_all
  then have max: "?i < MAX_LOCALS" "Suc ?i < MAX_LOCALS" using r2 by (auto simp: ready_def small_frame_def)
  have small: "simulates W n me count" "k \<le> n \<Longrightarrow> e \<in> set body \<Longrightarrow> simulates W k me e" for k e
    using assms(1) [of n count] assms(1) [of k e] a(1) member_size [of e body] by simp_all
  have lits: "literals me count" "literals_list me body" using assms(5) a(1) literals_expression [of me "CELL_SYMBOL v # count # more_args"] by simp_all
  have loop: "leads W n (starts W K ?c3 env1 ts) (then_e (ev_dotimes W me n env1 ?i body) (\<lambda>env2. Value (CELL_NIL, take ?i env2))) (stops W K t c' ts)"
    for env1
    using leads_close_env [OF sim_counted_rounds [OF small(2) c4 a(6) c7 r3 p(7) lits(2) len(1)] live] p(8)
    by (simp add: c' placed_def eval_nat_numeral)
  have init: "leads W n (starts W K ?s env1 ts) (then_e (ev_dotimes W me n (env1 @ [(Some v, Some (CELL_LONG 0))]) ?i body)
      (\<lambda>env2. Value (CELL_NIL, take ?i env2))) (stops W K t c' ts)" (is "leads _ _ _ ?r _") if l: "length env1 = Suc ?i" for env1
  proof (rule leads_open [OF a(4)])
    show "fits K c2" using p(4) by (simp add: placed_def)
    have g1: "goes W (starts W K c2 (env1 @ [(Some v, None)]) ts) (starts W K ?z (env1 @ [(Some v, None)]) (ts @ [CELL_LONG 0]))"
      by (rule goes_emit_push [OF live p(5)]) (simp add: vm_dispatch_simps)
    have g2: "goes W (starts W K ?z (env1 @ [(Some v, None)]) (ts @ [CELL_LONG 0]))
        (starts W K ?c3 (env_set (Suc ?i) (CELL_LONG 0) (env1 @ [(Some v, None)])) ts)"
      by (rule goes_emit_store [OF live p(6) _ max(2)]) (simp add: l)
    have e: "env_set (Suc ?i) (CELL_LONG 0) (env1 @ [(Some v, None)]) = env1 @ [(Some v, Some (CELL_LONG 0))]"
      using l [symmetric] by (simp add: env_set_def nth_append list_update_append)
    show "leads W n (starts W K c2 (env1 @ [(Some v, None)]) ts) ?r (stops W K t c' ts)"
      by (rule leads_step [OF g1 leads_step [OF g2 [unfolded e] loop]])
  qed
  have "leads W n (starts W K c env ts) (then_e (ev W me n (env @ [(None, None)]) count) (\<lambda>(k, env1).
      then_e (ev_dotimes W me n (env_set ?i k env1 @ [(Some v, Some (CELL_LONG 0))]) ?i body)
        (\<lambda>env2. Value (CELL_NIL, take ?i env2)))) (stops W K t c' ts)"
  proof (rule leads_open [OF a(2)], goal_cases)
    case 1
    then show ?case using p(1) by (simp add: placed_def)
  next
    case 2
    show ?case
    proof (rule leads_expr [OF small(1) a(3) r0 p(2) lits(1)])
      fix k env1
      let ?r = "then_e (ev_dotimes W me n (env_set ?i k env1 @ [(Some v, Some (CELL_LONG 0))]) ?i body) (\<lambda>env2. Value (CELL_NIL, take ?i env2))"
      have "leads W n (starts W K c1 env1 (ts @ [k])) ?r (stops W K t c' ts)"
      proof (rule vm_at_names)
        assume n1: "map fst env1 = locals c1"
        have l: "length env1 = Suc ?i" using names_length [OF n1] l1(2) by simp
        have "goes W (starts W K c1 env1 (ts @ [k])) (starts W K ?s (env_set ?i k env1) ts)"
          by (rule goes_emit_store [OF live p(3) _ max(1)]) (simp add: l)
        then show "leads W n (starts W K c1 env1 (ts @ [k])) ?r (stops W K t c' ts)"
          by (rule leads_step) (rule init, simp add: l)
      qed
      then show "leads W n (starts W K c1 env1 (ts @ [k])) (case (k, env1) of (k, env1) \<Rightarrow>
        then_e (ev_dotimes W me n (env_set ?i k env1 @ [(Some v, Some (CELL_LONG 0))]) ?i body)
        (\<lambda>env2. Value (CELL_NIL, take ?i env2))) (stops W K t c' ts)" by simp
    qed
  qed
  then show "leads W n (starts W K c env ts) (ev_form W me n env F_dotimes args) (stops W K t c' ts)"
    using a(1) names_length [OF n] by (simp add: ev_form.simps [of _ _ _ _ F_dotimes])
qed

section \<open>Functions\<close>

lemma body_okI:
  assumes "\<And>m e. n = Suc m \<Longrightarrow> simulates W m fn e"
  shows "body_ok W n fn args"
  unfolding body_ok_def
proof (intro allI impI)
  fix params body ls np K m
  assume fn: "fn = CELL_LAMBDA (CELL_EXPRESSION params # body)" and n: "n = Suc m" and f: "frame_ok W K fn"
    and ls: "parse_params params False [] 0 = Compiled (ls, np)"
  have comp: "compileLambda (wenv W) fn (wself W fn) = Compiled (kcode K)" "sound_code W fn (kcode K)" "num_locals (kcode K) \<le> ksize K"
    using f by (simp_all add: frame_ok_def)
  let ?c = "start_of ls (wself W fn)"
  obtain ls' np' c1 where parts: "parse_params params False [] 0 = Compiled (ls', np')"
    "(if body = [] then Compiled (emitOp OP_NIL (start_of ls' (wself W fn))) else compile_body (wenv W) (start_of ls' (wself W fn)) body True) = Compiled c1"
    "kcode K = \<lparr>bcode = code c1 @ [op_byte OP_RET], bconstants = constants c1, bsymbols = symbols c1, num_params = np', num_locals = max_locals c1\<rparr>"
    "keeps (start_of ls' (wself W fn)) c1" "small_frame (start_of ls' (wself W fn))"
    using compileLambda_parts [OF comp(1) [unfolded fn]] fn by metis
  have ls': "ls' = ls" using parts(1) ls by simp
  note c1 = parts(2-5) [unfolded ls']
  have r: "ready W K fn ?c" using f c1(4) by (simp add: ready_def start_of_def)
  have b: "max_locals c1 \<le> ksize K" "length (code c1) \<le> 32767" using comp(2,3) c1(2) by (auto simp: sound_code_def)
  have g: "grows ?c c1" by (rule keeps_grows [OF c1(3)])
  then have p: "placed K ?c c1" using b c1(2)
    by (auto simp: placed_def fits_def grows_def start_of_def emitted_def code_at_def)
  have l: "locals c1 = ls" "locals ?c = ls" "code ?c = []" using keeps_locals [OF c1(3)] by (simp_all add: start_of_def)
  have lits: "literals_list fn body" by (auto simp: fn literals_list_def)
  have "leads W m (vm_at W K ls 0 (call_env ls args) []) (ev_body W fn m (call_env ls args) body)
      (finish W K ls True (length (code c1)) [])"
    using sim_body_or_nil [OF assms [OF n] c1(1) r p lits, of "call_env ls args" "[]"] l by simp
  then have "leads W m (vm_at W K ls 0 (call_env ls args) []) (ev_body W fn m (call_env ls args) body) (\<lambda>x. returned W K (fst x))"
  proof (rule leads_post)
    fix x o' assume "finish W K ls True (length (code c1)) [] x o'"
    then consider m' where "o' = Running m'" "vm_at W K ls (length (code c1)) (snd x) ([] @ [fst x]) m'" | "returned W K (fst x) o'"
      by (auto simp: finish_def running_def)
    then show "\<exists>k. returned W K (fst x) (vm_steps (whost W) k o')"
    proof cases
      case 1
      have "code_at (bcode (kcode K)) (length (code c1)) [op_byte OP_RET]" using c1(2) by (simp add: code_at_def)
      from returned_step [OF 1(2) frame_ok_live [OF f] this] show ?thesis
        using 1(1) by (intro exI [of _ 1]) simp
    next
      case 2
      then show ?thesis by (intro exI [of _ 0]) simp
    qed
  qed
  then show "leads W m (vm_at W K ls 0 (call_env ls args) []) (then_e (ev_body W fn m (call_env ls args) body) (\<lambda>(v, _). Value v)) (returned W K)"
    using leads_map [where f = fst] by (simp add: case_prod_unfold)
qed

text \<open>Every form.\<close>

lemma form_of_compare: "form_of E self s = F_compare op \<Longrightarrow> op \<in> {OP_LT, OP_GT, OP_LE, OP_GE, OP_EQ, OP_NE}"
  by (auto simp: form_of_def Let_def split: if_splits)

lemma sim_cond:
  assumes "\<And>e. size e < Suc (cells_size args) \<Longrightarrow> simulates W n me e" "compile_form (wenv W) c F_cond args t = Compiled c'"
    "ready W K me c" "placed K c c'" "literals_list me args"
  shows "leads W n (starts W K c env ts) (ev_form W me n env F_cond args) (stops W K t c' ts)"
proof (cases "args = []")
  case True
  then show ?thesis using assms(2,4) sim_nil [OF assms(3)]
    by (auto simp: compile_form.simps [of _ _ F_cond] ev_form.simps [of _ _ _ _ F_cond] ev_clauses.simps [of _ _ _ _ _ "[]"])
next
  case False
  then have c: "compile_clauses (wenv W) (emitOp OP_NIL c) [] args t = Compiled c'" using assms(2) by (simp add: compile_form.simps [of _ _ F_cond])
  have k: "keeps (emitOp OP_NIL c) c'" using compile_clauses_closes [OF compile_tidy _ c] by (simp add: pending_def)
  have p: "placed K c (emitOp OP_NIL c)" "placed K (emitOp OP_NIL c) c'" using placed_split [OF assms(4) keeps_emitOp k] by auto
  have "leads W n (starts W K (emitOp OP_NIL c) env (ts @ [CELL_NIL])) (ev_clauses W me n env CELL_NIL args) (stops W K t c' ts)"
    by (rule sim_clauses [OF _ _ c ready_keeps [OF assms(3) keeps_emitOp] p(2) assms(5)]) (use assms(1) in \<open>auto simp: pending_def\<close>)
  from leads_step [OF goes_emit_push [OF ready_live [OF assms(3)] p(1)] this]
  show ?thesis by (simp add: vm_dispatch_simps ev_form.simps [of _ _ _ _ F_cond])
qed

lemma sim_form:
  assumes "\<And>k e. k \<le> n \<Longrightarrow> size e < Suc (cells_size args) \<Longrightarrow> simulates W k me e" "\<And>fn vs. body_ok W n fn vs"
    "compile_form (wenv W) c f args t = Compiled c'" "ready W K me c" "placed K c c'" "literals_list me args"
    "\<And>op. f = F_compare op \<Longrightarrow> op \<in> {OP_LT, OP_GT, OP_LE, OP_GE, OP_EQ, OP_NE}"
  shows "leads W n (starts W K c env ts) (ev_form W me n env f args) (stops W K t c' ts)"
proof -
  have now: "size e < Suc (cells_size args) \<Longrightarrow> simulates W n me e" for e using assms(1) by simp
  have mem: "e \<in> set args \<Longrightarrow> simulates W n me e" for e using now member_size by blast
  note rest = assms(3-6)
  show ?thesis
  proof (cases f)
    case F_if then show ?thesis using sim_if [OF now _ assms(4-6)] assms(3) by simp
  next
    case F_when then show ?thesis using sim_when [OF now _ assms(4-6)] assms(3) by simp
  next
    case F_cond then show ?thesis using sim_cond [OF now _ assms(4-6)] assms(3) by simp
  next
    case F_and
    then show ?thesis using sim_and [OF mem _ _ _ assms(4-6), of "[]"] assms(3,5) sim_push [OF assms(4), of OP_TRUE CELL_TRUE]
      by (auto simp: compile_form.simps [of _ _ F_and] ev_form.simps [of _ _ _ _ F_and] vm_dispatch_simps pending_def split: if_splits)
  next
    case F_or
    then show ?thesis using sim_or [OF mem _ _ _ assms(4-6), of "[]"] assms(3,5) sim_nil [OF assms(4)]
      by (auto simp: compile_form.simps [of _ _ F_or] ev_form.simps [of _ _ _ _ F_or] pending_def split: if_splits)
  next
    case F_begin
    then show ?thesis using sim_body_or_nil [OF mem _ assms(4-6)] assms(3)
      by (simp add: compile_form.simps [of _ _ F_begin] ev_form.simps [of _ _ _ _ F_begin])
  next
    case F_while then show ?thesis using sim_while [OF assms(1) _ assms(4-6)] assms(3) by simp
  next
    case F_let then show ?thesis using sim_let [OF now _ assms(4-6)] assms(3) by simp
  next
    case F_local then show ?thesis using sim_local [OF now _ assms(4-6)] assms(3) by simp
  next
    case F_dotimes then show ?thesis using sim_dotimes [OF assms(1) _ assms(4-6)] assms(3) by simp
  next
    case (F_assign q)
    then show ?thesis using sim_assigns [OF mem _ assms(4-6)] assms(3)
      by (simp add: compile_form.simps [of _ _ "F_assign q"] ev_form.simps [of _ _ _ _ "F_assign q"])
  next
    case (F_step up) then show ?thesis using sim_step [OF now _ assms(4-6)] assms(3) by simp
  next
    case (F_compare op) then show ?thesis using sim_compare [OF now _ assms(4-6) assms(7)] assms(3) by simp
  next
    case F_plus then show ?thesis using sim_plus [OF now _ assms(4-6)] assms(3) by simp
  next
    case F_minus then show ?thesis using sim_minus [OF now _ assms(4-6)] assms(3) by simp
  next
    case F_times then show ?thesis using sim_times [OF now _ assms(4-6)] assms(3) by simp
  next
    case F_divide then show ?thesis using sim_divide [OF now _ assms(4-6)] assms(3) by simp
  next
    case F_self then show ?thesis using sim_self [OF mem assms(2) _ assms(4-6)] assms(3) by simp
  qed (use assms(3) in \<open>simp_all add: compile_form.simps\<close>)
qed

end
