(* ===== verification/NL_Correct.thy ===== *)
theory NL_Correct
  imports NL_Forms
begin

text \<open>
  Correctness of the byte-code compiler: by induction on the fuel and the size of an expression the code
  of every expression does what the expression means (\<open>simulates_all\<close>), hence the code of a function
  does, in both directions. Then the tables of the compiler, the operators of the machine against those
  of the interpreter, and concrete functions: the factorial, and two where the code goes wrong.
\<close>

lemma sim_expr:
  assumes "\<And>k x. k \<le> n \<Longrightarrow> size x < size e \<Longrightarrow> simulates W k me x" "\<And>fn vs. body_ok W n fn vs"
  shows "simulates W n me e"
  unfolding simulates_def
proof (intro allI impI)
  fix K c c' t env ts
  assume comp: "compileExpr (wenv W) c e t = Compiled c'" and r: "ready W K me c" and p: "placed K c c'" and lit: "literals me e"
  have sub: "set (subcells e) \<subseteq> set (subcells me)" if "e \<noteq> CELL_NIL" using literals_self [OF lit that] .
  have const: "leads W n (starts W K c env ts) (Value (v, env)) (stops W K t c' ts)"
    if "emitConst (wenv W) v c = Compiled c'" "e \<noteq> CELL_NIL" "v \<in> set (subcells e)" for v
    using sim_emitConst [OF that(1) r p] sub [OF that(2)] that(3) by blast
  show "leads W n (starts W K c env ts) (ev W me n env e) (stops W K t c' ts)"
  proof (cases e)
    case CELL_NIL
    then show ?thesis using comp p sim_nil [OF r] by (auto simp: compileExpr.simps [of _ _ CELL_NIL] ev.simps [of _ _ _ _ CELL_NIL])
  next
    case CELL_TRUE
    then show ?thesis using comp p sim_push [OF r, of OP_TRUE CELL_TRUE]
      by (auto simp: compileExpr.simps [of _ _ CELL_TRUE] ev.simps [of _ _ _ _ CELL_TRUE] vm_dispatch_simps)
  next
    case (CELL_LONG i)
    then show ?thesis using comp p sim_emitLong [OF _ r p, of i] sub
      by (simp add: compileExpr.simps [of _ _ "CELL_LONG i"] ev.simps [of _ _ _ _ "CELL_LONG i"])
  next
    case (CELL_FLOAT d)
    then show ?thesis using comp const [of e] by (simp add: compileExpr.simps [of _ _ "CELL_FLOAT d"] ev.simps [of _ _ _ _ "CELL_FLOAT d"])
  next
    case (CELL_STRING s)
    then show ?thesis using comp const [of e] by (simp add: compileExpr.simps [of _ _ "CELL_STRING s"] ev.simps [of _ _ _ _ "CELL_STRING s"])
  next
    case (CELL_QUOTE v)
    then show ?thesis using comp const [of v] subcells_self [of v] by (simp add: compileExpr.simps [of _ _ "CELL_QUOTE v"] ev.simps [of _ _ _ _ "CELL_QUOTE v"])
  next
    case (CELL_SYMBOL s)
    then show ?thesis using comp sim_symbol [OF r, of s] p by (auto simp: compileExpr.simps [of _ _ "CELL_SYMBOL s"])
  next
    case (CELL_EXPRESSION es)
    show ?thesis
    proof (cases es)
      case Nil
      then show ?thesis using CELL_EXPRESSION comp p sim_nil [OF r]
        by (auto simp: compileExpr.simps [of _ _ "CELL_EXPRESSION []"] ev.simps [of _ _ _ _ "CELL_EXPRESSION []"])
    next
      case (Cons h args)
      let ?e = "CELL_EXPRESSION (h # args)"
      let ?f = "case h of CELL_SYMBOL s \<Rightarrow> form_of (wenv W) (wself W me) s | _ \<Rightarrow> F_call"
      have self: "self_symbol c = wself W me" using r by (simp add: ready_def)
      have F: "(case h of CELL_SYMBOL s \<Rightarrow> form_of (wenv W) (self_symbol c) s | _ \<Rightarrow> F_call) = ?f" by (simp only: self)
      have lits: "literals me h" "literals_list me args" using literals_expression [of me es] lit CELL_EXPRESSION Cons by simp_all
      have small: "simulates W k me x" if "k \<le> n" "size x < Suc (cells_size args)" for k x
        using assms(1) [OF that(1)] that(2) CELL_EXPRESSION Cons by simp
      have first: "simulates W n me h" using assms(1) [of n h] CELL_EXPRESSION Cons by simp
      have mem: "x \<in> set args \<Longrightarrow> simulates W n me x" for x using small [of n x] member_size [of x args] by simp
      show ?thesis
      proof (cases "?f = F_call")
        case True
        then obtain c0 c1 where c: "compileExpr (wenv W) c h False = Compiled c0" "compile_args (wenv W) c0 args = Compiled c1"
          "c' = emitByte (int (length args)) (emitOp (if t then OP_TAIL_CALL else OP_CALL) c1)"
          using comp CELL_EXPRESSION Cons by (auto simp: F compileExpr.simps [of _ _ ?e] then_c_Compiled Let_def)
        show ?thesis using sim_call [OF first mem assms(2) c r p lits] True CELL_EXPRESSION Cons
          by (simp add: ev.simps [of _ _ _ _ ?e])
      next
        case False
        then have c: "compile_form (wenv W) c ?f args t = Compiled c'"
          using comp CELL_EXPRESSION Cons by (simp add: F compileExpr.simps [of _ _ ?e] Let_def)
        have "op \<in> {OP_LT, OP_GT, OP_LE, OP_GE, OP_EQ, OP_NE}" if "?f = F_compare op" for op
          using that form_of_compare by (cases h) auto
        then show ?thesis using sim_form [OF small assms(2) c r p lits(2)] False CELL_EXPRESSION Cons
          by (simp add: ev.simps [of _ _ _ _ ?e])
      qed
    qed
  qed (use comp in \<open>simp_all add: compileExpr.simps\<close>)
qed

theorem simulates_all: "simulates W n me e"
proof -
  have "\<forall>me e. simulates W n me e"
  proof (induction n rule: less_induct)
    case (less n)
    have body: "body_ok W n fn vs" for fn vs by (rule body_okI) (use less in auto)
    note earlier = less
    have "simulates W n me e" for me e
    proof (induction e rule: measure_induct_rule [of size])
      case (less e)
      show ?case
      proof (rule sim_expr [OF _ body])
        fix k :: nat and x :: cell assume "k \<le> n" "size x < size e"
        then show "simulates W k me x" using earlier [of k] less [of x] by (cases "k = n") auto
      qed
    qed
    then show ?case by blast
  qed
  then show ?thesis by blast
qed

theorem all_bodies: "body_ok W n fn args"
  by (rule body_okI) (rule simulates_all)

section \<open>The function as a whole\<close>

definition run_code :: "world \<Rightarrow> bytecode \<Rightarrow> cell \<Rightarrow> cell list \<Rightarrow> (cell \<Rightarrow> bytecode option) \<Rightarrow> nat \<Rightarrow> vm_outcome" where
  "run_code W bc fn args aux k = vm_steps (whost W) k (Running (executeBytecode bc (Own fn) args (wglobals W) aux))"

lemma code_runs:
  assumes "compileLambda (wenv W) fn (wself W fn) = Compiled bc" "sound_code W fn bc" "good_aux W aux"
  shows "does W n (executeBytecode bc (Own fn) args (wglobals W) aux) (ev_apply W (Suc n) fn args) (\<lambda>v r. r = Returned v (wglobals W))"
proof -
  obtain params body where fn: "fn = CELL_LAMBDA (CELL_EXPRESSION params # body)"
    using assms(1) by (cases "(wenv W, fn, wself W fn)" rule: compileLambda.cases) (simp_all add: compileLambda.simps)
  obtain ls np where ls: "parse_params params False [] 0 = Compiled (ls, np)" "length ls \<le> num_locals bc"
    using compileLambda_parts [OF assms(1) [unfolded fn]] by metis
  have e: "ev_apply W (Suc n) fn args = then_e (ev_body W fn n (call_env ls args) body) (\<lambda>(v, _). Value v)"
    using assms(1,2) fn ls(1) by (simp add: ev_apply.simps call_env_def)
  let ?is = "map Own args"
  let ?K = "callee bc (Own fn) [] [] ?is"
  have "frame_ok W ?K fn" using assms(1,2) by (auto simp: frame_ok_def callee_def frame_slots_def)
  then have "leads W n (vm_at W ?K ls 0 (call_env ls args) []) (ev_apply W (Suc n) fn args) (returned W ?K)"
    using all_bodies [of W "Suc n" fn args] fn ls(1) e by (auto simp: body_ok_def)
  moreover have "vm_at W ?K ls 0 (call_env ls args) [] (executeBytecode bc (Own fn) args (wglobals W) aux)"
    unfolding executeBytecode_def by (rule enter_at) (use ls(2) assms(3) in \<open>simp_all add: comp_def\<close>)
  ultimately have "does W n (executeBytecode bc (Own fn) args (wglobals W) aux) (ev_apply W (Suc n) fn args) (returned W ?K)"
    by (simp add: leads_def)
  then show ?thesis by (rule does_mono) (simp add: returned_def callee_def)
qed

lemma vm_steps_stay: "vm_steps H j r = r' \<Longrightarrow> \<not> (\<exists>m. r' = Running m) \<Longrightarrow> j \<le> k \<Longrightarrow> vm_steps H k r = r'"
  using vm_steps_add [of H j "k - j" r] vm_steps_final [of r' H "k - j"] by simp

lemma vm_steps_earlier: "vm_steps H k r = Running m \<Longrightarrow> j \<le> k \<Longrightarrow> \<exists>m. vm_steps H j r = Running m"
  using vm_steps_stay [of H j r _ k] by (cases "vm_steps H j r") auto

lemma ev_apply_0:
  assumes "compileLambda (wenv W) fn (wself W fn) = Compiled bc" "sound_code W fn bc"
  shows "ev_apply W 0 fn args = Timeout"
proof -
  obtain params body where fn: "fn = CELL_LAMBDA (CELL_EXPRESSION params # body)"
    using assms(1) by (cases "(wenv W, fn, wself W fn)" rule: compileLambda.cases) (simp_all add: compileLambda.simps)
  obtain ls np where "parse_params params False [] 0 = Compiled (ls, np)"
    using compileLambda_parts [OF assms(1) [unfolded fn]] by metis
  then show ?thesis using assms fn by (simp add: ev_apply.simps)
qed

lemma code_meant:
  assumes "compileLambda (wenv W) fn (wself W fn) = Compiled bc" "sound_code W fn bc" "good_aux W aux"
  shows "case ev_apply W n fn args of
      Value v \<Rightarrow> \<exists>k. run_code W bc fn args aux k = Returned v (wglobals W)
    | Raises e \<Rightarrow> \<exists>k. run_code W bc fn args aux k = Error e
    | Undefined \<Rightarrow> \<exists>k. run_code W bc fn args aux k = Stuck
    | Timeout \<Rightarrow> \<exists>m. run_code W bc fn args aux (n - 1) = Running m
    | Outside \<Rightarrow> True"
proof (cases n)
  case 0
  then show ?thesis using ev_apply_0 [OF assms(1,2)] by (simp add: run_code_def)
next
  case (Suc m)
  have "does W m (executeBytecode bc (Own fn) args (wglobals W) aux) (ev_apply W n fn args) (\<lambda>v r. r = Returned v (wglobals W))"
    using code_runs [OF assms] Suc by simp
  then show ?thesis using Suc vm_steps_earlier by (auto simp: does_def run_code_def split: eresult.splits)
qed



definition sample_symbol :: "string \<Rightarrow> cell" where
  "sample_symbol n = CELL_SYMBOL \<lparr>scontext = ''MAIN'', sname = n\<rparr>"

definition factorial :: cell where
  "factorial = CELL_LAMBDA [CELL_EXPRESSION [sample_symbol ''n''],
     CELL_EXPRESSION [sample_symbol ''if'', CELL_EXPRESSION [sample_symbol ''<'', sample_symbol ''n'', CELL_LONG 2], CELL_LONG 1,
       CELL_EXPRESSION [sample_symbol ''*'', sample_symbol ''n'',
         CELL_EXPRESSION [sample_symbol ''self'', CELL_EXPRESSION [sample_symbol ''-'', sample_symbol ''n'', CELL_LONG 1]]]]]"

definition sample_world :: world where
  "sample_world =
     \<lparr>whost = \<lparr>hmachine = rounding_machine, hflags = (\<lambda>_. 0), heval = (\<lambda>v G. Inr (v, [])), hcall = (\<lambda>f a G. Inr (Own CELL_NIL, []))\<rparr>,
      wglobals = (\<lambda>s. CELL_NIL), wself = (\<lambda>_. None)\<rparr>"

lemma then_weak: "x = y \<Longrightarrow> then_e x f = then_e y f" "r = s \<Longrightarrow> then_c r g = then_c s g" by simp_all
lemmas sample_defs = sample_world_def sample_symbol_def factorial_def
lemmas ev_all = ev.simps ev_form.simps ev_body.simps ev_discard.simps ev_clauses.simps ev_and.simps ev_or.simps ev_while.simps
  ev_dotimes.simps ev_lets.simps ev_assigns.simps ev_ops.simps ev_args.simps ev_apply.simps
lemmas compile_all = compileExpr.simps compile_form.simps compile_body.simps compile_discard.simps compile_ops.simps compile_args.simps
  compileLambda.simps
lemmas compile_defs = wenv_def host_env_def form_of_def Let_def findLocal_def emitSymbol_def emitLong_def emitLoad_def MAX_LOCALS_def

definition factorial_code :: bytecode where
  "factorial_code =
     \<lparr>bcode = [29, 39, 15, 12, 4, 0, 38, 11, 6, 0, 29, 29, 40, 28, 1, 23, 14], bconstants = [], bsymbols = [], num_params = 1, num_locals = 1\<rparr>"

lemma sample_bytes:
  "op_byte OP_LOAD_LOCAL_0 = 29" "op_byte OP_CONST_2 = 39" "op_byte OP_LT = 15" "op_byte OP_JUMP_IF_NIL = 12" "op_byte OP_CONST_1 = 38"
  "op_byte OP_JUMP = 11" "op_byte OP_SUB_1 = 40" "op_byte OP_CALL_SELF = 28" "op_byte OP_MUL = 23" "op_byte OP_RET = 14"
  by (simp_all add: op_byte_def vm_opcodes_def)

lemma factorial_compiled: "compileLambda (wenv sample_world) factorial None = Compiled factorial_code"
  by (simp add: sample_defs factorial_code_def compile_all compile_defs patchJump_def patch_def jump_pos_def emitByte_def cong: then_weak)
    (simp add: is_long_def sample_bytes int16_def)

lemma factorial_sound: "sound_code sample_world factorial factorial_code"
  by (simp add: sound_code_def factorial_code_def)

lemma sample_aux: "good_aux sample_world (\<lambda>_. None)"
  by (simp add: good_aux_def sample_world_def)

lemma sample_self: "wself sample_world f = None"
  by (simp add: sample_world_def)

lemma factorial_apply:
  "ev_apply sample_world 0 factorial [v] = Timeout"
  "ev_apply sample_world (Suc m) factorial [v] =
     then_e (ev_body sample_world factorial m [(Some \<lparr>scontext = ''MAIN'', sname = ''n''\<rparr>, Some v)] [CELL_EXPRESSION [sample_symbol ''if'', CELL_EXPRESSION [sample_symbol ''<'', sample_symbol ''n'', CELL_LONG 2], CELL_LONG 1,
       CELL_EXPRESSION [sample_symbol ''*'', sample_symbol ''n'',
         CELL_EXPRESSION [sample_symbol ''self'', CELL_EXPRESSION [sample_symbol ''-'', sample_symbol ''n'', CELL_LONG 1]]]]]) (\<lambda>(v, _). Value v)"
  using factorial_compiled [unfolded factorial_def] factorial_sound [unfolded factorial_def] sample_self
  by (simp_all add: ev_apply.simps factorial_def sample_symbol_def MAX_LOCALS_def)

lemma factorial_meaning: "ev_apply sample_world 3 factorial [CELL_LONG 3] = Value (CELL_LONG 6)"
  using factorial_apply
  by (simp add: ev_all(1-13) compile_defs sample_symbol_def eval_nat_numeral compared_def vm_compare_def vm_test_def bool_cell_def binary_def vm_binary_def operated_def
    is_long_def cond_nil_def wrap64_def sample_self cong: then_weak)

lemma primitive_self:
  assumes "heval H a G = Inr (a, [])" "heval H b G = Inr (b, [])"
  shows "vm_primitive H op [a, b] G = map_option (map_sum id (\<lambda>v. (v, []))) (arithmetikOp (hmachine H) [a, b] op)"
    "vm_primitive H op [a] G = map_option (map_sum id (\<lambda>v. (v, []))) (arithmetikOp (hmachine H) [a] op)"
  using assms by (simp_all add: vm_primitive_def assign_def)

lemma compare_longs: "\<exists>d. compareCells M (CELL_LONG x) (CELL_LONG y) = Inr d \<and> sgn d = sgn (x - y)"
  by (subst compareCells.simps) (simp add: compareAddr_def)

lemma vm_test_sgn: "sgn d = sgn e \<Longrightarrow> vm_test op d = vm_test op e"
  by (auto simp: vm_test_def sgn_if split: vm_opcode.split if_splits)


text \<open>(C3) Compiling an expression keeps the shape of the compiler's state: the scopes are closed again, code
  and tables only grow at the end, each table by at most one entry for a byte of code, and a frame of at
  most 256 slots that has room for the locals stays one.\<close>

theorem compileExpr_tables:
  assumes "compileExpr E c e t = Compiled c'" "length (locals c) \<le> max_locals c" "max_locals c \<le> MAX_LOCALS"
  shows "locals c' = locals c \<and> self_symbol c' = self_symbol c \<and> max_locals c \<le> max_locals c' \<and> max_locals c' \<le> MAX_LOCALS \<and>
    (\<exists>bs ks ss. code c' = code c @ bs \<and> constants c' = constants c @ ks \<and> symbols c' = symbols c @ ss \<and>
       length ks \<le> length bs \<and> length ss \<le> length bs)"
  using compile_keeps [OF assms(1)] assms(2,3)
  by (auto simp: keeps_def extends_def grows_def small_frame_def prefix_def)



theorem compileExpr_tables_witness:
  "\<exists>c'. compileExpr (wenv sample_world) (start_of [] None) (CELL_LONG 1) True = Compiled c' \<and> max_locals c' \<le> 256"
  using compileExpr_tables [where E = "wenv sample_world" and c = "start_of [] None" and e = "CELL_LONG 1" and t = True]
  by (simp add: compileExpr.simps emitLong_def start_of_def MAX_LOCALS_def)


text \<open>Running concrete code.\<close>

lemma more_dispatch:
  "vm_dispatch H OP_LT m = vm_relation H OP_LT m" "vm_dispatch H OP_MUL m = vm_arith H OP_MUL m"
  "vm_dispatch H vm_opcode.OP_ADD m = vm_arith H vm_opcode.OP_ADD m"
  "vm_dispatch H OP_STORE_GLOBAL m =
     vm_operand m (\<lambda>i m. vm_symbol (nat i) m (\<lambda>s. vm_pop_cell m (\<lambda>v m. Running (vm_assign [(s, v)] m))))"
  by (simp_all add: vm_dispatch_def)

lemmas run_defs = run_code_def executeBytecode_def vm_enter_def frame_slots_def vm_step_def vm_fetch_def vm_push_def vm_pop_def vm_pop_cell_def
  vm_const_def vm_load_def vm_store_def vm_symbol_def vm_operand_def vm_jump_def vm_return_def current_frame_def op_decode_def vm_opcodes_def vm_dispatch_simps more_dispatch
  vm_relation_def vm_compare_def vm_test_def bool_cell_def vm_arith_def vm_arith_const_def vm_binary_def vm_result_def vm_assign_def assign_def
  cond_nil_def int16_def wrap64_def

lemma factorial_runs: "run_code sample_world factorial_code factorial [CELL_LONG 1] (\<lambda>_. None) 7 = Returned (CELL_LONG 1) (\<lambda>_. CELL_NIL)"
  by (simp add: run_defs factorial_code_def sample_world_def eval_nat_numeral)


text \<open>A function that reads a symbol, assigns to it and returns what it read: \<open>(lambda () (let (t a) (setq a 7) t))\<close>.\<close>

definition keeps_old :: cell where
  "keeps_old = CELL_LAMBDA [CELL_EXPRESSION [],
     CELL_EXPRESSION [sample_symbol ''let'', CELL_EXPRESSION [sample_symbol ''t'', sample_symbol ''a''],
       CELL_EXPRESSION [sample_symbol ''setq'', sample_symbol ''a'', CELL_LONG 7], sample_symbol ''t'']]"

definition keeps_old_code :: bytecode where
  "keeps_old_code =
     \<lparr>bcode = [8, 0, 0, 33, 3, 0, 0, 5, 9, 0, 0, 4, 29, 14], bconstants = [CELL_LONG 7],
      bsymbols = [\<lparr>scontext = ''MAIN'', sname = ''a''\<rparr>], num_params = 0, num_locals = 1\<rparr>"

lemma keeps_old_bytes:
  "op_byte OP_LOAD_GLOBAL = 8" "op_byte OP_STORE_LOCAL_0 = 33" "op_byte OP_CONST = 3" "op_byte OP_DUP = 5" "op_byte OP_STORE_GLOBAL = 9"
  "op_byte OP_POP = 4" "op_byte OP_LOAD_LOCAL_0 = 29" "op_byte OP_RET = 14"
  by (simp_all add: op_byte_def vm_opcodes_def)

lemma keeps_old_compiled: "compileLambda (wenv sample_world) keeps_old None = Compiled keeps_old_code"
  by (simp add: keeps_old_def keeps_old_code_def sample_defs compile_all compile_lets.simps compile_assigns.simps emitAssign_def emitGlobal_def
    addSymbol_def addLocal_def emitStore_def emitConst_def addConstant_def compile_defs emitUint16_def emitByte_def keeps_old_bytes cong: then_weak)

theorem read_before_assignment_dangles:
  "compileLambda (wenv sample_world) keeps_old None = Compiled keeps_old_code \<and> run_code sample_world keeps_old_code keeps_old [] (\<lambda>_. None) 8 = Stuck"
  by (simp add: keeps_old_compiled) (simp add: run_defs keeps_old_code_def sample_world_def eval_nat_numeral)

text \<open>The initial value of a binding reads the variable it opens: \<open>(lambda (x) (let (x (+ x 1)) x))\<close>.\<close>

definition let_over :: cell where
  "let_over = CELL_LAMBDA [CELL_EXPRESSION [sample_symbol ''x''],
     CELL_EXPRESSION [sample_symbol ''let'', CELL_EXPRESSION [sample_symbol ''x'', CELL_EXPRESSION [sample_symbol ''+'', sample_symbol ''x'', CELL_LONG 1]],
       sample_symbol ''x'']]"

definition let_over_code :: bytecode where
  "let_over_code = \<lparr>bcode = [30, 42, 34, 30, 14], bconstants = [], bsymbols = [], num_params = 1, num_locals = 2\<rparr>"

lemma let_over_bytes: "op_byte OP_LOAD_LOCAL_1 = 30" "op_byte OP_ADD_1 = 42" "op_byte OP_STORE_LOCAL_1 = 34" "op_byte OP_RET = 14"
  by (simp_all add: op_byte_def vm_opcodes_def)

lemma let_over_compiled: "compileLambda (wenv sample_world) let_over None = Compiled let_over_code"
  by (simp add: let_over_def let_over_code_def sample_defs compile_all compile_lets.simps addLocal_def emitStore_def compile_defs emitByte_def
    is_long_def let_over_bytes cong: then_weak)

theorem initial_value_reads_new_slot:
  "compileLambda (wenv sample_world) let_over None = Compiled let_over_code \<and>
   run_code sample_world let_over_code let_over [CELL_LONG 5] (\<lambda>_. None) 2 = Error ERR_NUMBER_EXPECTED"
  by (simp add: let_over_compiled) (simp add: run_defs let_over_code_def sample_world_def eval_nat_numeral vm_primitive_def vm_operator_def arithmetikOp_def)

end
