(* ===== verification/Spec2Isabelle.thy ===== *)
theory Spec2Isabelle
  imports NL_Sets NL_Json NL_Crypt NL_Printer NL_Correct
begin

text \<open>
  newLISP-neo is an interpreter for the Lisp dialect newLISP, written in C. One data structure, the
  cell, stands for every value; the primitives in the files \<^verbatim>\<open>nl-*.c\<close> work on cells and are called by
  the evaluator in \<^verbatim>\<open>newlisp.c\<close>. This development models the parts of the primitives that compute
  something of their own and proves what makes them correct. The configuration is that of a 64-bit
  Unix with big integers and UTF-8.

  \<^bold>\<open>Parts and theories.\<close> Each theory models one file or a part of it, in the order of the code.

  \<^item> \<open>NL_Prelude\<close>: the error numbers of \<^verbatim>\<open>newlisp.h\<close>, the result type \<open>result\<close> (an error or a value), the
    C operations on integers, generic lemmas, and the interfaces the components share:
    \<open>total_comparison\<close> (a three-way comparison that is a total preorder), \<open>integer_ops\<close> and
    \<open>integer_division\<close> (exact integer arithmetic).
  \<^item> \<open>NL_Cell\<close> (\<^verbatim>\<open>newlisp.h\<close>, \<^verbatim>\<open>nl-math.c\<close>, \<^verbatim>\<open>newlisp.c\<close>): the cell as a datatype, conversions of number
    cells, \<^verbatim>\<open>compareCells\<close>. It interprets \<open>total_comparison\<close>.
  \<^item> \<open>NL_Bigint\<close>, \<open>NL_BigDiv\<close>, \<open>NL_Double\<close>, \<open>NL_BigConv\<close> (\<^verbatim>\<open>nl-math.c\<close>): big integers, their division with
    digits guessed in double arithmetic, their conversions. They interpret \<open>integer_ops\<close> and
    \<open>integer_division\<close>.
  \<^item> \<open>NL_Arith\<close> (\<^verbatim>\<open>nl-math.c\<close>): the integer operators, which compute in 64 bits or in big integers as
    their first argument says, \<^verbatim>\<open>gcd\<close>, \<^verbatim>\<open>factor\<close>, \<^verbatim>\<open>bits\<close>, parity and the relational operators.
  \<^item> \<open>NL_Crypt\<close> (\<^verbatim>\<open>nl-math.c\<close>): encryption, checksum, random numbers, on machine words.
  \<^item> \<open>NL_SymTree\<close>, \<open>NL_Contexts\<close> (\<^verbatim>\<open>nl-symbol.c\<close>): the red-black trees that hold the symbols of a context,
    with the interface \<open>symbol_table\<close>, and the contexts on top of it.
  \<^item> \<open>NL_Sort\<close>, \<open>NL_Sets\<close> (\<^verbatim>\<open>nl-list.c\<close>): the merge sort and the set functions, over any comparison that
    is a \<open>total_comparison\<close>.
  \<^item> \<open>NL_Utf8\<close> (\<^verbatim>\<open>nl-utf8.c\<close>), \<open>NL_Codec\<close> and \<open>NL_Web\<close> (\<^verbatim>\<open>nl-web.c\<close>), \<open>NL_Json\<close> (\<^verbatim>\<open>nl-xml-json.c\<close>): the text
    formats and the HTTP server.
  \<^item> \<open>NL_Reader\<close>, \<open>NL_Printer\<close> (\<^verbatim>\<open>newlisp.c\<close>, \<^verbatim>\<open>nl-string.c\<close>): the scanner and the reader of expressions, which
    creates symbols in the contexts, and the printer of cells with its line breaks. \<open>NL_Grammar\<close> is the
    specification between them: the language of expressions as a relation between texts and cells.
  \<^item> \<open>NL_VM\<close> (\<^verbatim>\<open>nl-vm.c\<close>, \<^verbatim>\<open>nl-vm.h\<close>): the compiler from expressions to byte code and the machine that runs
    it; it uses the cells, their comparison (for the table of constants and the relational
    instructions) and the operators of \<open>NL_Arith\<close>. \<open>NL_Meaning\<close> is the specification: a reference
    evaluator. \<open>NL_Emit\<close>, \<open>NL_Runs\<close>, \<open>NL_Placed\<close>, \<open>NL_Scopes\<close>, \<open>NL_Forms\<close>, \<open>NL_Correct\<close> prove that compiled
    code does what the evaluator says.

  \<^bold>\<open>How the code is modelled.\<close> A C function is a HOL function of the same name on values; a pointer into a
  buffer is the rest of the buffer or an index; a loop is a recursion; an error raised by
  \<^verbatim>\<open>errorProc\<close> is a left value of \<open>result\<close>, and \<open>C_UNDEFINED\<close> marks what C leaves undefined (a read outside a
  buffer, a signed overflow that traps, a write through a null pointer). State is passed explicitly:
  the symbol trees of the contexts, the text left to read, the counters of the pretty printer, the state of
  the compiler, the machine with its stack, frames,
  global symbols and attached byte code. A stack entry of the machine says whether its cell is owned,
  borrowed from a symbol, or freed. Integers wrap where the code lets them wrap (\<open>wrap64\<close>, the words of
  \<open>NL_Crypt\<close>, the 8- and 16-bit operands of \<open>NL_VM\<close>).

  \<^bold>\<open>What the lemmas show.\<close> Big-integer arithmetic is exact, with division for every rounding that
  satisfies \<open>ieee_double\<close>; printing and reading are inverse; the operators fold these over any number of
  arguments and raise exactly the errors the code can raise. Comparison of cells is a total preorder
  where their numbers are of one kind; sorting gives a stable ordered permutation, the set functions
  select exactly the specified positions. Symbol trees stay ordered and balanced and refine a finite
  map; translating a token resolves to one symbol; dictionaries return what was stored. The codecs are
  inverse to each other, the JSON reader accepts its grammar and always returns, the HTTP server stays
  in its directory and answers. The reader always returns, reads every text of its language as the cell it
  means and refuses texts that are cut off; it reads back what the printer prints. Compiled code returns the value, raises the error or runs on exactly
  as the reference evaluator says, and its operators agree with those of the interpreter.

  \<^bold>\<open>Bounds and fuel.\<close> The JSON reader has fuel three times the length of the text plus three, which is
  proved to be enough; the reader of expressions has one more than the text is long, enough as well. The
  reference evaluator spends fuel on the rounds of loops and on calls only; no fuel is claimed to be
  enough, since programs may run on: the theorems hold for every fuel, and when it ends the machine is shown to be still running after as many instructions. The correction loop of the
  division, the loops of \<^verbatim>\<open>gcd\<close> and \<^verbatim>\<open>factor\<close> return \<open>None\<close> in the model if they do not end; the theorems
  show that they do.

  \<^bold>\<open>Parameters and hypotheses.\<close> The record \<open>machine\<close> holds the rounding of doubles, \<^verbatim>\<open>atof\<close> and the like;
  \<open>ieee_double\<close> states the properties of IEEE rounding used, and \<open>NL_Double\<close> gives a rounding that has them.
  The record \<open>reader\<close> of \<open>NL_Reader\<close> holds the decimal point of the locale, \<^verbatim>\<open>atof\<close> and the expansion of
  macros, the record \<open>printer\<close> the settings of the printer. Printing and reading are inverse for the
  cells \<open>printable\<close> describes: no floats or addresses, numbers within the length of a token, and symbols
  that no other symbol hides in the current context.
  The record \<open>server\<close> of \<open>NL_Web\<close> is the operating system and the client. The record \<open>host\<close> of \<open>NL_VM\<close> is the
  rest of the interpreter: the flags of symbols, evaluation of an expression, and the call of a
  function that has no byte code. The correctness of compiled code assumes of a function that its byte
  code fits the 16-bit jumps and has fewer than 256 parameters, and that no constant of its table
  compares equal to a different literal (\<open>sound_code\<close>); the evaluator leaves its domain (\<open>Outside\<close>) at an
  assignment to a global symbol, because the machine then may hold freed cells, at a read of a local
  that was never set, and at calls with more than 255 arguments. \<open>NL_Correct\<close> ends with functions for which
  the code goes wrong there.

  \<^bold>\<open>Not modelled.\<close> The evaluator and the cell memory of \<^verbatim>\<open>newlisp.c\<close>, with the loading of files and the
  printing of definitions for \<^verbatim>\<open>save\<close>; the list
  and string primitives that evaluate their arguments in place; XML, which calls back into the
  evaluator; the HTTP client, sockets, files, processes, foreign functions and the debugger, which are
  input and output; floating-point functions, statistics, FFT and matrices, whose results depend on
  libm; and the vendored PCRE library. Allocation is assumed to succeed.
\<close>

end
